(* ===== verification/Prelude.thy ===== *)
theory Prelude
  imports Main "HOL-Library.Word" "HOL-Library.Signed_Division" "HOL-Library.Multiset"
begin

text \<open>
  Shared material of the development: the machine types of the k10 port, the way a kernel
  routine stops (\<open>fault\<close>), the result type of kernel routines and its sequencing, the C
  macros of \<^verbatim>\<open>k10/mem.h\<close>, and generic lemmas on lists and flag words.

  A kernel routine that can panic or touch memory out of bounds returns a value of type
  \<open>('a, 'k) kres\<close>: \<open>Inl f\<close> when the machine stops with the fault \<open>f\<close>, and
  \<open>Inr (x, k)\<close> when it returns \<open>x\<close> and leaves the kernel state \<open>k\<close>. The predicate
  \<open>kok m P\<close> is the total-correctness triple: the routine returns, without any fault, and
  the result satisfies \<open>P\<close>.
\<close>

unbundle bit_operations_syntax

type_synonym byte = "8 word"
type_synonym ushort = "16 word"
type_synonym ulong = "32 word"

section \<open>Faults and results\<close>

text \<open>
  \<open>Panic\<close> is a call of \<^verbatim>\<open>panic\<close> with its message, \<open>Exit\<close> a call of
  \<^verbatim>\<open>exit\<close>, \<open>Fault\<close> an access through a nil pointer or outside the buffer a
  pointer belongs to.
\<close>

datatype fault = Panic string | Exit | Fault

type_synonym ('a, 'k) kres = "fault + 'a \<times> 'k"

definition kbind :: "('a, 'k) kres \<Rightarrow> ('a \<Rightarrow> 'k \<Rightarrow> ('b, 'k) kres) \<Rightarrow> ('b, 'k) kres" where
  "kbind m f = (case m of Inl e \<Rightarrow> Inl e | Inr (x, k) \<Rightarrow> f x k)"

definition kret :: "'a \<Rightarrow> 'k \<Rightarrow> ('a, 'k) kres" where
  "kret x k = Inr (x, k)"

definition kok :: "('a, 'k) kres \<Rightarrow> ('a \<Rightarrow> 'k \<Rightarrow> bool) \<Rightarrow> bool" where
  "kok m P = (case m of Inl _ \<Rightarrow> False | Inr (x, k) \<Rightarrow> P x k)"

lemma kbind_simps [simp]:
  "kbind (Inl e) f = Inl e"
  "kbind (Inr (x, k)) f = f x k"
  "kbind (kret x k) f = f x k"
  by (simp_all add: kbind_def kret_def)

lemma kbind_cong [fundef_cong]:
  "m = m' \<Longrightarrow> (\<And>x k. m' = Inr (x, k) \<Longrightarrow> f x k = g x k) \<Longrightarrow> kbind m f = kbind m' g"
  by (auto simp: kbind_def split: sum.split)

lemma kok_simps [simp]:
  "kok (Inl e) P \<longleftrightarrow> False"
  "kok (Inr (x, k)) P \<longleftrightarrow> P x k"
  "kok (kret x k) P \<longleftrightarrow> P x k"
  by (simp_all add: kok_def kret_def)

lemma kok_bind [simp]: "kok (kbind m f) P \<longleftrightarrow> kok m (\<lambda>x k. kok (f x k) P)"
  by (auto simp: kok_def kbind_def split: sum.split)

lemma kok_if [simp]: "kok (if b then m else m') P \<longleftrightarrow> (if b then kok m P else kok m' P)"
  by simp

lemma kok_mono: "kok m P \<Longrightarrow> (\<And>x k. P x k \<Longrightarrow> Q x k) \<Longrightarrow> kok m Q"
  by (auto simp: kok_def split: sum.splits)

lemma kok_bindI: "kok m P \<Longrightarrow> (\<And>x k. P x k \<Longrightarrow> kok (f x k) Q) \<Longrightarrow> kok (kbind m f) Q"
  by simp (erule kok_mono)

lemma kok_conj: "kok m P \<Longrightarrow> kok m Q \<Longrightarrow> kok m (\<lambda>x k. P x k \<and> Q x k)"
  by (auto simp: kok_def split: sum.splits)

lemma kok_returns: "kok m P \<longleftrightarrow> (\<exists>x k. m = Inr (x, k) \<and> P x k)"
  by (auto simp: kok_def split: sum.splits)

section \<open>The rounding macros of mem.h\<close>

text \<open>C division truncates towards zero, which is \<open>sdiv\<close> on \<open>int\<close>.\<close>

definition HOWMANY :: "int \<Rightarrow> int \<Rightarrow> int" where
  "HOWMANY x y = (x + (y - 1)) sdiv y"

definition ROUNDUP :: "int \<Rightarrow> int \<Rightarrow> int" where
  "ROUNDUP x y = HOWMANY x y * y"

lemma sdiv_nonneg_eq: "0 \<le> a \<Longrightarrow> 0 < b \<Longrightarrow> a sdiv b = a div (b::int)"
  by (cases "a = 0") (simp_all add: signed_divide_int_def sgn_if)

lemma ROUNDUP_bounds:
  assumes "0 \<le> x" and "0 < y"
  shows "x \<le> ROUNDUP x y" and "ROUNDUP x y < x + y" and "y dvd ROUNDUP x y"
proof -
  have r: "ROUNDUP x y = (x + y - 1) div y * y"
    using assms by (simp add: ROUNDUP_def HOWMANY_def sdiv_nonneg_eq algebra_simps)
  have "(x + y - 1) div y * y + (x + y - 1) mod y = x + y - 1"
    by simp
  moreover have "0 \<le> (x + y - 1) mod y" "(x + y - 1) mod y < y"
    using assms by simp_all
  ultimately show "x \<le> ROUNDUP x y" "ROUNDUP x y < x + y"
    unfolding r by linarith+
  show "y dvd ROUNDUP x y"
    by (simp add: r)
qed

lemma ROUNDUP_nonneg [simp]: "0 \<le> x \<Longrightarrow> 0 < y \<Longrightarrow> 0 \<le> ROUNDUP x y"
  using ROUNDUP_bounds(1) [of x y] by linarith

section \<open>Flag words\<close>

text \<open>\<open>tst w f\<close> is the C test \<^verbatim>\<open>w & f\<close>; the flags used with it are single bits.\<close>

definition tst :: "'a::len word \<Rightarrow> 'a word \<Rightarrow> bool" where
  "tst w f \<longleftrightarrow> w AND f \<noteq> 0"

definition setf :: "'a::len word \<Rightarrow> 'a word \<Rightarrow> 'a word" where
  "setf w f = w OR f"

definition clrf :: "'a::len word \<Rightarrow> 'a word \<Rightarrow> 'a word" where
  "clrf w f = w AND NOT f"

lemma tst_setf [simp]: "tst (setf w f) g \<longleftrightarrow> tst w g \<or> tst f g"
  by (simp add: tst_def setf_def bit.conj_disj_distrib2 or_eq_0_iff)

lemma tst_clrf: "f AND g = 0 \<Longrightarrow> tst (clrf w f) g \<longleftrightarrow> tst w g"
proof -
  assume d: "f AND g = 0"
  have "(w AND NOT f) AND g = w AND g AND NOT f"
    by (simp add: ac_simps)
  also have "\<dots> = w AND g"
  proof (rule bit_word_eqI)
    fix n assume n: "n < LENGTH('a)"
    have "\<not> (bit f n \<and> bit g n)"
      using d by (metis bit_and_iff bit_0_eq bot_apply bot_bool_def)
    then show "bit (w AND g AND NOT f) n = bit (w AND g) n"
      using n by (auto simp: bit_simps)
  qed
  finally show ?thesis
    by (simp add: tst_def clrf_def)
qed

lemma tst_clrf_same [simp]: "\<not> tst (clrf w f) f"
  by (simp add: tst_def clrf_def and.assoc)

lemma tst_zero [simp]: "\<not> tst w 0" "\<not> tst 0 f"
  by (simp_all add: tst_def)

section \<open>Generic lemmas on lists\<close>

lemma concat_map_take_drop [simp]:
  "concat (map f (take n xs)) @ concat (map f (drop n xs)) = concat (map f xs)"
  by (metis append_take_drop_id concat_append map_append)

lemma take_overwrite:
  "length xs = n \<Longrightarrow> n \<le> length ys \<Longrightarrow> take n (xs @ drop n ys) = xs"
  by simp

text \<open>\<open>bsplice i bs xs\<close> stores the bytes \<open>bs\<close> at index \<open>i\<close> of \<open>xs\<close>.\<close>

definition bsplice :: "nat \<Rightarrow> 'a list \<Rightarrow> 'a list \<Rightarrow> 'a list" where
  "bsplice i bs xs = take i xs @ bs @ drop (i + length bs) xs"

text \<open>\<open>bslice i n xs\<close> is the run of \<open>n\<close> elements at index \<open>i\<close>.\<close>

definition bslice :: "nat \<Rightarrow> nat \<Rightarrow> 'a list \<Rightarrow> 'a list" where
  "bslice i n xs = take n (drop i xs)"

lemma length_bsplice [simp]:
  "i + length bs \<le> length xs \<Longrightarrow> length (bsplice i bs xs) = length xs"
  by (simp add: bsplice_def)

lemma length_bslice [simp]: "i + n \<le> length xs \<Longrightarrow> length (bslice i n xs) = n"
  by (simp add: bslice_def)

lemma bslice_0 [simp]: "bslice i 0 xs = []"
  by (simp add: bslice_def)

lemma bsplice_Nil [simp]: "bsplice i [] xs = xs"
  by (simp add: bsplice_def)

lemma bslice_bsplice_append:
  assumes "j + m = i" and "i + length bs \<le> length xs"
  shows "bslice j (m + length bs) (bsplice i bs xs) = bslice j m xs @ bs"
  using assms by (auto simp: bslice_def bsplice_def drop_take min_def)

lemma bslice_bsplice_before:
  assumes "j + m \<le> i" and "i \<le> length xs"
  shows "bslice j m (bsplice i bs xs) = bslice j m xs"
  using assms by (auto simp: bslice_def bsplice_def drop_take min_def)

lemma bslice_bslice:
  "j + m \<le> n \<Longrightarrow> bslice j m (bslice i n xs) = bslice (i + j) m xs"
  by (simp add: bslice_def drop_take min_def add.commute)

lemma take_bslice: "take m (bslice i n xs) = bslice i (min m n) xs"
  by (simp add: bslice_def min_def)

lemma drop_bslice: "drop m (bslice i n xs) = bslice (i + m) (n - m) xs"
  by (simp add: bslice_def drop_take add.commute)

end
