(* ===== verification/Block.thy ===== *)
theory Block
  imports Prelude
begin

text \<open>
  Blocks (\<^verbatim>\<open>port/allocb.c\<close>, \<^verbatim>\<open>struct Block\<close> of \<^verbatim>\<open>port/portdat.h\<close>).

  A block is a window \<open>[rp, wp)\<close> of data inside a buffer \<open>[base, lim)\<close>. The four
  pointers are kept as absolute addresses, because the alignment of a buffer decides where
  its data starts; \<open>b_data\<close> is what the buffer's bytes \<open>[base, lim)\<close> hold. The
  \<^verbatim>\<open>next\<close> pointer is not a field: a chain of blocks is a \<open>Block list\<close>, nil the
  empty list. The fields \<^verbatim>\<open>list\<close> and \<^verbatim>\<open>Nlink\<close> are not used by the routines
  modelled here.

  The kernel state \<open>Kern\<close> holds what these routines keep besides the blocks: the interrupt
  allocation budget \<^verbatim>\<open>ialloc\<close>, the static counters of \<^verbatim>\<open>iallocb\<close>, the
  debug table \<^verbatim>\<open>iac\<close>, the statistics of \<^verbatim>\<open>qio.c\<close>, and a tape
  \<open>k_mallocs\<close> of what the successive calls of the storage allocator return: the address
  and the bytes found there, or None for a failed allocation. Quantifying over the tape
  covers every behaviour of the allocator, including the recycling of \<^verbatim>\<open>nalloc\<close>.
\<close>

section \<open>Constants\<close>

text \<open>The enum of allocb.c, \<^verbatim>\<open>BLOCKALIGN\<close> of k10/mem.h and the block flags.\<close>

definition Hdrspc :: int where "Hdrspc = 64"
definition BLOCKROUND :: int where "BLOCKROUND = 1024"
definition BLOCKMINROUND :: int where "BLOCKMINROUND = 128"
definition BLOCKALIGN :: int where "BLOCKALIGN = 8"
definition Bdead :: int where "Bdead = 0x51494F42"

text \<open>Nlink (2 pointers), 7 pointers and 2 ushorts, padded to a multiple of 8.\<close>

definition sizeof_Block :: int where "sizeof_Block = 80"

definition BINTR :: ushort where "BINTR = 1"
definition BSMALL :: ushort where "BSMALL = 2"

lemmas block_consts = Hdrspc_def BLOCKROUND_def BLOCKMINROUND_def BLOCKALIGN_def
  sizeof_Block_def BINTR_def BSMALL_def

section \<open>State\<close>

record Block =
  b_rp :: int
  b_wp :: int
  b_lim :: int
  b_base :: int
  b_data :: "byte list"
  b_free :: "nat option"
  b_flag :: ushort
  b_checksum :: ushort

record Kern =
  k_up :: bool
  k_bytes :: ulong
  k_limit :: ulong
  k_m1 :: int
  k_mp :: int
  k_debugialloc :: bool
  k_iac :: "(int \<times> int) list"
  k_mallocs :: "nat \<Rightarrow> (int \<times> byte list) option"
  k_mnext :: nat
  k_drvfreed :: "nat list"
  k_padblockcnt :: ulong
  k_concatblockcnt :: ulong
  k_pullupblockcnt :: ulong
  k_copyblockcnt :: ulong
  k_consumecnt :: ulong
  k_producecnt :: ulong
  k_qcopycnt :: ulong
  k_noblockcnt :: ulong

definition BLEN :: "Block \<Rightarrow> int" where
  "BLEN s = b_wp s - b_rp s"

definition BALLOC :: "Block \<Rightarrow> int" where
  "BALLOC s = b_lim s - b_base s"

section \<open>Memory accesses\<close>

text \<open>
  \<open>bread b a n\<close> reads \<open>n\<close> bytes at address \<open>a\<close> of the buffer of \<open>b\<close>; a
  negative count is a huge one for \<^verbatim>\<open>memmove\<close>, and an empty transfer touches nothing.
\<close>

definition bread :: "Block \<Rightarrow> int \<Rightarrow> int \<Rightarrow> byte list option" where
  "bread b a n =
     (if n = 0 then Some []
      else if 0 < n \<and> b_base b \<le> a \<and> a + n \<le> b_lim b
      then Some (bslice (nat (a - b_base b)) (nat n) (b_data b)) else None)"

definition bwrite :: "Block \<Rightarrow> int \<Rightarrow> byte list \<Rightarrow> Block option" where
  "bwrite b a bs =
     (if bs = [] then Some b
      else if b_base b \<le> a \<and> a + int (length bs) \<le> b_lim b
      then Some (b\<lparr>b_data := bsplice (nat (a - b_base b)) bs (b_data b)\<rparr>) else None)"

text \<open>\<^verbatim>\<open>memmove(dst, src, n)\<close> from one block to another, from memory, and \<^verbatim>\<open>memset\<close>.\<close>

definition memmove_in :: "Block \<Rightarrow> int \<Rightarrow> byte list \<Rightarrow> 'k \<Rightarrow> (Block, 'k) kres" where
  "memmove_in d a bs k = (case bwrite d a bs of None \<Rightarrow> Inl Fault | Some d' \<Rightarrow> Inr (d', k))"

definition memmove_out :: "Block \<Rightarrow> int \<Rightarrow> int \<Rightarrow> 'k \<Rightarrow> (byte list, 'k) kres" where
  "memmove_out s a n k = (case bread s a n of None \<Rightarrow> Inl Fault | Some bs \<Rightarrow> Inr (bs, k))"

definition memmove_bb :: "Block \<Rightarrow> int \<Rightarrow> Block \<Rightarrow> int \<Rightarrow> int \<Rightarrow> 'k \<Rightarrow> (Block, 'k) kres" where
  "memmove_bb d a s c n k = kbind (memmove_out s c n k) (\<lambda>bs k. memmove_in d a bs k)"

definition memset0 :: "Block \<Rightarrow> int \<Rightarrow> int \<Rightarrow> 'k \<Rightarrow> (Block, 'k) kres" where
  "memset0 d a n k = (if n < 0 then Inl Fault else memmove_in d a (replicate (nat n) 0) k)"

section \<open>allocb.c\<close>

text \<open>The debug table: the first entry that is free or already holds the size counts it.\<close>

fun track :: "int \<Rightarrow> (int \<times> int) list \<Rightarrow> (int \<times> int) list" where
  "track sz [] = []"
| "track sz ((s, n) # iac) =
     (if s = 0 \<or> s = sz then (sz, n + 1) # iac else (s, n) # track sz iac)"

text \<open>One call of malloc (or of nalloc, whose recycled element was once malloced).\<close>

definition kmalloc :: "Kern \<Rightarrow> (int \<times> byte list) option \<times> Kern" where
  "kmalloc k = (k_mallocs k (k_mnext k), k\<lparr>k_mnext := Suc (k_mnext k)\<rparr>)"

text \<open>
  The block header sits at the end of the \<open>n\<close> bytes malloced at \<open>p\<close>; the buffer runs
  from \<open>p\<close> to the header, aligned down. Both \<^verbatim>\<open>baalloc\<close> and \<^verbatim>\<open>_allocb\<close>
  lay a block out this way.
\<close>

definition block_at :: "int \<Rightarrow> byte list \<Rightarrow> int \<Rightarrow> Block" where
  "block_at p junk n =
     (let lim = (p + n - sizeof_Block) AND NOT (BLOCKALIGN - 1);
          m = nat (lim - p)
      in \<lparr>b_rp = 0, b_wp = 0, b_lim = lim, b_base = p,
          b_data = take m (junk @ replicate m 0), b_free = None, b_flag = 0, b_checksum = 0\<rparr>)"

definition balloc_elsz :: int where
  "balloc_elsz = BLOCKALIGN + ROUNDUP (BLOCKMINROUND + Hdrspc) BLOCKALIGN + sizeof_Block"

definition baalloc :: "Kern \<Rightarrow> (Block, Kern) kres" where
  "baalloc k = (case kmalloc k of
       (None, k) \<Rightarrow> Inl (Panic ''balloc: no memory'')
     | (Some (p, junk), k) \<Rightarrow> Inr (block_at p junk balloc_elsz, k))"

definition allocb_round :: "int \<Rightarrow> int" where
  "allocb_round sz =
     (if sz > BLOCKROUND then ROUNDUP sz BLOCKROUND else ROUNDUP sz BLOCKMINROUND)"

definition allocb0 :: "int \<Rightarrow> Kern \<Rightarrow> (Block, Kern) kres" where
  "allocb0 sz k =
     (let sz = allocb_round sz;
          k = (if k_debugialloc k then k\<lparr>k_iac := track sz (k_iac k)\<rparr> else k);
          n = BLOCKALIGN + ROUNDUP (sz + Hdrspc) BLOCKALIGN + sizeof_Block
      in kbind (if sz = BLOCKMINROUND then baalloc k
                else case kmalloc k of
                       (None, k) \<Rightarrow> Inl (Panic ''allocb: no memory'')
                     | (Some (p, junk), k) \<Rightarrow> Inr (block_at p junk n, k))
         (\<lambda>b k.
           let rp = b_lim b - ROUNDUP sz BLOCKALIGN;
               b = b\<lparr>b_flag := (if sz = BLOCKMINROUND then BSMALL else 0),
                     b_free := None, b_checksum := 0, b_rp := rp, b_wp := rp\<rparr>
           in if b_rp b < b_base b \<or> b_lim b - b_rp b < sz
              then Inl (Panic ''_allocb'') else Inr (b, k)))"

definition allocb :: "int \<Rightarrow> Kern \<Rightarrow> (Block, Kern) kres" where
  "allocb sz k =
     (if \<not> k_up k then Inl (Panic ''allocb without up'') else allocb0 sz k)"

definition ialloclimit :: "ulong \<Rightarrow> Kern \<Rightarrow> Kern" where
  "ialloclimit limit k = k\<lparr>k_limit := limit\<rparr>"

text \<open>
  Over the limit, every ten thousandth refusal prints a message and the thousandth message
  is followed by \<^verbatim>\<open>exit(0)\<close>. The second refusal branch of the source tests
  \<^verbatim>\<open>_allocb\<close> for nil, which it never returns: it panics when memory runs out.
\<close>

definition iallocb :: "int \<Rightarrow> Kern \<Rightarrow> (Block option, Kern) kres" where
  "iallocb sz k =
     (if k_bytes k > k_limit k then
        (if k_m1 k mod 10000 = 0 then
           (if k_mp k > 1000 then Inl Exit
            else Inr (None, k\<lparr>k_m1 := k_m1 k + 1, k_mp := k_mp k + 1\<rparr>))
         else Inr (None, k\<lparr>k_m1 := k_m1 k + 1\<rparr>))
      else kbind (allocb0 sz k)
        (\<lambda>b k. let b = b\<lparr>b_flag := b_flag b OR BINTR\<rparr>
               in Inr (Some b, k\<lparr>k_bytes := k_bytes k + of_int (BALLOC b)\<rparr>)))"

text \<open>
  Freeing gives the memory back and, for a block of \<^verbatim>\<open>iallocb\<close>, its bytes to the
  budget; a driver's block goes to the driver's own routine.
\<close>

definition freeb :: "Block \<Rightarrow> Kern \<Rightarrow> Kern" where
  "freeb b k = (case b_free b of
       Some f \<Rightarrow> k\<lparr>k_drvfreed := f # k_drvfreed k\<rparr>
     | None \<Rightarrow> if tst (b_flag b) BINTR then k\<lparr>k_bytes := k_bytes k - of_int (BALLOC b)\<rparr> else k)"

definition checkb :: "Block \<Rightarrow> fault option" where
  "checkb b =
     (if b_base b = Bdead \<or> b_lim b = Bdead \<or> b_rp b = Bdead \<or> b_wp b = Bdead
        then Some (Panic ''checkb dead'')
      else if b_base b > b_lim b then Some (Panic ''checkb 0'')
      else if b_rp b < b_base b then Some (Panic ''checkb 1'')
      else if b_wp b < b_base b then Some (Panic ''checkb 2'')
      else if b_rp b > b_lim b then Some (Panic ''checkb 3'')
      else if b_wp b > b_lim b then Some (Panic ''checkb 4'')
      else None)"

section \<open>Well-formed blocks\<close>

text \<open>The invariant of every block in use, and the bytes it carries.\<close>

definition wfb :: "Block \<Rightarrow> bool" where
  "wfb b \<longleftrightarrow> b_base b \<le> b_rp b \<and> b_rp b \<le> b_wp b \<and> b_wp b \<le> b_lim b \<and>
     int (length (b_data b)) = b_lim b - b_base b"

definition bcont :: "Block \<Rightarrow> byte list" where
  "bcont b = bslice (nat (b_rp b - b_base b)) (nat (BLEN b)) (b_data b)"

definition mem_avail :: "Kern \<Rightarrow> bool" where
  "mem_avail k \<longleftrightarrow> k_up k \<and> (\<forall>i. k_mallocs k i \<noteq> None)"

lemma length_bcont [simp]: "wfb b \<Longrightarrow> length (bcont b) = nat (BLEN b)"
  by (simp add: wfb_def bcont_def BLEN_def) (subst length_bslice; linarith)

lemma wfb_nonneg: "wfb b \<Longrightarrow> 0 \<le> BLEN b" "wfb b \<Longrightarrow> 0 \<le> BALLOC b"
  by (auto simp: wfb_def BLEN_def BALLOC_def)

lemma int_length_bcont: "wfb b \<Longrightarrow> int (length (bcont b)) = BLEN b"
  by (simp add: wfb_nonneg)

lemma checkb_wfb: "wfb b \<Longrightarrow> Bdead \<notin> {b_base b, b_lim b, b_rp b, b_wp b} \<Longrightarrow> checkb b = None"
  by (auto simp: wfb_def checkb_def)

lemma and_minus_8: "(x::int) AND - 8 = x div 8 * 8"
proof -
  have "x AND NOT (mask 3) = push_bit 3 (drop_bit 3 x)"
    by (rule bit_eqI) (auto simp: bit_simps)
  then show ?thesis
    by (simp add: push_bit_eq_mult drop_bit_eq_div mask_eq_exp_minus_1)
qed

text \<open>
  Laying a block out for \<open>sz\<close> bytes always succeeds: the data starts inside the buffer,
  at least \<open>Hdrspc\<close> bytes above its base, with room for \<open>sz\<close> bytes.
\<close>

definition fresh :: "int \<Rightarrow> Block \<Rightarrow> bool" where
  "fresh sz b \<longleftrightarrow> wfb b \<and> b_wp b = b_rp b \<and> sz \<le> b_lim b - b_rp b \<and> Hdrspc \<le> b_rp b - b_base b \<and>
     b_free b = None"

lemma fresh_layout:
  assumes "0 \<le> sz" and b: "b = block_at p junk (BLOCKALIGN + ROUNDUP (sz + Hdrspc) BLOCKALIGN + sizeof_Block)"
    and rp: "rp = b_lim b - ROUNDUP sz BLOCKALIGN"
  shows "fresh sz (b\<lparr>b_flag := f, b_free := None, b_checksum := 0, b_rp := rp, b_wp := rp\<rparr>)"
proof -
  define r where "r = ROUNDUP (sz + 64) 8"
  define s where "s = ROUNDUP sz 8"
  define l where "l = (p + 8 + r) div 8 * 8"
  have s: "sz \<le> s" "s < sz + 8" "8 dvd s" and r: "sz + 64 \<le> r" "8 dvd r"
    using assms(1) ROUNDUP_bounds [of sz 8] ROUNDUP_bounds [of "sz + 64" 8] by (simp_all add: r_def s_def)
  then have rs: "s + 64 \<le> r" by presburger
  have "p + 8 + r = l + (p + 8 + r) mod 8" "0 \<le> (p + 8 + r) mod 8" "(p + 8 + r) mod 8 < 8"
    unfolding l_def by (simp_all del: div_mult2_eq add: minus_mod_eq_div_mult [symmetric])
  then have l: "p + r < l" by linarith
  have lim: "b_lim b = l" and base: "b_base b = p"
    by (simp_all add: b block_at_def Let_def block_consts and_minus_8 l_def r_def)
  moreover have "length (b_data b) = nat (b_lim b - b_base b)"
    by (simp add: b block_at_def Let_def min_def)
  ultimately show ?thesis
    using l rs s r assms(1) by (simp add: fresh_def wfb_def rp block_consts s_def [symmetric])
qed

lemma kmalloc_avail:
  "mem_avail k \<Longrightarrow> \<exists>p junk. kmalloc k = (Some (p, junk), k\<lparr>k_mnext := Suc (k_mnext k)\<rparr>)"
  by (cases "k_mallocs k (k_mnext k)") (auto simp: mem_avail_def kmalloc_def dest: spec [of _ "k_mnext k"])

lemma allocb_round_ge:
  assumes "0 \<le> sz" shows "sz \<le> allocb_round sz"
  using assms ROUNDUP_bounds [of sz 128] ROUNDUP_bounds [of sz 1024]
  by (simp add: allocb_round_def block_consts)

text \<open>
  The state an allocation leaves: only the tape position and the debug table change, so
  facts about the other fields carry over.
\<close>

definition same_budget :: "Kern \<Rightarrow> Kern \<Rightarrow> bool" where
  "same_budget k k' \<longleftrightarrow> k_up k' = k_up k \<and> k_mallocs k' = k_mallocs k \<and> k_bytes k' = k_bytes k \<and>
     k_limit k' = k_limit k \<and> k_drvfreed k' = k_drvfreed k"

lemma allocb0_ok:
  assumes sz: "0 \<le> sz" and mem: "mem_avail k"
  shows "kok (allocb0 sz k) (\<lambda>b k'. fresh sz b \<and> same_budget k k' \<and> \<not> tst (b_flag b) BINTR)"
proof -
  define s where "s = allocb_round sz"
  have s: "sz \<le> s" "0 \<le> s"
    using allocb_round_ge [OF sz] sz by (simp_all add: s_def)
  define k1 where "k1 = (if k_debugialloc k then k\<lparr>k_iac := track s (k_iac k)\<rparr> else k)"
  have "mem_avail k1" using mem by (simp add: k1_def mem_avail_def)
  then obtain p junk where km: "kmalloc k1 = (Some (p, junk), k1\<lparr>k_mnext := Suc (k_mnext k1)\<rparr>)"
    using kmalloc_avail by blast
  define b where "b = block_at p junk (BLOCKALIGN + ROUNDUP (s + Hdrspc) BLOCKALIGN + sizeof_Block)"
  have elsz: "balloc_elsz = BLOCKALIGN + ROUNDUP (BLOCKMINROUND + Hdrspc) BLOCKALIGN + sizeof_Block"
    by (simp add: balloc_elsz_def)
  have alloc: "(if s = BLOCKMINROUND then baalloc k1
       else case kmalloc k1 of (None, k) \<Rightarrow> Inl (Panic ''allocb: no memory'')
         | (Some (p, junk), k) \<Rightarrow>
             Inr (block_at p junk (BLOCKALIGN + ROUNDUP (s + Hdrspc) BLOCKALIGN + sizeof_Block), k))
     = Inr (b, k1\<lparr>k_mnext := Suc (k_mnext k1)\<rparr>)"
    by (auto simp: baalloc_def km b_def elsz)
  let ?rp = "b_lim b - ROUNDUP s BLOCKALIGN"
  let ?f = "if s = BLOCKMINROUND then BSMALL else 0"
  let ?b = "b\<lparr>b_flag := ?f, b_free := None, b_checksum := 0, b_rp := ?rp, b_wp := ?rp\<rparr>"
  have fr: "fresh s ?b"
    using s(2) b_def by (rule fresh_layout) simp
  then have "fresh sz ?b" and "\<not> (b_rp ?b < b_base ?b \<or> b_lim ?b - b_rp ?b < s)"
    using s by (auto simp: fresh_def block_consts)
  moreover have "allocb0 sz k = kbind (Inr (b, k1\<lparr>k_mnext := Suc (k_mnext k1)\<rparr>))
       (\<lambda>b k. let rp = b_lim b - ROUNDUP s BLOCKALIGN;
               b = b\<lparr>b_flag := ?f, b_free := None, b_checksum := 0, b_rp := rp, b_wp := rp\<rparr>
           in if b_rp b < b_base b \<or> b_lim b - b_rp b < s
              then Inl (Panic ''_allocb'') else Inr (b, k))"
    unfolding allocb0_def Let_def s_def [symmetric] k1_def [symmetric] alloc [symmetric] by simp
  moreover have "\<not> tst ?f BINTR"
    by (simp add: tst_def block_consts)
  ultimately show ?thesis
    by (simp add: Let_def same_budget_def k1_def)
qed

lemma allocb_ok:
  assumes "0 \<le> sz" and "mem_avail k"
  shows "kok (allocb sz k) (\<lambda>b k'. fresh sz b \<and> same_budget k k' \<and> \<not> tst (b_flag b) BINTR)"
  using allocb0_ok [OF assms] assms(2) by (simp add: allocb_def mem_avail_def)

section \<open>Moving the window and copying\<close>

lemma block_update_simps [simp]:
  "BALLOC (b\<lparr>b_rp := x\<rparr>) = BALLOC b" "BALLOC (b\<lparr>b_wp := x\<rparr>) = BALLOC b"
  "BALLOC (b\<lparr>b_data := d\<rparr>) = BALLOC b" "BALLOC (b\<lparr>b_flag := f\<rparr>) = BALLOC b"
  "BLEN (b\<lparr>b_data := d\<rparr>) = BLEN b" "BLEN (b\<lparr>b_flag := f\<rparr>) = BLEN b"
  by (simp_all add: BALLOC_def BLEN_def)

lemma BLEN_adv [simp]: "BLEN (b\<lparr>b_rp := b_rp b + n\<rparr>) = BLEN b - n"
  by (simp add: BLEN_def)

lemma BLEN_trunc [simp]: "BLEN (b\<lparr>b_wp := b_rp b + n\<rparr>) = n"
  by (simp add: BLEN_def)

lemma wfb_adv: "wfb b \<Longrightarrow> 0 \<le> n \<Longrightarrow> n \<le> BLEN b \<Longrightarrow> wfb (b\<lparr>b_rp := b_rp b + n\<rparr>)"
  by (auto simp: wfb_def BLEN_def)

lemma bcont_adv:
  "wfb b \<Longrightarrow> 0 \<le> n \<Longrightarrow> n \<le> BLEN b \<Longrightarrow> bcont (b\<lparr>b_rp := b_rp b + n\<rparr>) = drop (nat n) (bcont b)"
  by (simp add: bcont_def drop_bslice BLEN_def nat_diff_distrib [symmetric] nat_add_distrib [symmetric]
      wfb_def algebra_simps)

lemma wfb_trunc: "wfb b \<Longrightarrow> 0 \<le> n \<Longrightarrow> n \<le> BLEN b \<Longrightarrow> wfb (b\<lparr>b_wp := b_rp b + n\<rparr>)"
  by (auto simp: wfb_def BLEN_def)

lemma bcont_trunc:
  "wfb b \<Longrightarrow> 0 \<le> n \<Longrightarrow> n \<le> BLEN b \<Longrightarrow> bcont (b\<lparr>b_wp := b_rp b + n\<rparr>) = take (nat n) (bcont b)"
  by (simp add: bcont_def take_bslice min_def nat_le_eq_zle)

lemma memmove_out_head [simp]:
  assumes "wfb b" "0 \<le> n" "n \<le> BLEN b"
  shows "memmove_out b (b_rp b) n k = Inr (take (nat n) (bcont b), k)"
  using assms by (auto simp: memmove_out_def bread_def bcont_def take_bslice wfb_def BLEN_def min_def nat_le_eq_zle)

lemma memmove_out_tail:
  assumes "wfb b" "0 \<le> n" "n \<le> BLEN b"
  shows "memmove_out b (b_rp b + n) (BLEN b - n) k = Inr (drop (nat n) (bcont b), k)"
  using assms memmove_out_head [OF wfb_adv [OF assms], of "BLEN b - n" k]
  by (auto simp: bcont_adv memmove_out_def bread_def split: if_splits)

text \<open>\<open>bappend d bs\<close> is \<open>d\<close> after \<^verbatim>\<open>memmove(d->wp, bs, n); d->wp += n\<close>.\<close>

definition bappend :: "Block \<Rightarrow> byte list \<Rightarrow> Block" where
  "bappend d bs = d\<lparr>b_data := bsplice (nat (b_wp d - b_base d)) bs (b_data d),
     b_wp := b_wp d + int (length bs)\<rparr>"

lemma memmove_in_end:
  assumes "wfb d" "b_wp d + int (length bs) \<le> b_lim d"
  shows "memmove_in d (b_wp d) bs k = Inr ((bappend d bs)\<lparr>b_wp := b_wp d\<rparr>, k)"
  using assms by (auto simp: memmove_in_def bwrite_def bappend_def wfb_def)

lemma bappend_simps [simp]:
  "b_rp (bappend d bs) = b_rp d" "b_lim (bappend d bs) = b_lim d" "b_base (bappend d bs) = b_base d"
  "b_wp (bappend d bs) = b_wp d + int (length bs)" "b_flag (bappend d bs) = b_flag d"
  "b_free (bappend d bs) = b_free d" "BALLOC (bappend d bs) = BALLOC d"
  "BLEN (bappend d bs) = BLEN d + int (length bs)" "bappend d [] = d"
  "(bappend d bs)\<lparr>b_wp := b_wp d + int (length bs)\<rparr> = bappend d bs"
  by (simp_all add: bappend_def BALLOC_def BLEN_def)

lemma wfb_bappend:
  "wfb d \<Longrightarrow> b_wp d + int (length bs) \<le> b_lim d \<Longrightarrow> wfb (bappend d bs)"
  by (auto simp: wfb_def bappend_def)

lemma bcont_bappend:
  assumes "wfb d" "b_wp d + int (length bs) \<le> b_lim d"
  shows "bcont (bappend d bs) = bcont d @ bs"
proof -
  have "nat (BLEN d + int (length bs)) = nat (BLEN d) + length bs"
    using wfb_nonneg(1) [OF assms(1)] by linarith
  moreover have "nat (b_rp d - b_base d) + nat (BLEN d) = nat (b_wp d - b_base d)"
    using assms by (auto simp: wfb_def BLEN_def)
  moreover have "nat (b_wp d - b_base d) + length bs \<le> length (b_data d)"
    using assms by (auto simp: wfb_def)
  ultimately show ?thesis
    using bslice_bsplice_append [of "nat (b_rp d - b_base d)" "nat (BLEN d)" "nat (b_wp d - b_base d)" bs "b_data d"]
    by (simp add: bcont_def bappend_def BLEN_def algebra_simps)
qed

lemma fresh_bcont [simp]: "fresh n b \<Longrightarrow> bcont b = []" "fresh n b \<Longrightarrow> BLEN b = 0"
  by (simp_all add: fresh_def bcont_def BLEN_def)

lemma fresh_room: "fresh n b \<Longrightarrow> b_wp b + n \<le> b_lim b" "fresh n b \<Longrightarrow> wfb b"
  by (simp_all add: fresh_def)

section \<open>Accounting for freed blocks\<close>

text \<open>
  \<open>acct k bs\<close> relates the budget and the driver's returned blocks to the live blocks
  \<open>bs\<close>. Allocating and freeing keep it, so a routine that keeps it has freed exactly the
  blocks it took and did not hand back: no leak and no double free.
\<close>

definition intr :: "Block \<Rightarrow> ulong" where
  "intr b = (if b_free b = None \<and> tst (b_flag b) BINTR then of_int (BALLOC b) else 0)"

definition drv :: "Block \<Rightarrow> nat multiset" where
  "drv b = (case b_free b of None \<Rightarrow> {#} | Some f \<Rightarrow> {#f#})"

definition acct :: "Kern \<Rightarrow> Block list \<Rightarrow> ulong \<times> nat multiset" where
  "acct k bs = (k_bytes k - sum_list (map intr bs), mset (k_drvfreed k) + sum_list (map drv bs))"

lemma owner_update_simps [simp]:
  "intr (b\<lparr>b_rp := x\<rparr>) = intr b" "intr (b\<lparr>b_wp := x\<rparr>) = intr b" "intr (b\<lparr>b_data := d\<rparr>) = intr b"
  "intr (bappend b bs) = intr b"
  "drv (b\<lparr>b_rp := x\<rparr>) = drv b" "drv (b\<lparr>b_wp := x\<rparr>) = drv b" "drv (b\<lparr>b_data := d\<rparr>) = drv b"
  "drv (bappend b bs) = drv b"
  by (simp_all add: intr_def drv_def)

lemma acct_freeb [simp]: "acct (freeb b k) bs = acct k (b # bs)"
  by (simp add: acct_def freeb_def intr_def drv_def split: option.split)

lemma freeb_simps [simp]:
  "k_up (freeb b k) = k_up k" "k_mallocs (freeb b k) = k_mallocs k" "k_limit (freeb b k) = k_limit k"
  "mem_avail (freeb b k) = mem_avail k"
  by (simp_all add: freeb_def mem_avail_def split: option.split)

lemma acct_perm: "mset bs = mset cs \<Longrightarrow> acct k bs = acct k cs"
  by (simp add: acct_def sum_mset_sum_list [symmetric] mset_map [symmetric] del: mset_map)
     (simp add: sum_mset_sum_list [symmetric])

lemma acct_snoc: "acct k (bs @ [b]) = acct k (b # bs)" "acct k (c # bs @ [b]) = acct k (b # c # bs)"
  by (rule acct_perm; simp)+

lemma acct_Cons: "acct k (b # bs) = (fst (acct k bs) - intr b, snd (acct k bs) + drv b)"
  by (simp add: acct_def algebra_simps)

lemma acct_append:
  "acct k (bs @ cs) = (fst (acct k cs) - sum_list (map intr bs), snd (acct k cs) + sum_list (map drv bs))"
  by (simp add: acct_def algebra_simps)

lemmas acct_simps = acct_Cons acct_append

lemma acct_unowned: "intr b = 0 \<Longrightarrow> drv b = {#} \<Longrightarrow> acct k (b # bs) = acct k bs"
  by (simp add: acct_def)

lemma acct_mod_simps [simp]:
  "acct (k\<lparr>k_padblockcnt := x\<rparr>) bs = acct k bs" "acct (k\<lparr>k_concatblockcnt := x\<rparr>) bs = acct k bs"
  "acct (k\<lparr>k_pullupblockcnt := x\<rparr>) bs = acct k bs" "acct (k\<lparr>k_copyblockcnt := x\<rparr>) bs = acct k bs"
  "acct (k\<lparr>k_consumecnt := x\<rparr>) bs = acct k bs" "acct (k\<lparr>k_producecnt := x\<rparr>) bs = acct k bs"
  "acct (k\<lparr>k_qcopycnt := x\<rparr>) bs = acct k bs" "acct (k\<lparr>k_noblockcnt := x\<rparr>) bs = acct k bs"
  by (simp_all add: acct_def)

lemma mem_avail_mod_simps [simp]:
  "mem_avail (k\<lparr>k_padblockcnt := x\<rparr>) = mem_avail k" "mem_avail (k\<lparr>k_concatblockcnt := x\<rparr>) = mem_avail k"
  "mem_avail (k\<lparr>k_pullupblockcnt := x\<rparr>) = mem_avail k" "mem_avail (k\<lparr>k_copyblockcnt := x\<rparr>) = mem_avail k"
  "mem_avail (k\<lparr>k_consumecnt := x\<rparr>) = mem_avail k" "mem_avail (k\<lparr>k_producecnt := x\<rparr>) = mem_avail k"
  "mem_avail (k\<lparr>k_qcopycnt := x\<rparr>) = mem_avail k" "mem_avail (k\<lparr>k_noblockcnt := x\<rparr>) = mem_avail k"
  by (simp_all add: mem_avail_def)

text \<open>What a client may rely on after \<open>allocb\<close>: the form in which later proofs use it.\<close>

definition newb :: "int \<Rightarrow> Kern \<Rightarrow> Block \<Rightarrow> Kern \<Rightarrow> bool" where
  "newb n k b k' \<longleftrightarrow> fresh n b \<and> mem_avail k' \<and> intr b = 0 \<and> drv b = {#} \<and> (\<forall>bs. acct k' bs = acct k bs)"

lemma allocb_newb:
  assumes "0 \<le> n" "mem_avail k"
  shows "kok (allocb n k) (newb n k)"
  using allocb_ok [OF assms] assms(2)
  by (elim kok_mono) (auto simp: newb_def same_budget_def mem_avail_def acct_def intr_def drv_def fresh_def)

lemma newbD:
  assumes "newb n k b k'"
  shows "wfb b" "bcont b = []" "BLEN b = 0" "b_wp b = b_rp b" "b_wp b + n \<le> b_lim b" "mem_avail k'"
    "intr b = 0" "drv b = {#}" "acct k' bs = acct k bs" "b_base b + Hdrspc \<le> b_rp b"
  using assms by (auto simp: newb_def fresh_def bcont_def BLEN_def)

end
