(* ===== verification/Blocklist.thy ===== *)
theory Blocklist
  imports Block
begin

text \<open>
  Chains of blocks: the first half of \<^verbatim>\<open>port/qio.c\<close>, from \<^verbatim>\<open>freeblist\<close> to
  \<^verbatim>\<open>pullblock\<close>, with \<^verbatim>\<open>packblock\<close>, \<^verbatim>\<open>bl2mem\<close> and
  \<^verbatim>\<open>mem2bl\<close>. A chain is a list of blocks, nil the empty list; following a nil pointer is
  \<open>Inl Fault\<close>. The lemmas give, for chains of well-formed blocks, the bytes each routine
  leaves in terms of the bytes it was given, that no access leaves a buffer, and that every
  block that is not handed back has been freed.
\<close>

section \<open>The routines\<close>

fun freeblist :: "Block list \<Rightarrow> Kern \<Rightarrow> Kern" where
  "freeblist [] k = k"
| "freeblist (b # bs) k = freeblist bs (freeb b k)"

text \<open>Pad a block to the front, or the back if the size is negative.\<close>

fun padblock :: "Block list \<Rightarrow> int \<Rightarrow> Kern \<Rightarrow> (Block list, Kern) kres" where
  "padblock [] sz k = Inl Fault"
| "padblock (bp # nxt) sz k =
     (if sz \<ge> 0 then
        if b_rp bp - b_base bp \<ge> sz then Inr (bp\<lparr>b_rp := b_rp bp - sz\<rparr> # nxt, k)
        else if nxt \<noteq> [] then Inl (Panic ''padblock'')
        else let n = BLEN bp in
          kbind (allocb (sz + n) (k\<lparr>k_padblockcnt := k_padblockcnt k + 1\<rparr>)) (\<lambda>nbp k.
          let nbp = nbp\<lparr>b_rp := b_rp nbp + sz, b_wp := b_rp nbp + sz\<rparr> in
          kbind (memmove_bb nbp (b_wp nbp) bp (b_rp bp) n k) (\<lambda>nbp k.
          let nbp = nbp\<lparr>b_wp := b_wp nbp + n\<rparr> in
          Inr ([nbp\<lparr>b_rp := b_rp nbp - sz\<rparr>], freeb bp k)))
      else let sz = - sz in
        if nxt \<noteq> [] then Inl (Panic ''padblock'')
        else if b_lim bp - b_wp bp \<ge> sz then Inr ([bp], k)
        else let n = BLEN bp in
          kbind (allocb (sz + n) (k\<lparr>k_padblockcnt := k_padblockcnt k + 1\<rparr>)) (\<lambda>nbp k.
          kbind (memmove_bb nbp (b_wp nbp) bp (b_rp bp) n k) (\<lambda>nbp k.
          Inr ([nbp\<lparr>b_wp := b_wp nbp + n\<rparr>], freeb bp k))))"

fun blocklen :: "Block list \<Rightarrow> int" where
  "blocklen [] = 0"
| "blocklen (b # bs) = BLEN b + blocklen bs"

fun blockalloclen :: "Block list \<Rightarrow> int" where
  "blockalloclen [] = 0"
| "blockalloclen (b # bs) = BALLOC b + blockalloclen bs"

text \<open>Copy a chain into a single block and free the chain.\<close>

fun concat_loop :: "Block \<Rightarrow> Block list \<Rightarrow> Kern \<Rightarrow> (Block, Kern) kres" where
  "concat_loop nb [] k = Inr (nb, k)"
| "concat_loop nb (f # fs) k =
     kbind (memmove_bb nb (b_wp nb) f (b_rp f) (BLEN f) k) (\<lambda>nb k.
     concat_loop (nb\<lparr>b_wp := b_wp nb + BLEN f\<rparr>) fs k)"

definition concatblock :: "Block list \<Rightarrow> Kern \<Rightarrow> (Block list, Kern) kres" where
  "concatblock bp k = (case bp of
       [] \<Rightarrow> Inl Fault
     | [b] \<Rightarrow> Inr ([b], k)
     | _ \<Rightarrow> kbind (allocb (blocklen bp) k) (\<lambda>nb k.
            kbind (concat_loop nb bp k) (\<lambda>nb k.
            Inr ([nb], freeblist bp
              (k\<lparr>k_concatblockcnt := k_concatblockcnt k + of_int (BLEN nb)\<rparr>)))))"

text \<open>Make sure the first block has at least \<open>n\<close> bytes.\<close>

fun pullup_loop :: "Block \<Rightarrow> Block list \<Rightarrow> int \<Rightarrow> Kern \<Rightarrow> (Block list, Kern) kres" where
  "pullup_loop bp [] n k = Inr ([], freeb bp k)"
| "pullup_loop bp (nbp # nxt) n k =
     (let i = BLEN nbp in
      if i > n then
        kbind (memmove_bb bp (b_wp bp) nbp (b_rp nbp) n k) (\<lambda>bp k.
        Inr (bp\<lparr>b_wp := b_wp bp + n\<rparr> # nbp\<lparr>b_rp := b_rp nbp + n\<rparr> # nxt,
             k\<lparr>k_pullupblockcnt := k_pullupblockcnt k + 1\<rparr>))
      else let i = (if i < 0 then 0 else i) in
        kbind (memmove_bb bp (b_wp bp) nbp (b_rp nbp) i k) (\<lambda>bp k.
        let bp = bp\<lparr>b_wp := b_wp bp + i\<rparr>;
            k = freeb nbp (k\<lparr>k_pullupblockcnt := k_pullupblockcnt k + 1\<rparr>)
        in if n - i = 0 then Inr (bp # nxt, k) else pullup_loop bp nxt (n - i) k))"

fun pullupblock :: "Block list \<Rightarrow> int \<Rightarrow> Kern \<Rightarrow> (Block list, Kern) kres" where
  "pullupblock [] n k = Inl Fault"
| "pullupblock (bp # nxt) n k =
     (if BLEN bp \<ge> n then Inr (bp # nxt, k)
      else if b_lim bp - b_rp bp < n then
        kbind (allocb n k) (\<lambda>nbp k. pullup_loop nbp (bp # nxt) (n - BLEN nbp) k)
      else pullup_loop bp nxt (n - BLEN bp) k)"

text \<open>Trim to \<open>len\<close> bytes starting at \<open>offset\<close>.\<close>

fun trim_front :: "Block list \<Rightarrow> int \<Rightarrow> Kern \<Rightarrow> (Block list \<times> int, Kern) kres" where
  "trim_front [] offset k = Inl Fault"
| "trim_front (bp # nb) offset k =
     (if BLEN bp < offset then trim_front nb (offset - BLEN bp) (freeb bp k)
      else Inr ((bp # nb, offset), k))"

fun trim_back :: "Block list \<Rightarrow> int \<Rightarrow> Kern \<Rightarrow> (Block list, Kern) kres" where
  "trim_back [] len k = Inl Fault"
| "trim_back (bp # nxt) len k =
     (if BLEN bp < len then
        kbind (trim_back nxt (len - BLEN bp) k) (\<lambda>rest k. Inr (bp # rest, k))
      else Inr ([bp\<lparr>b_wp := b_wp bp - (BLEN bp - len)\<rparr>], freeblist nxt k))"

definition trimblock :: "Block list \<Rightarrow> int \<Rightarrow> int \<Rightarrow> Kern \<Rightarrow> (Block list, Kern) kres" where
  "trimblock bp offset len k =
     (if blocklen bp < offset + len then Inr ([], freeblist bp k)
      else kbind (trim_front bp offset k) (\<lambda>(bp, offset) k. case bp of
             [] \<Rightarrow> Inl Fault
           | b # nxt \<Rightarrow> trim_back (b\<lparr>b_rp := b_rp b + offset\<rparr> # nxt) len k))"

text \<open>Copy \<open>cnt\<close> bytes into a new block; the source chain stays.\<close>

fun copy_loop :: "Block \<Rightarrow> Block list \<Rightarrow> int \<Rightarrow> Kern \<Rightarrow> (Block \<times> int, Kern) kres" where
  "copy_loop nbp [] cnt k = Inr ((nbp, cnt), k)"
| "copy_loop nbp (bp # nxt) cnt k =
     (if cnt > 0 then
        let l = (if BLEN bp > cnt then cnt else BLEN bp) in
        kbind (memmove_bb nbp (b_wp nbp) bp (b_rp bp) l k) (\<lambda>nbp k.
        copy_loop (nbp\<lparr>b_wp := b_wp nbp + l\<rparr>) nxt (cnt - l) k)
      else Inr ((nbp, cnt), k))"

definition copy_alloc :: "Block \<Rightarrow> int \<Rightarrow> Kern \<Rightarrow> (Block option, Kern) kres" where
  "copy_alloc bp cnt k =
     (if tst (b_flag bp) BINTR then iallocb cnt k
      else kbind (allocb cnt k) (\<lambda>nbp k. Inr (Some nbp, k)))"

definition copy_rest :: "Block \<Rightarrow> Block list \<Rightarrow> int \<Rightarrow> Kern \<Rightarrow> (Block option, Kern) kres" where
  "copy_rest nbp bp cnt k =
     kbind (copy_loop nbp bp cnt k) (\<lambda>(nbp, cnt) k.
     if cnt > 0 then
       kbind (memset0 nbp (b_wp nbp) cnt k) (\<lambda>nbp k.
       Inr (Some (nbp\<lparr>b_wp := b_wp nbp + cnt\<rparr>), k\<lparr>k_copyblockcnt := k_copyblockcnt k + 1\<rparr>))
     else Inr (Some nbp, k\<lparr>k_copyblockcnt := k_copyblockcnt k + 1\<rparr>))"

definition copyblock :: "Block list \<Rightarrow> int \<Rightarrow> Kern \<Rightarrow> (Block option, Kern) kres" where
  "copyblock bp cnt k = (case bp of
       [] \<Rightarrow> Inl Fault
     | b # _ \<Rightarrow> kbind (copy_alloc b cnt k) (\<lambda>nbp k. case nbp of
           None \<Rightarrow> Inr (None, k)
         | Some nbp \<Rightarrow> copy_rest nbp bp cnt k))"

text \<open>
  Set the length of the first block. When it does not fit, the whole chain is copied into
  one block and freed; a negative length frees the first block only.
\<close>

definition adjustblock :: "Block list \<Rightarrow> int \<Rightarrow> Kern \<Rightarrow> (Block list, Kern) kres" where
  "adjustblock bp len k = (case bp of
       [] \<Rightarrow> Inl Fault
     | b # nxt \<Rightarrow>
         if len < 0 then Inr ([], freeb b k)
         else if b_rp b + len > b_lim b then
           kbind (copyblock bp len k) (\<lambda>nbp k.
           Inr ((case nbp of None \<Rightarrow> [] | Some b \<Rightarrow> [b]), freeblist bp k))
         else kbind (if len > BLEN b then memset0 b (b_wp b) (len - BLEN b) k else Inr (b, k)) (\<lambda>b k.
           Inr (b\<lparr>b_wp := b_rp b + len\<rparr> # nxt, k)))"

text \<open>Throw away up to \<open>cnt\<close> bytes; the count of bytes thrown away is returned.\<close>

function pullblock :: "Block list \<Rightarrow> int \<Rightarrow> Kern \<Rightarrow> (int \<times> Block list) \<times> Kern" where
  "pullblock [] cnt k = ((0, []), k)"
| "pullblock (bp # nxt) cnt k =
     (if cnt = 0 then ((0, bp # nxt), k)
      else let n = (if cnt < BLEN bp then cnt else BLEN bp);
               bp = bp\<lparr>b_rp := b_rp bp + n\<rparr>;
               ((bytes, rest), k) =
                 (if BLEN bp = 0 then pullblock nxt (cnt - n) (freeb bp k)
                  else pullblock (bp # nxt) (cnt - n) k)
           in ((n + bytes, rest), k))"
  by pat_completeness auto
termination
  by (relation "measures [\<lambda>(bs, cnt, k). length bs, \<lambda>(bs, cnt, k). if cnt = 0 then 0 else 1]")
     (auto split: if_splits)

text \<open>Reallocate the blocks whose space is way out of line with their use.\<close>

fun packblock :: "Block list \<Rightarrow> Kern \<Rightarrow> (Block list, Kern) kres" where
  "packblock [] k = Inr ([], k)"
| "packblock (nbp # nxt) k =
     (let n = BLEN nbp in
      if n * 4 < BALLOC nbp then
        kbind (allocb n k) (\<lambda>l k.
        kbind (memmove_bb l (b_wp l) nbp (b_rp nbp) n k) (\<lambda>l k.
        kbind (packblock nxt (freeb nbp k)) (\<lambda>rest k.
        Inr (l\<lparr>b_wp := b_wp l + n\<rparr> # rest, k))))
      else kbind (packblock nxt k) (\<lambda>rest k. Inr (nbp # rest, k)))"

text \<open>
  Copy a chain to memory, freeing the emptied blocks: the bytes stored and the chain from the
  first unconsumed block.
\<close>

fun bl2mem :: "Block list \<Rightarrow> int \<Rightarrow> Kern \<Rightarrow> (byte list \<times> Block list, Kern) kres" where
  "bl2mem [] n k = Inr (([], []), k)"
| "bl2mem (b # nxt) n k =
     (let i = BLEN b in
      if i > n then
        kbind (memmove_out b (b_rp b) n k) (\<lambda>bs k.
        Inr ((bs, b\<lparr>b_rp := b_rp b + n\<rparr> # nxt), k))
      else
        kbind (memmove_out b (b_rp b) i k) (\<lambda>bs k.
        kbind (bl2mem nxt (n - i) (freeb b k)) (\<lambda>(bs', rest) k.
        Inr ((bs @ bs', rest), k))))"

definition Maxatomic :: int where "Maxatomic = 65536"

text \<open>
  Copy \<open>len\<close> bytes of memory into a chain of blocks of at most \<open>Maxatomic\<close> bytes; \<open>p\<close>
  is what the memory holds from the pointer on, and reading past it is a fault.
\<close>

function mem2bl :: "byte list \<Rightarrow> int \<Rightarrow> Kern \<Rightarrow> (Block list, Kern) kres" where
  "mem2bl p len k =
     (let n = (if len > Maxatomic then Maxatomic else len) in
      kbind (allocb n k) (\<lambda>b k.
      if n < 0 \<or> length p < nat n then Inl Fault
      else kbind (memmove_in b (b_wp b) (take (nat n) p) k) (\<lambda>b k.
      let b = b\<lparr>b_wp := b_wp b + n\<rparr> in
      if len - n > 0 then kbind (mem2bl (drop (nat n) p) (len - n) k) (\<lambda>rest k. Inr (b # rest, k))
      else Inr ([b], k))))"
  by pat_completeness auto
termination
  by (relation "measure (\<lambda>(p, len, k). nat len)") (auto simp: Maxatomic_def split: if_splits)

declare mem2bl.simps [simp del]

section \<open>The bytes of a chain\<close>

definition wfc :: "Block list \<Rightarrow> bool" where
  "wfc bs \<longleftrightarrow> (\<forall>b \<in> set bs. wfb b)"

definition ccont :: "Block list \<Rightarrow> byte list" where
  "ccont bs = concat (map bcont bs)"

lemma wfc_simps [simp]: "wfc []" "wfc (b # bs) \<longleftrightarrow> wfb b \<and> wfc bs" "wfc (bs @ cs) \<longleftrightarrow> wfc bs \<and> wfc cs"
  by (auto simp: wfc_def)

lemma ccont_simps [simp]: "ccont [] = []" "ccont (b # bs) = bcont b @ ccont bs"
  "ccont (bs @ cs) = ccont bs @ ccont cs"
  by (simp_all add: ccont_def)

lemma length_ccont: "wfc bs \<Longrightarrow> int (length (ccont bs)) = blocklen bs"
  by (induction bs) (auto simp: int_length_bcont wfb_nonneg)

lemma blocklen_nonneg: "wfc bs \<Longrightarrow> 0 \<le> blocklen bs"
  by (simp add: length_ccont [symmetric])

lemma blockalloclen_nonneg: "wfc bs \<Longrightarrow> 0 \<le> blockalloclen bs"
  by (induction bs) (auto simp: wfb_nonneg)

lemma blocklen_append [simp]: "blocklen (bs @ cs) = blocklen bs + blocklen cs"
  "blockalloclen (bs @ cs) = blockalloclen bs + blockalloclen cs"
  by (induction bs) auto

lemma freeblist_simps [simp]:
  "acct (freeblist bs k) cs = acct k (bs @ cs)"
  "mem_avail (freeblist bs k) = mem_avail k"
proof (induction bs arbitrary: k)
  case (Cons b bs)
  {
    case 1
    have "acct (freeblist bs (freeb b k)) cs = acct k (b # (bs @ cs))"
      using Cons(1) [of "freeb b k"] by simp
    then show ?case by simp
  next
    case 2
    show ?case using Cons(2) by simp
  }
qed simp_all

text \<open>The copying step \<^verbatim>\<open>memmove(d->wp, s->rp, n); d->wp += n\<close> of every routine.\<close>

lemma memmove_bb_head [simp]:
  assumes "wfb d" "wfb s" "0 \<le> n" "n \<le> BLEN s" "b_wp d + n \<le> b_lim d"
  shows "memmove_bb d (b_wp d) s (b_rp s) n k =
    Inr ((bappend d (take (nat n) (bcont s)))\<lparr>b_wp := b_wp d\<rparr>, k)"
proof -
  have "int (length (take (nat n) (bcont s))) = n"
    using assms by simp
  then show ?thesis
    using assms by (simp add: memmove_bb_def memmove_in_end)
qed

lemma memmove_bb_all [simp]:
  assumes "wfb d" "wfb s" "b_wp d + BLEN s \<le> b_lim d"
  shows "memmove_bb d (b_wp d) s (b_rp s) (BLEN s) k = Inr ((bappend d (bcont s))\<lparr>b_wp := b_wp d\<rparr>, k)"
  using assms memmove_bb_head [of d s "BLEN s" k] by (simp add: wfb_nonneg)

lemma bappend_wp [simp]:
  assumes "wfb s" "0 \<le> n" "n \<le> BLEN s"
  shows "(bappend d (take (nat n) (bcont s)))\<lparr>b_wp := b_wp d + n\<rparr> = bappend d (take (nat n) (bcont s))"
proof -
  have "int (length (take (nat n) (bcont s))) = n"
    using assms by simp
  then show ?thesis
    by (metis bappend_simps(10))
qed

lemma bappend_wp_all [simp]:
  "wfb s \<Longrightarrow> (bappend d (bcont s))\<lparr>b_wp := b_wp d + BLEN s\<rparr> = bappend d (bcont s)"
  using bappend_wp [of s "BLEN s" d] wfb_nonneg [of s] by simp

lemma append_room [simp]:
  assumes "wfb d" "wfb s" "0 \<le> n" "n \<le> BLEN s" "b_wp d + n \<le> b_lim d"
  shows "wfb (bappend d (take (nat n) (bcont s)))"
    and "bcont (bappend d (take (nat n) (bcont s))) = bcont d @ take (nat n) (bcont s)"
  using assms by (simp_all add: wfb_bappend bcont_bappend)

lemma append_room_all [simp]:
  assumes "wfb d" "wfb s" "b_wp d + BLEN s \<le> b_lim d"
  shows "wfb (bappend d (bcont s))" "bcont (bappend d (bcont s)) = bcont d @ bcont s"
  using assms by (simp_all add: wfb_bappend bcont_bappend wfb_nonneg)

section \<open>What each routine does\<close>

lemma concat_loop_ok:
  assumes "wfb nb" "wfc fs" "b_wp nb + blocklen fs \<le> b_lim nb"
  shows "kok (concat_loop nb fs k) (\<lambda>b k'. wfb b \<and> bcont b = bcont nb @ ccont fs \<and> k' = k \<and>
    intr b = intr nb \<and> drv b = drv nb)"
  using assms
proof (induction fs arbitrary: nb)
  case (Cons f fs)
  have "0 \<le> blocklen fs" using Cons.prems by (simp add: blocklen_nonneg)
  with Cons.prems have "b_wp nb + BLEN f \<le> b_lim nb"
    by auto
  with Cons.prems Cons.IH [of "bappend nb (bcont f)"] show ?case
    by (simp add: int_length_bcont add.assoc del: length_bcont)
qed simp

lemma concatblock_ok:
  assumes "bp \<noteq> []" "wfc bp" "mem_avail k"
  shows "kok (concatblock bp k) (\<lambda>r k'. (\<exists>b. r = [b]) \<and> wfc r \<and> ccont r = ccont bp \<and>
    acct k' r = acct k bp \<and> mem_avail k')"
proof (cases "\<exists>b. bp = [b]")
  case True
  then show ?thesis using assms by (auto simp: concatblock_def)
next
  case False
  then have e: "concatblock bp k = kbind (allocb (blocklen bp) k) (\<lambda>nb k.
            kbind (concat_loop nb bp k) (\<lambda>nb k.
            Inr ([nb], freeblist bp
              (k\<lparr>k_concatblockcnt := k_concatblockcnt k + of_int (BLEN nb)\<rparr>))))"
    using assms(1) by (auto simp: concatblock_def split: list.split)
  have "kok (allocb (blocklen bp) k) (newb (blocklen bp) k)"
    using assms by (intro allocb_newb) (simp_all add: blocklen_nonneg)
  then show ?thesis
    unfolding e
  proof (simp, elim kok_mono)
    fix nb k' assume nb: "newb (blocklen bp) k nb k'"
    note d = newbD [OF nb]
    show "kok (concat_loop nb bp k') (\<lambda>x k'a. wfb x \<and> bcont x = ccont bp \<and>
       acct k'a (bp @ [x]) = acct k bp \<and> mem_avail k'a)"
      by (rule kok_mono [OF concat_loop_ok]) (use assms d in \<open>auto simp: acct_def\<close>)
  qed
qed

lemma pullup_loop_ok:
  assumes "wfb bp" "wfc nxt" "0 < n" "b_wp bp + n \<le> b_lim bp" "mem_avail k"
  shows "kok (pullup_loop bp nxt n k) (\<lambda>r k'. acct k' r = acct k (bp # nxt) \<and> mem_avail k' \<and>
    (if n \<le> blocklen nxt then r \<noteq> [] \<and> wfc r \<and> ccont r = bcont bp @ ccont nxt \<and> BLEN (hd r) = BLEN bp + n
     else r = []))"
  using assms
proof (induction nxt arbitrary: bp n k)
  case (Cons nbp nxt)
  show ?case
  proof (cases "BLEN nbp > n")
    case True
    moreover have "0 \<le> blocklen nxt" using Cons.prems by (simp add: blocklen_nonneg)
    ultimately show ?thesis
      using Cons.prems by (simp add: Let_def wfb_adv bcont_adv acct_def)
  next
    case False
    let ?bp = "bappend bp (bcont nbp)"
    let ?k = "freeb nbp (k\<lparr>k_pullupblockcnt := k_pullupblockcnt k + 1\<rparr>)"
    have wf: "wfb ?bp" "bcont ?bp = bcont bp @ bcont nbp" and nn: "0 \<le> BLEN nbp"
      using False Cons.prems by (auto simp: wfb_nonneg)
    have acct: "acct ?k (?bp # cs) = acct k (bp # nbp # cs)" for cs
      by (simp add: acct_simps algebra_simps)
    show ?thesis
    proof (cases "n = BLEN nbp")
      case True
      then show ?thesis
        using Cons.prems wf nn acct [of nxt] by (simp add: Let_def int_length_bcont blocklen_nonneg)
    next
      case ne: False
      have "kok (pullup_loop ?bp nxt (n - BLEN nbp) ?k) (\<lambda>r k'. acct k' r = acct ?k (?bp # nxt) \<and> mem_avail k' \<and>
        (if n - BLEN nbp \<le> blocklen nxt
         then r \<noteq> [] \<and> wfc r \<and> ccont r = bcont ?bp @ ccont nxt \<and> BLEN (hd r) = BLEN ?bp + (n - BLEN nbp)
         else r = []))"
        by (rule Cons.IH) (use False ne nn Cons.prems wf in \<open>auto simp: int_length_bcont simp del: length_bcont\<close>)
      moreover have "pullup_loop bp (nbp # nxt) n k = pullup_loop ?bp nxt (n - BLEN nbp) ?k"
        using False ne nn Cons.prems by (simp add: Let_def)
      ultimately show ?thesis
        using wf acct [of nxt] Cons.prems by (auto simp: int_length_bcont elim!: kok_mono split: if_splits simp del: length_bcont)
    qed
  qed
qed simp

lemma pullupblock_ok:
  assumes "bp \<noteq> []" "wfc bp" "mem_avail k"
  shows "kok (pullupblock bp n k) (\<lambda>r k'. acct k' r = acct k bp \<and> mem_avail k' \<and>
    (if n \<le> blocklen bp then r \<noteq> [] \<and> wfc r \<and> ccont r = ccont bp \<and> n \<le> BLEN (hd r) else r = []))"
proof -
  obtain b nxt where bp: "bp = b # nxt" using assms(1) by (cases bp) auto
  consider (enough) "n \<le> BLEN b" | (room) "BLEN b < n" "n \<le> b_lim b - b_rp b"
    | (tight) "BLEN b < n" "b_lim b - b_rp b < n" by linarith
  then show ?thesis
  proof cases
    case enough
    moreover have "0 \<le> blocklen nxt" using assms bp by (simp add: blocklen_nonneg)
    ultimately show ?thesis
      using assms bp by auto
  next
    case room
    then have "b_wp b + (n - BLEN b) \<le> b_lim b" by (simp add: BLEN_def)
    then have "kok (pullup_loop b nxt (n - BLEN b) k) (\<lambda>r k'. acct k' r = acct k (b # nxt) \<and> mem_avail k' \<and>
      (if n - BLEN b \<le> blocklen nxt
       then r \<noteq> [] \<and> wfc r \<and> ccont r = bcont b @ ccont nxt \<and> BLEN (hd r) = BLEN b + (n - BLEN b) else r = []))"
      using room assms bp by (intro pullup_loop_ok) auto
    then show ?thesis
      using room by (auto simp: bp elim!: kok_mono split: if_splits)
  next
    case tight
    have n: "0 < n" using tight(1) wfb_nonneg(1) [of b] assms bp by simp
    have "kok (pullup_loop nb (b # nxt) (n - BLEN nb) k') (\<lambda>r k''. acct k'' r = acct k bp \<and> mem_avail k'' \<and>
        (if n \<le> blocklen bp then r \<noteq> [] \<and> wfc r \<and> ccont r = ccont bp \<and> n \<le> BLEN (hd r) else r = []))"
      if nb: "newb n k nb k'" for nb k'
    proof -
      note d = newbD [OF nb]
      have "kok (pullup_loop nb (b # nxt) n k') (\<lambda>r k''. acct k'' r = acct k' (nb # b # nxt) \<and> mem_avail k'' \<and>
        (if n \<le> blocklen (b # nxt) then r \<noteq> [] \<and> wfc r \<and> ccont r = bcont nb @ ccont (b # nxt) \<and> BLEN (hd r) = BLEN nb + n
         else r = []))"
        using n d assms bp by (intro pullup_loop_ok) auto
      then show ?thesis
        using d by (auto simp: bp acct_unowned elim!: kok_mono split: if_splits)
    qed
    moreover have "kok (allocb n k) (newb n k)"
      using n assms by (intro allocb_newb) auto
    moreover have "pullupblock bp n k = kbind (allocb n k) (\<lambda>nbp k. pullup_loop nbp (b # nxt) (n - BLEN nbp) k)"
      using tight by (simp add: bp del: pullup_loop.simps)
    ultimately show ?thesis
      by (simp only: kok_bind) (rule kok_mono)
  qed
qed

lemma trim_front_ok:
  assumes "wfc bs" "0 \<le> offset" "offset \<le> blocklen bs" "bs \<noteq> []"
  shows "kok (trim_front bs offset k) (\<lambda>(cs, off) k'. cs \<noteq> [] \<and> wfc cs \<and> 0 \<le> off \<and> off \<le> BLEN (hd cs) \<and>
    drop (nat off) (ccont cs) = drop (nat offset) (ccont bs) \<and> acct k' cs = acct k bs \<and>
    off + blocklen bs = offset + blocklen cs \<and> mem_avail k' = mem_avail k)"
  using assms
proof (induction bs arbitrary: offset k)
  case (Cons b bs)
  show ?case
  proof (cases "BLEN b < offset")
    case True
    with Cons.prems have "bs \<noteq> []" by auto
    then have IH: "kok (trim_front bs (offset - BLEN b) (freeb b k)) (\<lambda>(cs, off) k'. cs \<noteq> [] \<and> wfc cs \<and> 0 \<le> off \<and>
      off \<le> BLEN (hd cs) \<and> drop (nat off) (ccont cs) = drop (nat (offset - BLEN b)) (ccont bs) \<and>
      acct k' cs = acct (freeb b k) bs \<and> off + blocklen bs = offset - BLEN b + blocklen cs \<and>
      mem_avail k' = mem_avail (freeb b k))"
      using True Cons.prems by (intro Cons.IH) auto
    moreover have "drop (nat offset) (bcont b) = []" "nat offset - length (bcont b) = nat (offset - BLEN b)"
      using True Cons.prems wfb_nonneg [of b] by (simp_all add: nat_diff_distrib)
    ultimately show ?thesis
      using True Cons.prems by (auto elim!: kok_mono simp del: length_bcont)
  qed (use Cons.prems in auto)
qed simp

lemma trim_back_ok:
  assumes "wfc bs" "0 \<le> len" "len \<le> blocklen bs" "bs \<noteq> []"
  shows "kok (trim_back bs len k) (\<lambda>r k'. r \<noteq> [] \<and> wfc r \<and> ccont r = take (nat len) (ccont bs) \<and>
    acct k' r = acct k bs \<and> mem_avail k' = mem_avail k)"
  using assms
proof (induction bs arbitrary: len k)
  case (Cons b bs)
  show ?case
  proof (cases "BLEN b < len")
    case True
    with Cons.prems have "bs \<noteq> []" by auto
    then have "kok (trim_back bs (len - BLEN b) k) (\<lambda>r k'. r \<noteq> [] \<and> wfc r \<and>
      ccont r = take (nat (len - BLEN b)) (ccont bs) \<and> acct k' r = acct k bs \<and> mem_avail k' = mem_avail k)"
      using True Cons.prems by (intro Cons.IH) auto
    moreover have "take (nat len) (bcont b) = bcont b" "nat len - length (bcont b) = nat (len - BLEN b)"
      using True Cons.prems wfb_nonneg [of b] by (simp_all add: nat_diff_distrib)
    ultimately show ?thesis
      using True Cons.prems by (auto simp: acct_Cons elim!: kok_mono simp del: length_bcont)
  next
    case False
    moreover have w: "b\<lparr>b_wp := b_wp b - (BLEN b - len)\<rparr> = b\<lparr>b_wp := b_rp b + len\<rparr>" by (simp add: BLEN_def)
    moreover have "take (nat len - length (bcont b)) (ccont bs) = []" using False Cons.prems by simp
    moreover have "acct k (bs @ [b\<lparr>b_wp := x\<rparr>]) = acct k (b # bs)" for x
      using acct_perm [of "bs @ [b\<lparr>b_wp := x\<rparr>]" "b\<lparr>b_wp := x\<rparr> # bs" k] by (simp add: acct_Cons)
    ultimately show ?thesis
      using Cons.prems by (simp add: w wfb_trunc bcont_trunc)
  qed
qed simp

lemma trimblock_ok:
  assumes "bp \<noteq> []" "wfc bp" "0 \<le> offset" "0 \<le> len"
  shows "kok (trimblock bp offset len k) (\<lambda>r k'. wfc r \<and> acct k' r = acct k bp \<and>
    (if offset + len \<le> blocklen bp then r \<noteq> [] \<and> ccont r = take (nat len) (drop (nat offset) (ccont bp)) else r = []))"
proof (cases "offset + len \<le> blocklen bp")
  case True
  have "kok (case (cs, off) of (bp, offset) \<Rightarrow> case bp of [] \<Rightarrow> Inl Fault
           | b # nxt \<Rightarrow> trim_back (b\<lparr>b_rp := b_rp b + offset\<rparr> # nxt) len k') (\<lambda>r k'. wfc r \<and> acct k' r = acct k bp \<and>
    (if offset + len \<le> blocklen bp then r \<noteq> [] \<and> ccont r = take (nat len) (drop (nat offset) (ccont bp)) else r = []))"
    if h: "cs \<noteq> [] \<and> wfc cs \<and> 0 \<le> off \<and> off \<le> BLEN (hd cs) \<and>
      drop (nat off) (ccont cs) = drop (nat offset) (ccont bp) \<and> acct k' cs = acct k bp \<and>
      off + blocklen bp = offset + blocklen cs \<and> mem_avail k' = mem_avail k" for cs off k'
  proof -
    obtain b nxt where cs: "cs = b # nxt" using h by (cases cs) auto
    let ?b = "b\<lparr>b_rp := b_rp b + off\<rparr>"
    have c: "ccont (?b # nxt) = drop (nat offset) (ccont bp)"
      using h cs by (auto simp: bcont_adv wfb_nonneg)
    have "kok (trim_back (?b # nxt) len k') (\<lambda>r k''. r \<noteq> [] \<and> wfc r \<and> ccont r = take (nat len) (ccont (?b # nxt)) \<and>
      acct k'' r = acct k' (?b # nxt) \<and> mem_avail k'' = mem_avail k')"
      using h cs True assms by (intro trim_back_ok) (auto simp: wfb_adv)
    moreover have "acct k' (?b # nxt) = acct k bp" using h cs by (simp add: acct_Cons)
    ultimately show ?thesis
      unfolding cs c using True by (auto elim!: kok_mono simp del: trim_back.simps)
  qed
  then show ?thesis
    using True assms
    by (simp add: trimblock_def del: prod.case) (rule kok_mono [OF trim_front_ok], auto)
qed (use assms in \<open>simp add: trimblock_def\<close>)

lemma iallocb_ok:
  assumes "0 \<le> sz" "mem_avail k" "k_mp k \<le> 1000"
  shows "kok (iallocb sz k) (\<lambda>r k'. mem_avail k' \<and> (case r of
      None \<Rightarrow> k_limit k < k_bytes k \<and> (\<forall>bs. acct k' bs = acct k bs)
    | Some b \<Rightarrow> fresh sz b \<and> (\<forall>bs. acct k' (b # bs) = acct k bs)))"
proof -
  have fl: "tst (f OR BINTR) BINTR" for f :: ushort
    using tst_setf [of f BINTR BINTR] by (simp add: setf_def tst_def BINTR_def)
  have "kok (allocb0 sz k) (\<lambda>b k'. fresh sz b \<and> same_budget k k' \<and> \<not> tst (b_flag b) BINTR)"
    by (rule allocb0_ok) fact+
  then have "kok (allocb0 sz k) (\<lambda>b k'. let b = b\<lparr>b_flag := b_flag b OR BINTR\<rparr>; k'' = k'\<lparr>k_bytes := k_bytes k' + of_int (BALLOC b)\<rparr>
     in mem_avail k'' \<and> fresh sz b \<and> (\<forall>bs. acct k'' (b # bs) = acct k bs))"
    using assms(2)
    by (elim kok_mono) (auto simp: Let_def fresh_def wfb_def acct_def intr_def drv_def same_budget_def mem_avail_def fl)
  then show ?thesis
    using assms by (auto simp: iallocb_def Let_def mem_avail_def acct_def)
qed

lemma copy_loop_ok:
  assumes "wfb nb" "wfc bs" "b_wp nb + cnt \<le> b_lim nb" "0 \<le> cnt"
  shows "kok (copy_loop nb bs cnt k) (\<lambda>(b, c) k'. k' = k \<and> wfb b \<and> bcont b = bcont nb @ take (nat cnt) (ccont bs) \<and>
    c = max 0 (cnt - blocklen bs) \<and> b_wp b + c \<le> b_lim b \<and> intr b = intr nb \<and> drv b = drv nb)"
  using assms
proof (induction bs arbitrary: nb cnt)
  case (Cons s bs)
  have nn: "0 \<le> BLEN s" "0 \<le> blocklen bs" using Cons.prems by (auto simp: wfb_nonneg blocklen_nonneg)
  define l where "l = (if BLEN s > cnt then cnt else BLEN s)"
  have l: "0 \<le> l" "l \<le> BLEN s" "l \<le> cnt" using nn Cons.prems by (auto simp: l_def)
  let ?nb = "bappend nb (take (nat l) (bcont s))"
  have len: "int (length (take (nat l) (bcont s))) = l" using l Cons.prems by simp
  have IH: "kok (copy_loop ?nb bs (cnt - l) k) (\<lambda>(b, c) k'. k' = k \<and> wfb b \<and>
      bcont b = bcont ?nb @ take (nat (cnt - l)) (ccont bs) \<and>
      c = max 0 (cnt - l - blocklen bs) \<and> b_wp b + c \<le> b_lim b \<and> intr b = intr ?nb \<and> drv b = drv ?nb)"
    using Cons.prems l len by (intro Cons.IH) (auto simp del: length_take)
  have tk: "take (nat cnt) (bcont s @ ccont bs) = take (nat l) (bcont s) @ take (nat (cnt - l)) (ccont bs)"
    using nn l Cons.prems by (auto simp: l_def nat_diff_distrib)
  have mx: "max 0 (cnt - l - blocklen bs) = max 0 (cnt - blocklen (s # bs))"
    using nn by (auto simp: l_def)
  show ?case
  proof (cases "cnt > 0")
    case True
    then have "copy_loop nb (s # bs) cnt k = copy_loop ?nb bs (cnt - l) k"
      using Cons.prems l by (simp add: Let_def l_def [symmetric])
    then show ?thesis
      using IH Cons.prems l len
      by (auto simp: tk mx bcont_bappend simp del: length_take take_append copy_loop.simps elim!: kok_mono)
  next
    case False
    with Cons.prems nn show ?thesis by auto
  qed
qed auto

lemma memset0_end:
  assumes "wfb d" "0 \<le> n" "b_wp d + n \<le> b_lim d"
  shows "memset0 d (b_wp d) n k = Inr ((bappend d (replicate (nat n) 0))\<lparr>b_wp := b_wp d\<rparr>, k)"
    and "(bappend d (replicate (nat n) 0))\<lparr>b_wp := b_wp d + n\<rparr> = bappend d (replicate (nat n) 0)"
    and "wfb (bappend d (replicate (nat n) 0))"
    and "bcont (bappend d (replicate (nat n) 0)) = bcont d @ replicate (nat n) 0"
  using assms by (simp_all add: memset0_def memmove_in_end wfb_bappend bcont_bappend)

lemma copyblock_ok:
  assumes "bp \<noteq> []" "wfc bp" "0 \<le> cnt" "mem_avail k" "k_mp k \<le> 1000"
  shows "kok (copyblock bp cnt k) (\<lambda>r k'. mem_avail k' \<and> (case r of
      None \<Rightarrow> tst (b_flag (hd bp)) BINTR \<and> k_limit k < k_bytes k \<and> (\<forall>bs. acct k' bs = acct k bs)
    | Some b \<Rightarrow> wfb b \<and> (\<forall>bs. acct k' (b # bs) = acct k bs) \<and>
        bcont b = take (nat cnt) (ccont bp) @ replicate (nat cnt - length (ccont bp)) 0))"
proof -
  have "kok (copy_alloc (hd bp) cnt k) (\<lambda>r k'. mem_avail k' \<and> (case r of
      None \<Rightarrow> tst (b_flag (hd bp)) BINTR \<and> k_limit k < k_bytes k \<and> (\<forall>bs. acct k' bs = acct k bs)
    | Some b \<Rightarrow> fresh cnt b \<and> (\<forall>bs. acct k' (b # bs) = acct k bs)))"
    using kok_mono [OF iallocb_ok [OF assms(3-5)]] kok_mono [OF allocb_newb [OF assms(3,4)]]
    by (auto simp: copy_alloc_def newb_def acct_unowned split: option.splits)
  note alloc = this
  have rest: "kok (copy_rest nb bp cnt k1) (\<lambda>r k'. mem_avail k' \<and> (case r of None \<Rightarrow> False
       | Some b \<Rightarrow> wfb b \<and> (\<forall>bs. acct k' (b # bs) = acct k bs) \<and>
        bcont b = take (nat cnt) (ccont bp) @ replicate (nat cnt - length (ccont bp)) 0))"
    if h: "mem_avail k1" "fresh cnt nb" "\<forall>bs. acct k1 (nb # bs) = acct k bs" for nb k1
  proof -
    have "nat cnt - length (ccont bp) = nat (max 0 (cnt - blocklen bp))"
      using assms(2,3) by (simp add: length_ccont [symmetric])
    then show ?thesis
      unfolding copy_rest_def
      by (intro kok_bindI [OF copy_loop_ok [of nb bp cnt k1]])
         (use h assms in \<open>auto simp: fresh_room memset0_end acct_Cons\<close>)
  qed
  have e: "copyblock bp cnt k = kbind (copy_alloc (hd bp) cnt k) (\<lambda>nbp k. case nbp of
      None \<Rightarrow> Inr (None, k) | Some nbp \<Rightarrow> copy_rest nbp bp cnt k)"
    using assms(1) by (auto simp: copyblock_def neq_Nil_conv)
  show ?thesis
    unfolding e
  proof (rule kok_bindI [OF alloc])
    fix r k1
    assume h: "mem_avail k1 \<and> (case r of
        None \<Rightarrow> tst (b_flag (hd bp)) BINTR \<and> k_limit k < k_bytes k \<and> (\<forall>bs. acct k1 bs = acct k bs)
      | Some b \<Rightarrow> fresh cnt b \<and> (\<forall>bs. acct k1 (b # bs) = acct k bs))"
    show "kok (case r of None \<Rightarrow> Inr (None, k1) | Some nbp \<Rightarrow> copy_rest nbp bp cnt k1)
      (\<lambda>r k'. mem_avail k' \<and> (case r of
      None \<Rightarrow> tst (b_flag (hd bp)) BINTR \<and> k_limit k < k_bytes k \<and> (\<forall>bs. acct k' bs = acct k bs)
    | Some b \<Rightarrow> wfb b \<and> (\<forall>bs. acct k' (b # bs) = acct k bs) \<and>
        bcont b = take (nat cnt) (ccont bp) @ replicate (nat cnt - length (ccont bp)) 0))"
    proof (cases r)
      case (Some nb)
      then show ?thesis
        using h rest [of k1 nb] by (auto elim!: kok_mono split: option.splits)
    qed (use h in simp)
  qed
qed

lemma adjustblock_ok:
  assumes "wfc (b # nxt)" "0 \<le> len" "mem_avail k" "k_mp k \<le> 1000" "k_bytes k \<le> k_limit k"
  shows "kok (adjustblock (b # nxt) len k) (\<lambda>r k'. wfc r \<and> acct k' r = acct k (b # nxt) \<and> mem_avail k' \<and>
    (if b_rp b + len > b_lim b
     then \<exists>b'. r = [b'] \<and> bcont b' = take (nat len) (ccont (b # nxt)) @ replicate (nat len - length (ccont (b # nxt))) 0
     else \<exists>b'. r = b' # nxt \<and> bcont b' = take (nat len) (bcont b) @ replicate (nat len - length (bcont b)) 0))"
proof (cases "b_rp b + len > b_lim b")
  case True
  then have e: "adjustblock (b # nxt) len k = kbind (copyblock (b # nxt) len k) (\<lambda>nbp k.
      Inr ((case nbp of None \<Rightarrow> [] | Some b \<Rightarrow> [b]), freeblist (b # nxt) k))"
    using assms by (simp add: adjustblock_def)
  show ?thesis
    unfolding e
    by (rule kok_bindI [OF copyblock_ok [of "b # nxt" len k]])
       (use True assms in \<open>auto simp: not_less acct_snoc split: option.splits simp del: freeblist.simps ccont_simps(2)\<close>)
next
  case False
  show ?thesis
  proof (cases "len > BLEN b")
    case True
    have z: "b_rp b + len = b_wp b + (len - BLEN b)" by (simp add: BLEN_def)
    have "nat len - length (bcont b) = nat (len - BLEN b)"
      using True assms by (simp add: nat_diff_distrib wfb_nonneg)
    then show ?thesis
      using True False assms memset0_end(3,4) [of b "len - BLEN b"]
      by (simp add: adjustblock_def z acct_Cons memset0_end(1) memset0_end(2) [of b "len - BLEN b"])
  qed (use False assms in \<open>simp add: adjustblock_def wfb_trunc bcont_trunc acct_Cons\<close>)
qed

lemma pullblock_ok:
  assumes "wfc bs" "0 \<le> cnt" "pullblock bs cnt k = ((m, r), k')"
  shows "m = min cnt (blocklen bs) \<and> wfc r \<and> ccont r = drop (nat m) (ccont bs) \<and>
    acct k' r = acct k bs \<and> mem_avail k' = mem_avail k"
  using assms
proof (induction bs arbitrary: cnt k m)
  case (Cons b bs)
  have nn: "0 \<le> BLEN b" "0 \<le> blocklen bs" using Cons.prems by (auto simp: wfb_nonneg blocklen_nonneg)
  consider (zero) "cnt = 0" | (part) "0 < cnt" "cnt < BLEN b" | (all) "0 < cnt" "BLEN b \<le> cnt"
    using Cons.prems by linarith
  then show ?case
  proof cases
    case zero
    then show ?thesis using Cons.prems nn by auto
  next
    case part
    then have "m = cnt" "r = b\<lparr>b_rp := b_rp b + cnt\<rparr> # bs" "k' = k"
      using Cons.prems by (auto simp: Let_def)
    then show ?thesis
      using part Cons.prems nn by (simp add: wfb_adv bcont_adv acct_Cons)
  next
    case all
    let ?b = "b\<lparr>b_rp := b_rp b + BLEN b\<rparr>"
    have fb: "acct (freeb ?b k) bs = acct k (b # bs)" by (simp add: acct_Cons)
    obtain m' where m': "pullblock bs (cnt - BLEN b) (freeb ?b k) = ((m', r), k')" "m = BLEN b + m'"
      using all Cons.prems(3) by (auto simp: Let_def split: prod.splits if_splits)
    from Cons.IH [OF _ _ m'(1)] have "m' = min (cnt - BLEN b) (blocklen bs) \<and> wfc r \<and>
      ccont r = drop (nat m') (ccont bs) \<and> acct k' r = acct (freeb ?b k) bs \<and> mem_avail k' = mem_avail (freeb ?b k)"
      using all Cons.prems by auto
    then show ?thesis
      using all nn Cons.prems fb m'(2) by (auto simp: nat_add_distrib min_def)
  qed
qed auto

lemma packblock_ok:
  assumes "wfc bs" "mem_avail k"
  shows "kok (packblock bs k) (\<lambda>r k'. wfc r \<and> map bcont r = map bcont bs \<and> acct k' r = acct k bs \<and> mem_avail k')"
  using assms
proof (induction bs arbitrary: k)
  case (Cons b bs)
  show ?case
  proof (cases "BLEN b * 4 < BALLOC b")
    case True
    have "kok (allocb (BLEN b) k) (newb (BLEN b) k)"
      using Cons.prems by (intro allocb_newb) (auto simp: wfb_nonneg)
    then show ?thesis
      using True Cons.prems
    proof (simp add: Let_def, elim kok_mono)
      fix l k1 assume "newb (BLEN b) k l k1"
      note d = newbD [OF this]
      show "kok (memmove_bb l (b_wp l) b (b_rp b) (BLEN b) k1) (\<lambda>x ka. kok (packblock bs (freeb b ka))
         (\<lambda>xa k'. wfb (x\<lparr>b_wp := b_wp x + BLEN b\<rparr>) \<and> wfc xa \<and> bcont (x\<lparr>b_wp := b_wp x + BLEN b\<rparr>) = bcont b \<and>
           map bcont xa = map bcont bs \<and> acct k' (x\<lparr>b_wp := b_wp x + BLEN b\<rparr> # xa) = acct k (b # bs) \<and> mem_avail k'))"
        using d(1,2,3,5-9) Cons.prems kok_mono [OF Cons.IH [of "freeb b k1"]] by (simp add: acct_Cons)
    qed
  next
    case False
    then show ?thesis
      using Cons.prems kok_mono [OF Cons.IH [of k]] by (simp add: Let_def acct_Cons)
  qed
qed simp

lemma bl2mem_ok:
  assumes "wfc bs" "0 \<le> n"
  shows "kok (bl2mem bs n k) (\<lambda>(out, r) k'. out = take (nat n) (ccont bs) \<and> wfc r \<and> ccont r = drop (nat n) (ccont bs) \<and>
    acct k' r = acct k bs \<and> mem_avail k' = mem_avail k \<and> (r = [] \<longleftrightarrow> blocklen bs \<le> n) \<and> length r \<le> length bs)"
  using assms
proof (induction bs arbitrary: n k)
  case (Cons b bs)
  have nn: "0 \<le> BLEN b" "0 \<le> blocklen bs" using Cons.prems by (auto simp: wfb_nonneg blocklen_nonneg)
  show ?case
  proof (cases "BLEN b > n")
    case True
    then show ?thesis
      using Cons.prems nn by (simp add: wfb_adv bcont_adv acct_Cons)
  next
    case False
    then have "kok (bl2mem bs (n - BLEN b) (freeb b k)) (\<lambda>(out, r) k'. out = take (nat (n - BLEN b)) (ccont bs) \<and> wfc r \<and>
      ccont r = drop (nat (n - BLEN b)) (ccont bs) \<and> acct k' r = acct (freeb b k) bs \<and>
      mem_avail k' = mem_avail (freeb b k) \<and> (r = [] \<longleftrightarrow> blocklen bs \<le> n - BLEN b) \<and> length r \<le> length bs)"
      using Cons.prems by (intro Cons.IH) auto
    moreover have "nat n - length (bcont b) = nat (n - BLEN b)"
      using False Cons.prems nn by (simp add: nat_diff_distrib)
    ultimately show ?thesis
      using False Cons.prems nn by (auto simp: Let_def elim!: kok_mono)
  qed
qed simp

lemma mem2bl_ok:
  assumes "0 \<le> len" "len \<le> int (length p)" "mem_avail k"
  shows "kok (mem2bl p len k) (\<lambda>r k'. r \<noteq> [] \<and> wfc r \<and> ccont r = take (nat len) p \<and>
    (\<forall>b \<in> set r. BLEN b \<le> Maxatomic) \<and> (\<forall>bs. acct k' (r @ bs) = acct k bs) \<and> mem_avail k')"
  using assms
proof (induction p len k rule: mem2bl.induct)
  case (1 p len k)
  define n where "n = (if len > Maxatomic then Maxatomic else len)"
  have n: "0 \<le> n" "n \<le> len" "n \<le> Maxatomic" using "1.prems" by (auto simp: n_def Maxatomic_def)
  have "kok (allocb n k) (newb n k)"
    using n "1.prems" by (intro allocb_newb) auto
  then obtain b k1 where alloc: "allocb n k = Inr (b, k1)" and nb: "newb n k b k1"
    by (auto simp: kok_returns)
  note d = newbD [OF nb]
  let ?bs = "take (nat n) p"
  have len: "int (length ?bs) = n" and lp: "\<not> length p < nat n" using n "1.prems" by simp_all
  let ?b = "bappend b ?bs"
  have b: "wfb ?b" "bcont ?b = ?bs" "BLEN ?b = n" "intr ?b = 0" "drv ?b = {#}"
    using d(1-8) len by (simp_all add: wfb_bappend bcont_bappend del: length_take)
  have mv: "memmove_in b (b_wp b) ?bs k1 = Inr (?b\<lparr>b_wp := b_wp b\<rparr>, k1)"
    using d(1,5) len by (intro memmove_in_end) (simp_all del: length_take)
  have wp: "?b\<lparr>b_wp := b_wp b + n\<rparr> = ?b" using bappend_simps(10) [of b ?bs] by (simp only: len)
  have acct1: "acct k1 (?b # bs) = acct k bs" for bs
    using d(9) b by (simp add: acct_Cons)
  show ?case
  proof (cases "len - n > 0")
    case True
    then have e: "mem2bl p len k = kbind (mem2bl (drop (nat n) p) (len - n) k1) (\<lambda>rest k. Inr (?b # rest, k))"
      using alloc n lp "1.prems" by (subst mem2bl.simps) (simp add: Let_def n_def [symmetric] mv wp)
    have tk: "take (nat len) p = ?bs @ take (nat (len - n)) (drop (nat n) p)"
      using n by (metis add.commute diff_add_cancel nat_add_distrib take_add le_diff_eq add_0)
    have "kok (mem2bl (drop (nat n) p) (len - n) k1) (\<lambda>r k'. r \<noteq> [] \<and> wfc r \<and>
      ccont r = take (nat (len - n)) (drop (nat n) p) \<and> (\<forall>b \<in> set r. BLEN b \<le> Maxatomic) \<and>
      (\<forall>bs. acct k' (r @ bs) = acct k1 bs) \<and> mem_avail k')"
      using True n "1.prems" d alloc mv
      by (intro "1.IH" [OF n_def, of b k1 "?b\<lparr>b_wp := b_wp b\<rparr>" k1]) auto
    then show ?thesis
      unfolding e using b n d(9) tk by (auto simp: acct_Cons elim!: kok_mono)
  next
    case False
    then have nl: "n = len" using n by simp
    moreover have "mem2bl p len k = Inr ([?b], k1)"
      using False alloc n lp "1.prems"
      by (subst mem2bl.simps) (simp add: Let_def n_def [symmetric] nl mv [unfolded nl] wp [unfolded nl])
    ultimately show ?thesis
      using b n d acct1 by simp
  qed
qed

lemma bcont_back:
  assumes "wfb b" "0 \<le> n" "n \<le> b_rp b - b_base b"
  shows "wfb (b\<lparr>b_rp := b_rp b - n\<rparr>)" "BLEN (b\<lparr>b_rp := b_rp b - n\<rparr>) = BLEN b + n"
    "drop (nat n) (bcont (b\<lparr>b_rp := b_rp b - n\<rparr>)) = bcont b"
proof -
  let ?b = "b\<lparr>b_rp := b_rp b - n\<rparr>"
  show w: "wfb ?b" and l: "BLEN ?b = BLEN b + n"
    using assms by (auto simp: wfb_def BLEN_def)
  have "n \<le> BLEN ?b" using l wfb_nonneg(1) [OF assms(1)] by simp
  then have "bcont (?b\<lparr>b_rp := b_rp ?b + n\<rparr>) = drop (nat n) (bcont ?b)"
    using w assms(2) by (intro bcont_adv)
  then show "drop (nat n) (bcont ?b) = bcont b" by simp
qed

lemma padblock_front_ok:
  assumes "wfc (b # nxt)" "0 \<le> sz" "mem_avail k" "nxt = [] \<or> sz \<le> b_rp b - b_base b"
  shows "kok (padblock (b # nxt) sz k) (\<lambda>r k'. \<exists>b'. r = b' # nxt \<and> wfb b' \<and> BLEN b' = sz + BLEN b \<and>
    drop (nat sz) (bcont b') = bcont b \<and> acct k' r = acct k (b # nxt) \<and> mem_avail k')"
proof (cases "sz \<le> b_rp b - b_base b")
  case True
  then show ?thesis
    using assms bcont_back [of b sz] by (simp add: acct_Cons)
next
  case False
  then have nxt: "nxt = []" using assms by simp
  let ?k = "k\<lparr>k_padblockcnt := k_padblockcnt k + 1\<rparr>"
  have nn: "0 \<le> BLEN b" using assms by (simp add: wfb_nonneg)
  have "kok (allocb (sz + BLEN b) ?k) (newb (sz + BLEN b) ?k)"
    using assms nn by (intro allocb_newb) auto
  then obtain nb k1 where al: "allocb (sz + BLEN b) ?k = Inr (nb, k1)" and nb: "newb (sz + BLEN b) ?k nb k1"
    by (auto simp: kok_returns)
  note d = newbD [OF nb]
  let ?nb = "nb\<lparr>b_rp := b_rp nb + sz, b_wp := b_rp nb + sz\<rparr>"
  have w: "wfb ?nb" and room: "b_wp ?nb + BLEN b \<le> b_lim ?nb"
    using d(1,4,5) assms(2) nn by (simp_all add: wfb_def)
  let ?c = "bappend ?nb (bcont b)"
  have mv: "memmove_bb ?nb (b_rp nb + sz) b (b_rp b) (BLEN b) k1 = Inr (?c\<lparr>b_wp := b_rp nb + sz\<rparr>, k1)"
    using memmove_bb_all [OF w _ room] assms by simp
  have wp: "?c\<lparr>b_wp := b_rp nb + sz + BLEN b\<rparr> = ?c"
    using bappend_wp_all [of b ?nb] assms by simp
  have e: "padblock (b # nxt) sz k = Inr ([?c\<lparr>b_rp := b_rp ?c - sz\<rparr>], freeb b k1)"
    using False assms nxt al by (simp add: Let_def mv wp)
  have "bcont ?nb = []" "BLEN ?nb = 0" by (simp_all add: bcont_def BLEN_def)
  then have c: "wfb ?c" "bcont ?c = bcont b" "BLEN ?c = BLEN b" "intr ?c = 0" "drv ?c = {#}"
    using append_room_all [OF w _ room] assms d(7,8) by (simp_all add: int_length_bcont del: length_bcont)
  have "sz \<le> b_rp ?c - b_base ?c" using d(10) by (simp add: block_consts)
  from bcont_back [OF c(1) assms(2) this] show ?thesis
    unfolding e using c d(6,9) nxt by (simp add: acct_Cons)
qed

lemma padblock_back_ok:
  assumes "wfb b" "sz < 0" "mem_avail k"
  shows "kok (padblock [b] sz k) (\<lambda>r k'. \<exists>b'. r = [b'] \<and> wfb b' \<and> bcont b' = bcont b \<and>
    - sz \<le> b_lim b' - b_wp b' \<and> acct k' r = acct k [b] \<and> mem_avail k')"
proof (cases "- sz \<le> b_lim b - b_wp b")
  case True
  then show ?thesis using assms by simp
next
  case False
  let ?k = "k\<lparr>k_padblockcnt := k_padblockcnt k + 1\<rparr>"
  have "kok (allocb (- sz + BLEN b) ?k) (newb (- sz + BLEN b) ?k)"
    using assms wfb_nonneg(1) [of b] by (intro allocb_newb) auto
  then obtain nb k1 where al: "allocb (- sz + BLEN b) ?k = Inr (nb, k1)" and nb: "newb (- sz + BLEN b) ?k nb k1"
    by (auto simp: kok_returns)
  note d = newbD [OF nb]
  have "padblock [b] sz k = Inr ([bappend nb (bcont b)], freeb b k1)"
    using False assms al d(1,5) by (simp add: Let_def)
  then show ?thesis
    using assms d(1,2,5-9) by (simp add: acct_Cons int_length_bcont del: length_bcont)
qed

end
