(* ===== verification/Queue.thy ===== *)
theory Queue
  imports Blocklist
begin

text \<open>
  I/O queues: the second half of \<^verbatim>\<open>port/qio.c\<close>. The queue is the record
  \<open>Queue\<close>; \<^verbatim>\<open>bfirst\<close> and the chain it heads are one list, whose last element is
  \<^verbatim>\<open>blast\<close>. Locks do not appear in the state: every definition below is what one
  process does between \<^verbatim>\<open>ilock\<close> and \<^verbatim>\<open>iunlock\<close>, and an operation that gives the
  lock up on its way is cut there into one definition per locked region (theory Qsched
  interleaves them). The calls an operation makes into the rest of the kernel (\<^verbatim>\<open>wakeup\<close>
  of a reader or a writer, \<^verbatim>\<open>kick\<close>, \<^verbatim>\<open>bypass\<close>) are returned as a list of events,
  in order. A blocking operation returns \<open>Sleep\<close> where the process goes to sleep; when it
  is woken, the source starts the same locked region again.
  Byte counts are mathematical integers: the C ints would need two gigabytes in one queue
  to wrap.
\<close>

section \<open>State\<close>

definition Qstarve :: "32 word" where "Qstarve = 1"
definition Qmsg :: "32 word" where "Qmsg = 2"
definition Qclosed :: "32 word" where "Qclosed = 4"
definition Qflow :: "32 word" where "Qflow = 8"
definition Qcoalesce :: "32 word" where "Qcoalesce = 16"
definition Qkick :: "32 word" where "Qkick = 32"

lemmas qflag_defs = Qstarve_def Qmsg_def Qclosed_def Qflow_def Qcoalesce_def Qkick_def

definition Ehungup :: string where "Ehungup = ''i/o on hungup channel''"
definition ERRMAX :: nat where "ERRMAX = 128"

record Queue =
  q_bfirst :: "Block list"
  q_len :: int
  q_dlen :: int
  q_limit :: int
  q_inilim :: int
  q_state :: "32 word"
  q_noblock :: bool
  q_eof :: int
  q_kick :: bool
  q_bypass :: bool
  q_err :: string

datatype qev = WakeR | WakeW | Kick | Bypass Block

text \<open>
  How a call ends: with a result, asleep (with the number of bytes it has handed over so
  far), or by \<^verbatim>\<open>error\<close> with a string.
\<close>

datatype 'a out = Ret 'a | Sleep int | Error string

type_synonym 'a qres = "('a \<times> Queue \<times> qev list, Kern) kres"

section \<open>Taking blocks out\<close>

text \<open>The writer-restart test that ends every routine that takes data out.\<close>

definition qrestart :: "Queue \<Rightarrow> Queue \<times> bool" where
  "qrestart q =
     (if tst (q_state q) Qflow \<and> q_len q < q_limit q sdiv 2
      then (q\<lparr>q_state := clrf (q_state q) Qflow\<rparr>, True) else (q, False))"

definition qget :: "Queue \<Rightarrow> Block option \<times> Queue \<times> qev list" where
  "qget q = (case q_bfirst q of
       [] \<Rightarrow> (None, q\<lparr>q_state := setf (q_state q) Qstarve\<rparr>, [])
     | b # nxt \<Rightarrow>
         let q = q\<lparr>q_bfirst := nxt, q_len := q_len q - BALLOC b, q_dlen := q_dlen q - BLEN b\<rparr>;
             (q, dowakeup) = qrestart q
         in (Some b, q, if dowakeup then [WakeW] else []))"

function qdiscard_loop :: "Queue \<Rightarrow> int \<Rightarrow> int \<Rightarrow> Kern \<Rightarrow> (int \<times> Queue) \<times> Kern" where
  "qdiscard_loop q len sofar k =
     (if sofar < len then
        case q_bfirst q of
          [] \<Rightarrow> ((sofar, q), k)
        | b # nxt \<Rightarrow>
            let n = BLEN b in
            if n \<le> len - sofar then
              qdiscard_loop (q\<lparr>q_bfirst := nxt, q_len := q_len q - BALLOC b, q_dlen := q_dlen q - BLEN b\<rparr>)
                len (sofar + n) (freeb b k)
            else
              let n = len - sofar in
              qdiscard_loop (q\<lparr>q_bfirst := b\<lparr>b_rp := b_rp b + n\<rparr> # nxt, q_dlen := q_dlen q - n\<rparr>)
                len (sofar + n) k
      else ((sofar, q), k))"
  by pat_completeness auto
termination
  by (relation "measures [\<lambda>(q, len, sofar, k). length (q_bfirst q), \<lambda>(q, len, sofar, k). if sofar < len then 1 else 0]")
     auto

declare qdiscard_loop.simps [simp del]

definition qdiscard :: "Queue \<Rightarrow> int \<Rightarrow> Kern \<Rightarrow> int qres" where
  "qdiscard q len k =
     (let ((sofar, q), k) = qdiscard_loop q len 0 k;
          (q, dowakeup) = qrestart q
      in Inr ((sofar, q, if dowakeup then [WakeW] else []), k))"

text \<open>
  \<^verbatim>\<open>qconsume\<close> first unlinks the empty blocks at the head, collecting them in
  \<^verbatim>\<open>tofree\<close>. On its way out with an empty queue it does not free that list.
\<close>

fun qconsume_skip :: "Block list \<Rightarrow> int \<Rightarrow> Block list \<Rightarrow> Block list \<times> int \<times> Block list" where
  "qconsume_skip [] l tofree = ([], l, tofree)"
| "qconsume_skip (b # nxt) l tofree =
     (if BLEN b > 0 then (b # nxt, l, tofree)
      else qconsume_skip nxt (l - BALLOC b) (b # tofree))"

definition qconsume :: "Queue \<Rightarrow> int \<Rightarrow> Kern \<Rightarrow> (int \<times> byte list) qres" where
  "qconsume q len k =
     (let (bs, l, tofree) = qconsume_skip (q_bfirst q) (q_len q) [];
          q = q\<lparr>q_bfirst := bs, q_len := l\<rparr>
      in case bs of
           [] \<Rightarrow> Inr (((-1, []), q\<lparr>q_state := setf (q_state q) Qstarve\<rparr>, []), k)
         | b # nxt \<Rightarrow>
             let n = BLEN b; len = (if n < len then n else len) in
             kbind (memmove_out b (b_rp b) len k) (\<lambda>p k.
             let k = k\<lparr>k_consumecnt := k_consumecnt k + of_int n\<rparr>;
                 b = b\<lparr>b_rp := b_rp b + len\<rparr>;
                 q = q\<lparr>q_bfirst := b # nxt, q_dlen := q_dlen q - len\<rparr>;
                 (q, tofree) =
                   (if tst (q_state q) Qmsg \<or> len = n
                    then (q\<lparr>q_bfirst := nxt, q_len := q_len q - BALLOC b, q_dlen := q_dlen q - BLEN b\<rparr>,
                          b # tofree)
                    else (q, tofree));
                 (q, dowakeup) = qrestart q
             in Inr (((len, p), q, if dowakeup then [WakeW] else []), freeblist tofree k)))"

section \<open>Putting blocks in\<close>

text \<open>Append a chain; \<^verbatim>\<open>qpass\<close>, \<^verbatim>\<open>qpassnolim\<close> and \<^verbatim>\<open>qaddlist\<close> link it the same way.\<close>

definition qlink :: "Queue \<Rightarrow> Block list \<Rightarrow> Queue" where
  "qlink q b = q\<lparr>q_bfirst := q_bfirst q @ b, q_len := q_len q + blockalloclen b,
     q_dlen := q_dlen q + blocklen b\<rparr>"

text \<open>Clear the starvation flag; the flag tells whether a reader has to be woken.\<close>

definition qunstarve :: "Queue \<Rightarrow> Queue \<times> bool" where
  "qunstarve q =
     (if tst (q_state q) Qstarve then (q\<lparr>q_state := clrf (q_state q) Qstarve\<rparr>, True) else (q, False))"

definition qpassnolim :: "Queue \<Rightarrow> Block list \<Rightarrow> Kern \<Rightarrow> int qres" where
  "qpassnolim q b k = (case b of
       [] \<Rightarrow> Inl Fault
     | b0 # _ \<Rightarrow>
         if tst (q_state q) Qclosed then Inr ((BALLOC b0, q, []), freeblist b k)
         else
           let q = qlink q b;
               q = (if q_len q \<ge> q_limit q sdiv 2 then q\<lparr>q_state := setf (q_state q) Qflow\<rparr> else q);
               (q, dowakeup) = qunstarve q
           in Inr ((blockalloclen b, q, if dowakeup then [WakeR] else []), k))"

definition qpass :: "Queue \<Rightarrow> Block list \<Rightarrow> Kern \<Rightarrow> int qres" where
  "qpass q b k =
     (if q_len q \<ge> q_limit q then Inr ((-1, q, []), freeblist b k) else qpassnolim q b k)"

text \<open>\<open>p\<close> is what memory holds from the pointer argument on.\<close>

definition qproduce :: "Queue \<Rightarrow> byte list \<Rightarrow> int \<Rightarrow> Kern \<Rightarrow> int qres" where
  "qproduce q p len k =
     (if q_len q \<ge> q_limit q then Inr ((-1, q\<lparr>q_state := setf (q_state q) Qflow\<rparr>, []), k)
      else kbind (iallocb len k) (\<lambda>b k. case b of
          None \<Rightarrow> Inr ((0, q, []), k)
        | Some b \<Rightarrow>
            if len < 0 \<or> int (length p) < len then Inl Fault
            else kbind (memmove_in b (b_wp b) (take (nat len) p) k) (\<lambda>b k.
              let k = k\<lparr>k_producecnt := k_producecnt k + of_int len\<rparr>;
                  b = b\<lparr>b_wp := b_wp b + len\<rparr>;
                  q = qlink q [b];
                  (q, dowakeup) = qunstarve q;
                  q = (if q_len q \<ge> q_limit q then q\<lparr>q_state := setf (q_state q) Qflow\<rparr> else q)
              in Inr ((len, q, if dowakeup then [WakeR] else []), k))))"

section \<open>Copying without consuming\<close>

fun qcopy_seek :: "Block list \<Rightarrow> int \<Rightarrow> int \<Rightarrow> (Block list \<times> int \<times> int) option" where
  "qcopy_seek [] sofar offset = None"
| "qcopy_seek (b # nxt) sofar offset =
     (let n = BLEN b in
      if sofar + n > offset then Some (b # nxt, b_rp b + offset - sofar, n - (offset - sofar))
      else qcopy_seek nxt (sofar + n) offset)"

fun qcopy_loop :: "Block \<Rightarrow> Block list \<Rightarrow> int \<Rightarrow> int \<Rightarrow> int \<Rightarrow> int \<Rightarrow> Kern \<Rightarrow> (Block, Kern) kres" where
  "qcopy_loop nb [] p n len sofar k = Inr (nb, k)"
| "qcopy_loop nb (b # nxt) p n len sofar k =
     (if sofar < len then
        let n = (if n > len - sofar then len - sofar else n) in
        kbind (memmove_bb nb (b_wp nb) b p n k) (\<lambda>nb k.
        let k = k\<lparr>k_qcopycnt := k_qcopycnt k + of_int n\<rparr>; nb = nb\<lparr>b_wp := b_wp nb + n\<rparr> in
        case nxt of
          [] \<Rightarrow> Inr (nb, k)
        | b' # _ \<Rightarrow> qcopy_loop nb nxt (b_rp b') (BLEN b') len (sofar + n) k)
      else Inr (nb, k))"

definition qcopy :: "Queue \<Rightarrow> int \<Rightarrow> int \<Rightarrow> Kern \<Rightarrow> (Block, Kern) kres" where
  "qcopy q len offset k =
     kbind (allocb len k) (\<lambda>nb k. case qcopy_seek (q_bfirst q) 0 offset of
         None \<Rightarrow> Inr (nb, k)
       | Some (bs, p, n) \<Rightarrow> qcopy_loop nb bs p n len 0 k)"

section \<open>Opening queues\<close>

definition qopen :: "int \<Rightarrow> 32 word \<Rightarrow> bool \<Rightarrow> Kern \<Rightarrow> Queue option \<times> Kern" where
  "qopen limit msg kick k = (case kmalloc k of
       (None, k) \<Rightarrow> (None, k)
     | (Some _, k) \<Rightarrow>
         (Some \<lparr>q_bfirst = [], q_len = 0, q_dlen = 0, q_limit = limit, q_inilim = limit,
            q_state = setf msg Qstarve, q_noblock = False, q_eof = 0, q_kick = kick,
            q_bypass = False, q_err = ''''\<rparr>, k))"

definition qbypass :: "Kern \<Rightarrow> Queue option \<times> Kern" where
  "qbypass k = (case kmalloc k of
       (None, k) \<Rightarrow> (None, k)
     | (Some _, k) \<Rightarrow>
         (Some \<lparr>q_bfirst = [], q_len = 0, q_dlen = 0, q_limit = 0, q_inilim = 0, q_state = 0,
            q_noblock = False, q_eof = 0, q_kick = False, q_bypass = True, q_err = ''''\<rparr>, k))"

section \<open>Reading\<close>

definition notempty :: "Queue \<Rightarrow> bool" where
  "notempty q \<longleftrightarrow> tst (q_state q) Qclosed \<or> q_bfirst q \<noteq> []"

text \<open>
  One turn of the loop of \<^verbatim>\<open>qwait\<close>: there is data (1), the queue is closed (0, or -1
  after three ends of file or an error other than a hangup), or the process sleeps on
  \<^verbatim>\<open>q->rr\<close> with the starvation flag set.
\<close>

datatype qw = Data | Eof | Fail | Wait

definition qwait :: "Queue \<Rightarrow> qw \<times> Queue" where
  "qwait q =
     (if q_bfirst q \<noteq> [] then (Data, q)
      else if tst (q_state q) Qclosed then
        let q = q\<lparr>q_eof := q_eof q + 1\<rparr> in
        if q_eof q > 3 then (Fail, q)
        else if q_err q \<noteq> '''' \<and> q_err q \<noteq> Ehungup then (Fail, q)
        else (Eof, q)
      else (Wait, q\<lparr>q_state := setf (q_state q) Qstarve\<rparr>))"

definition qaddlist :: "Queue \<Rightarrow> Block list \<Rightarrow> Kern \<Rightarrow> (Queue, Kern) kres" where
  "qaddlist q b k = (if b = [] then Inl Fault else Inr (qlink q b, k))"

definition qremove :: "Queue \<Rightarrow> Block option \<times> Queue" where
  "qremove q = (case q_bfirst q of
       [] \<Rightarrow> (None, q)
     | b # nxt \<Rightarrow> (Some b, q\<lparr>q_bfirst := nxt, q_dlen := q_dlen q - BLEN b, q_len := q_len q - BALLOC b\<rparr>))"

definition qputback :: "Queue \<Rightarrow> Block \<Rightarrow> Queue" where
  "qputback q b = q\<lparr>q_bfirst := b # q_bfirst q, q_len := q_len q + BALLOC b, q_dlen := q_dlen q + BLEN b\<rparr>"

definition qwakeup_iunlock :: "Queue \<Rightarrow> Queue \<times> qev list" where
  "qwakeup_iunlock q =
     (let (q, dowakeup) = qrestart q
      in (q, if dowakeup then (if q_kick q then [Kick] else []) @ [WakeW] else []))"

definition pullupqueue :: "Queue \<Rightarrow> int \<Rightarrow> Kern \<Rightarrow> (Block list \<times> Queue, Kern) kres" where
  "pullupqueue q n k = (case q_bfirst q of
       [] \<Rightarrow> Inl Fault
     | b # _ \<Rightarrow>
         if BLEN b \<ge> n then Inr ((q_bfirst q, q), k)
         else kbind (pullupblock (q_bfirst q) n k) (\<lambda>bs k. Inr ((bs, q\<lparr>q_bfirst := bs\<rparr>), k)))"

text \<open>Get the next block, up to a limit; the rest of a split block goes back to the front.\<close>

definition qbread_data :: "Queue \<Rightarrow> int \<Rightarrow> Kern \<Rightarrow> Block option out qres" where
  "qbread_data q len k = (case qremove q of
       (None, q) \<Rightarrow> Inl Fault
     | (Some nb, q) \<Rightarrow>
         let n = BLEN nb in
         kbind (if n > len then
                  kbind (if \<not> tst (q_state q) Qmsg then
                           kbind (allocb (n - len) k) (\<lambda>b k.
                           kbind (memmove_bb b (b_wp b) nb (b_rp nb + len) (n - len) k) (\<lambda>b k.
                           Inr (qputback q (b\<lparr>b_wp := b_wp b + (n - len)\<rparr>), k)))
                         else Inr (q, k))
                    (\<lambda>q k. Inr ((nb\<lparr>b_wp := b_rp nb + len\<rparr>, q), k))
                else Inr ((nb, q), k))
           (\<lambda>(nb, q) k. let (q, ev) = qwakeup_iunlock q in Inr ((Ret (Some nb), q, ev), k)))"

definition qbread :: "Queue \<Rightarrow> int \<Rightarrow> Kern \<Rightarrow> Block option out qres" where
  "qbread q len k = (case qwait q of
       (Eof, q) \<Rightarrow> Inr ((Ret None, q, []), k)
     | (Fail, q) \<Rightarrow> Inr ((Error (q_err q), q, []), k)
     | (Wait, q) \<Rightarrow> Inr ((Sleep 0, q, []), k)
     | (Data, q) \<Rightarrow> qbread_data q len k)"

text \<open>
  The first locked region of \<^verbatim>\<open>qread\<close>: wait, drop empty blocks when coalescing, unlink
  the blocks to copy. With \<^verbatim>\<open>Qcoalesce\<close> these are the first block and as many of the
  following as completely fit.
\<close>

function qgrab :: "Queue \<Rightarrow> int \<Rightarrow> int \<Rightarrow> (Block list \<times> int) \<times> Queue" where
  "qgrab q n len = (case q_bfirst q of
       [] \<Rightarrow> (([], n), q)
     | b # nxt \<Rightarrow>
         let q = snd (qremove q); n = n + BLEN b in
         case nxt of
           [] \<Rightarrow> (([b], n), q)
         | b' # _ \<Rightarrow>
             if n + BLEN b' > len then (([b], n), q)
             else let ((bs, n), q) = qgrab q n len in ((b # bs, n), q))"
  by pat_completeness auto
termination
  by (relation "measure (\<lambda>(q, n, len). length (q_bfirst q))") (auto simp: qremove_def)

declare qgrab.simps [simp del]

datatype taken = Took "Block list" int | NoData "byte list out"

function qread_take :: "Queue \<Rightarrow> int \<Rightarrow> Kern \<Rightarrow> (taken \<times> Queue) \<times> Kern" where
  "qread_take q len k = (case qwait q of
       (Eof, q) \<Rightarrow> ((NoData (Ret []), q), k)
     | (Fail, q) \<Rightarrow> ((NoData (Error (q_err q)), q), k)
     | (Wait, q) \<Rightarrow> ((NoData (Sleep 0), q), k)
     | (Data, q) \<Rightarrow>
         (case q_bfirst q of
            [] \<Rightarrow> ((NoData (Sleep 0), q), k)
          | b # nxt \<Rightarrow>
              if tst (q_state q) Qcoalesce then
                if BLEN b \<le> 0 then qread_take (snd (qremove q)) len (freeb b k)
                else let ((first, n), q) = qgrab q 0 len in ((Took first n, q), k)
              else ((Took [b] (BLEN b), snd (qremove q)), k)))"
  by pat_completeness auto
termination
  by (relation "measure (\<lambda>(q, len, k). length (q_bfirst q))")
     (auto simp: qremove_def qwait_def Let_def split: if_splits)

declare qread_take.simps [simp del]

text \<open>
  The second locked region: whatever \<^verbatim>\<open>bl2mem\<close> left of a partial block is put back, or
  thrown away in a message queue, and the producer is restarted.
\<close>

definition qread_finish :: "Queue \<Rightarrow> int \<Rightarrow> Block list \<Rightarrow> Kern \<Rightarrow> (int \<times> Queue \<times> qev list) \<times> Kern" where
  "qread_finish q n rest k =
     (let ((n, q), k) = (case rest of
            [] \<Rightarrow> ((n, q), k)
          | b # _ \<Rightarrow>
              if tst (q_state q) Qmsg then ((n - BLEN b, q), freeb b k)
              else ((n - BLEN b, qputback q b), k));
          (q, ev) = qwakeup_iunlock q
      in ((n, q, ev), k))"

text \<open>The whole call, when no one else runs between the two regions.\<close>

definition qread :: "Queue \<Rightarrow> int \<Rightarrow> Kern \<Rightarrow> (int \<times> byte list) out qres" where
  "qread q len k = (case qread_take q len k of
       ((NoData (Ret _), q), k) \<Rightarrow> Inr ((Ret (0, []), q, []), k)
     | ((NoData (Error e), q), k) \<Rightarrow> Inr ((Error e, q, []), k)
     | ((NoData (Sleep s), q), k) \<Rightarrow> Inr ((Sleep s, q, []), k)
     | ((Took first n, q), k) \<Rightarrow>
         kbind (bl2mem first len k) (\<lambda>(vp, rest) k.
         let ((n, q, ev), k) = qread_finish q n rest k in Inr ((Ret (n, vp), q, ev), k)))"

section \<open>Writing\<close>

definition qnotfull :: "Queue \<Rightarrow> bool" where
  "qnotfull q \<longleftrightarrow> q_len q < q_limit q \<or> tst (q_state q) Qclosed"

text \<open>
  \<^verbatim>\<open>qbwrite\<close> up to the flow control loop: \<open>Some r\<close> when it returns or fails there,
  None when the block has been queued.
\<close>

definition qbwrite_put :: "Queue \<Rightarrow> Block \<Rightarrow> Kern \<Rightarrow> (int out option \<times> Queue \<times> qev list) \<times> Kern" where
  "qbwrite_put q b k =
     (let n = BLEN b in
      if q_bypass q then ((Some (Ret n), q, [Bypass b]), k)
      else if tst (q_state q) Qclosed then ((Some (Error (q_err q)), q, []), freeb b k)
      else if q_len q \<ge> q_limit q \<and> q_noblock q then
        ((Some (Ret n), q, []), (freeb b k)\<lparr>k_noblockcnt := k_noblockcnt (freeb b k) + of_int n\<rparr>)
      else
        let (q, dowakeup) = qunstarve (qlink q [b])
        in ((None, q, (if q_kick q \<and> (dowakeup \<or> tst (q_state q) Qkick) then [Kick] else []) @
                      (if dowakeup then [WakeR] else [])), k))"

text \<open>One turn of the flow control loop: the writer leaves it, or sleeps on \<^verbatim>\<open>q->wr\<close>.\<close>

definition qbwrite_wait :: "Queue \<Rightarrow> bool \<times> Queue" where
  "qbwrite_wait q =
     (if q_noblock q \<or> qnotfull q then (True, q)
      else (False, q\<lparr>q_state := setf (q_state q) Qflow\<rparr>))"

definition qbwrite :: "Queue \<Rightarrow> Block \<Rightarrow> Kern \<Rightarrow> (int out \<times> Queue \<times> qev list) \<times> Kern" where
  "qbwrite q b k = (case qbwrite_put q b k of
       ((Some r, q, ev), k) \<Rightarrow> ((r, q, ev), k)
     | ((None, q, ev), k) \<Rightarrow>
         let (done, q) = qbwrite_wait q
         in ((if done then Ret (BLEN b) else Sleep (BLEN b), q, ev), k))"

text \<open>
  \<^verbatim>\<open>qwrite\<close> from the point where \<open>sofar\<close> bytes are queued. \<open>Sleep s\<close> means that
  \<open>s\<close> bytes are queued and the writer sleeps; woken, it goes on from \<open>s\<close>.
\<close>

function qwrite_loop :: "Queue \<Rightarrow> byte list \<Rightarrow> int \<Rightarrow> int \<Rightarrow> Kern \<Rightarrow> int out qres" where
  "qwrite_loop q vp len sofar k =
     (let n = (if len - sofar > Maxatomic then Maxatomic else len - sofar) in
      kbind (allocb n k) (\<lambda>b k.
      if n < 0 \<or> int (length vp) < sofar + n then Inl Fault
      else kbind (memmove_in b (b_wp b) (take (nat n) (drop (nat sofar) vp)) k) (\<lambda>b k.
      case qbwrite q (b\<lparr>b_wp := b_wp b + n\<rparr>) k of
        ((Error e, q, ev), k) \<Rightarrow> Inr ((Error e, q, ev), k)
      | ((Sleep _, q, ev), k) \<Rightarrow> Inr ((Sleep (sofar + n), q, ev), k)
      | ((Ret _, q, ev), k) \<Rightarrow>
          if sofar + n < len \<and> \<not> tst (q_state q) Qmsg then
            kbind (qwrite_loop q vp len (sofar + n) k) (\<lambda>(r, q, ev') k. Inr ((r, q, ev @ ev'), k))
          else Inr ((Ret len, q, ev), k))))"
  by pat_completeness auto
termination
  by (relation "measure (\<lambda>(q, vp, len, sofar, k). nat (len - sofar))")
     (auto simp: Maxatomic_def split: if_splits)

declare qwrite_loop.simps [simp del]

definition qwrite :: "Queue \<Rightarrow> byte list \<Rightarrow> int \<Rightarrow> Kern \<Rightarrow> int out qres" where
  "qwrite q vp len k = qwrite_loop q vp len 0 k"

text \<open>
  The write of kernel prints: it never sleeps, and stops at the first block that would go over
  an artificial limit. The flag \<^verbatim>\<open>dowakeup\<close> stays set once a reader has been woken.
\<close>

function qiwrite_loop :: "Queue \<Rightarrow> byte list \<Rightarrow> int \<Rightarrow> int \<Rightarrow> bool \<Rightarrow> Kern \<Rightarrow> int qres" where
  "qiwrite_loop q vp len sofar dowakeup k =
     (let n = (if len - sofar > Maxatomic then Maxatomic else len - sofar) in
      kbind (iallocb n k) (\<lambda>b k. case b of
        None \<Rightarrow> Inr ((sofar, q, []), k)
      | Some b \<Rightarrow>
          if n < 0 \<or> int (length vp) < sofar + n then Inl Fault
          else kbind (memmove_in b (b_wp b) (take (nat n) (drop (nat sofar) vp)) k) (\<lambda>b k.
            let b = b\<lparr>b_wp := b_wp b + n\<rparr> in
            if q_dlen q \<ge> 32 * 1024 then Inr ((sofar, q, []), freeb b k)
            else
              let (q, w) = qunstarve (qlink q [b]);
                  dowakeup = (dowakeup \<or> w);
                  ev = (if dowakeup then (if q_kick q then [Kick] else []) @ [WakeR] else [])
              in if sofar + n < len \<and> \<not> tst (q_state q) Qmsg then
                   kbind (qiwrite_loop q vp len (sofar + n) dowakeup k)
                     (\<lambda>(r, q, ev') k. Inr ((r, q, ev @ ev'), k))
                 else Inr ((sofar + n, q, ev), k))))"
  by pat_completeness auto
termination
  by (relation "measure (\<lambda>(q, vp, len, sofar, w, k). nat (len - sofar))")
     (auto simp: Maxatomic_def split: if_splits)

declare qiwrite_loop.simps [simp del]

definition qiwrite :: "Queue \<Rightarrow> byte list \<Rightarrow> int \<Rightarrow> Kern \<Rightarrow> int qres" where
  "qiwrite q vp len k = qiwrite_loop q vp len 0 False k"

section \<open>Closing, reopening, parameters\<close>

definition qclose :: "Queue \<Rightarrow> Kern \<Rightarrow> (Queue \<times> qev list) \<times> Kern" where
  "qclose q k =
     ((q\<lparr>q_state := clrf (setf (q_state q) Qclosed) (Qflow OR Qstarve), q_err := Ehungup,
         q_bfirst := [], q_len := 0, q_dlen := 0, q_noblock := False\<rparr>, [WakeR, WakeW]),
      freeblist (q_bfirst q) k)"

definition qfree :: "Queue \<Rightarrow> Kern \<Rightarrow> qev list \<times> Kern" where
  "qfree q k = (let ((q, ev), k) = qclose q k in (ev, k))"

definition qhangup :: "Queue \<Rightarrow> string option \<Rightarrow> Queue \<times> qev list" where
  "qhangup q msg =
     (q\<lparr>q_state := setf (q_state q) Qclosed,
        q_err := (case msg of None \<Rightarrow> Ehungup | Some m \<Rightarrow> if m = '''' then Ehungup else take (ERRMAX - 1) m)\<rparr>,
      [WakeR, WakeW])"

definition qisclosed :: "Queue \<Rightarrow> bool" where
  "qisclosed q \<longleftrightarrow> tst (q_state q) Qclosed"

definition qreopen :: "Queue \<Rightarrow> Queue" where
  "qreopen q = q\<lparr>q_state := setf (clrf (q_state q) Qclosed) Qstarve, q_eof := 0, q_limit := q_inilim q\<rparr>"

definition qlen :: "Queue \<Rightarrow> int" where "qlen q = q_dlen q"

definition qwindow :: "Queue \<Rightarrow> int" where
  "qwindow q = (let l = q_limit q - q_len q in if l < 0 then 0 else l)"

definition qcanread :: "Queue \<Rightarrow> bool" where "qcanread q \<longleftrightarrow> q_bfirst q \<noteq> []"

definition qsetlimit :: "Queue \<Rightarrow> int \<Rightarrow> Queue" where "qsetlimit q limit = q\<lparr>q_limit := limit\<rparr>"

definition qnoblock :: "Queue \<Rightarrow> bool \<Rightarrow> Queue" where "qnoblock q onoff = q\<lparr>q_noblock := onoff\<rparr>"

definition qflush :: "Queue \<Rightarrow> Kern \<Rightarrow> (Queue \<times> qev list) \<times> Kern" where
  "qflush q k = ((q\<lparr>q_bfirst := [], q_len := 0, q_dlen := 0\<rparr>, [WakeW]), freeblist (q_bfirst q) k)"

definition qfull :: "Queue \<Rightarrow> bool" where "qfull q \<longleftrightarrow> tst (q_state q) Qflow"

definition qstate :: "Queue \<Rightarrow> 32 word" where "qstate q = q_state q"

section \<open>The queue invariant\<close>

text \<open>
  The byte counters of a queue describe its chain, which consists of well-formed blocks.
  \<open>qcont\<close> is the byte stream a queue holds, \<open>qmsgs\<close> its messages.
\<close>

definition qinv :: "Queue \<Rightarrow> bool" where
  "qinv q \<longleftrightarrow> wfc (q_bfirst q) \<and> q_len q = blockalloclen (q_bfirst q) \<and> q_dlen q = blocklen (q_bfirst q)"

definition qcont :: "Queue \<Rightarrow> byte list" where
  "qcont q = ccont (q_bfirst q)"

definition qmsgs :: "Queue \<Rightarrow> byte list list" where
  "qmsgs q = map bcont (q_bfirst q)"

lemma qcont_qmsgs: "qcont q = concat (qmsgs q)"
  by (simp add: qcont_def qmsgs_def ccont_def)

lemma qinv_state [simp]: "qinv (q\<lparr>q_state := s\<rparr>) = qinv q" "qcont (q\<lparr>q_state := s\<rparr>) = qcont q"
  "qmsgs (q\<lparr>q_state := s\<rparr>) = qmsgs q"
  by (simp_all add: qinv_def qcont_def qmsgs_def)

lemma qrestart_fields [simp]:
  "q_bfirst (fst (qrestart q)) = q_bfirst q" "q_len (fst (qrestart q)) = q_len q"
  "q_dlen (fst (qrestart q)) = q_dlen q" "q_limit (fst (qrestart q)) = q_limit q"
  "q_noblock (fst (qrestart q)) = q_noblock q" "q_kick (fst (qrestart q)) = q_kick q"
  "q_bypass (fst (qrestart q)) = q_bypass q" "q_err (fst (qrestart q)) = q_err q" "q_eof (fst (qrestart q)) = q_eof q"
  "qinv (fst (qrestart q)) = qinv q" "qcont (fst (qrestart q)) = qcont q" "qmsgs (fst (qrestart q)) = qmsgs q"
  by (simp_all add: qrestart_def)

lemma qunstarve_fields [simp]:
  "q_bfirst (fst (qunstarve q)) = q_bfirst q" "q_len (fst (qunstarve q)) = q_len q"
  "q_dlen (fst (qunstarve q)) = q_dlen q" "q_limit (fst (qunstarve q)) = q_limit q"
  "q_noblock (fst (qunstarve q)) = q_noblock q" "q_kick (fst (qunstarve q)) = q_kick q"
  "q_bypass (fst (qunstarve q)) = q_bypass q" "q_err (fst (qunstarve q)) = q_err q" "q_eof (fst (qunstarve q)) = q_eof q"
  "qinv (fst (qunstarve q)) = qinv q" "qcont (fst (qunstarve q)) = qcont q" "qmsgs (fst (qunstarve q)) = qmsgs q"
  by (simp_all add: qunstarve_def)

lemma qflag_tests [simp]:
  "tst Qstarve Qmsg = False" "tst Qstarve Qclosed = False" "tst Qstarve Qflow = False"
  "tst Qstarve Qcoalesce = False" "tst Qstarve Qkick = False" "tst Qstarve Qstarve = True"
  "tst Qflow Qmsg = False" "tst Qflow Qclosed = False" "tst Qflow Qflow = True"
  "tst Qflow Qcoalesce = False" "tst Qflow Qkick = False" "tst Qflow Qstarve = False"
  "tst Qclosed Qmsg = False" "tst Qclosed Qclosed = True" "tst Qclosed Qflow = False"
  "tst Qclosed Qcoalesce = False" "tst Qclosed Qkick = False" "tst Qclosed Qstarve = False"
  by (simp_all add: tst_def qflag_defs)

lemma qflag_clears [simp]:
  "tst (clrf w Qstarve) Qmsg = tst w Qmsg" "tst (clrf w Qstarve) Qclosed = tst w Qclosed"
  "tst (clrf w Qstarve) Qflow = tst w Qflow" "tst (clrf w Qstarve) Qcoalesce = tst w Qcoalesce"
  "tst (clrf w Qstarve) Qkick = tst w Qkick"
  "tst (clrf w Qflow) Qmsg = tst w Qmsg" "tst (clrf w Qflow) Qclosed = tst w Qclosed"
  "tst (clrf w Qflow) Qstarve = tst w Qstarve" "tst (clrf w Qflow) Qcoalesce = tst w Qcoalesce"
  "tst (clrf w Qflow) Qkick = tst w Qkick"
  "tst (clrf w Qclosed) Qmsg = tst w Qmsg" "tst (clrf w Qclosed) Qflow = tst w Qflow"
  "tst (clrf w Qclosed) Qstarve = tst w Qstarve" "tst (clrf w Qclosed) Qcoalesce = tst w Qcoalesce"
  "tst (clrf w Qclosed) Qkick = tst w Qkick"
  by (simp_all add: tst_clrf qflag_defs)

lemma clrf_or: "clrf w (f OR g) = clrf (clrf w f) g"
  by (simp add: clrf_def ac_simps)

lemma qrestart_flags [simp]:
  "tst (q_state (fst (qrestart q))) Qmsg = tst (q_state q) Qmsg"
  "tst (q_state (fst (qrestart q))) Qclosed = tst (q_state q) Qclosed"
  "tst (q_state (fst (qrestart q))) Qstarve = tst (q_state q) Qstarve"
  "tst (q_state (fst (qrestart q))) Qcoalesce = tst (q_state q) Qcoalesce"
  by (simp_all add: qrestart_def)

lemma qunstarve_flags [simp]:
  "tst (q_state (fst (qunstarve q))) Qmsg = tst (q_state q) Qmsg"
  "tst (q_state (fst (qunstarve q))) Qclosed = tst (q_state q) Qclosed"
  "tst (q_state (fst (qunstarve q))) Qflow = tst (q_state q) Qflow"
  "tst (q_state (fst (qunstarve q))) Qcoalesce = tst (q_state q) Qcoalesce"
  "\<not> tst (q_state (fst (qunstarve q))) Qstarve"
  by (simp_all add: qunstarve_def)

lemma qlink_simps [simp]:
  "q_bfirst (qlink q b) = q_bfirst q @ b" "q_state (qlink q b) = q_state q" "q_limit (qlink q b) = q_limit q"
  "q_noblock (qlink q b) = q_noblock q" "q_kick (qlink q b) = q_kick q" "q_bypass (qlink q b) = q_bypass q"
  "q_err (qlink q b) = q_err q" "q_len (qlink q b) = q_len q + blockalloclen b"
  "qcont (qlink q b) = qcont q @ ccont b" "qmsgs (qlink q b) = qmsgs q @ map bcont b"
  by (simp_all add: qlink_def qcont_def qmsgs_def)

lemma qinv_qlink [simp]: "qinv q \<Longrightarrow> wfc b \<Longrightarrow> qinv (qlink q b)"
  by (simp add: qinv_def qlink_def)

text \<open>The state of a queue after a chain has been unlinked from its head.\<close>

definition qunlink :: "Queue \<Rightarrow> Block list \<Rightarrow> Block list \<Rightarrow> Queue" where
  "qunlink q bs rest = q\<lparr>q_bfirst := rest, q_dlen := q_dlen q - blocklen bs, q_len := q_len q - blockalloclen bs\<rparr>"

lemma qunlink_simps [simp]:
  "q_bfirst (qunlink q bs rest) = rest" "q_state (qunlink q bs rest) = q_state q"
  "q_limit (qunlink q bs rest) = q_limit q" "q_len (qunlink q bs rest) = q_len q - blockalloclen bs"
  "q_kick (qunlink q bs rest) = q_kick q" "q_bypass (qunlink q bs rest) = q_bypass q"
  "qunlink (qunlink q bs rest) cs rest' = qunlink q (bs @ cs) rest'"
  "qcont (qunlink q bs rest) = ccont rest" "qmsgs (qunlink q bs rest) = map bcont rest"
  by (simp_all add: qunlink_def qcont_def qmsgs_def)

lemma qinv_qunlink [simp]: "qinv q \<Longrightarrow> q_bfirst q = bs @ rest \<Longrightarrow> qinv (qunlink q bs rest)"
  by (simp add: qinv_def qunlink_def)

lemma qremove_Cons [simp]: "q_bfirst q = b # nxt \<Longrightarrow> qremove q = (Some b, qunlink q [b] nxt)"
  by (simp add: qremove_def qunlink_def)

lemma qputback_unlink:
  "qinv q \<Longrightarrow> q_bfirst q = rest \<Longrightarrow> wfb b \<Longrightarrow> qinv (qputback q b)"
  "qcont (qputback q b) = bcont b @ qcont q" "qmsgs (qputback q b) = bcont b # qmsgs q"
  "q_bfirst (qputback q b) = b # q_bfirst q" "q_state (qputback q b) = q_state q"
  by (simp_all add: qputback_def qinv_def qcont_def qmsgs_def)

lemma qwakeup_iunlock_fields [simp]:
  "q_bfirst (fst (qwakeup_iunlock q)) = q_bfirst q"
  "qinv (fst (qwakeup_iunlock q)) = qinv q" "qcont (fst (qwakeup_iunlock q)) = qcont q"
  "qmsgs (fst (qwakeup_iunlock q)) = qmsgs q"
  by (simp_all add: qwakeup_iunlock_def split: prod.split) (metis fst_conv qrestart_fields)+

section \<open>Reading: the bytes that come out\<close>

lemma qgrab_ok:
  assumes "qgrab q n len = ((first, m), q')" "q_bfirst q \<noteq> []"
  shows "\<exists>rest. q_bfirst q = first @ rest \<and> first \<noteq> [] \<and> q' = qunlink q first rest \<and> m = n + blocklen first \<and>
    (length first = 1 \<or> m \<le> len)"
  using assms
proof (induction q n len arbitrary: first m rule: qgrab.induct)
  case (1 q n len)
  obtain b nxt where q: "q_bfirst q = b # nxt" using "1.prems" by (cases "q_bfirst q") auto
  show ?case
  proof (cases "nxt = [] \<or> n + BLEN b + BLEN (hd nxt) > len")
    case True
    then have "first = [b] \<and> m = n + BLEN b \<and> q' = qunlink q [b] nxt"
      using "1.prems"(1) q by (subst (asm) qgrab.simps) (auto simp: Let_def split: list.splits)
    then show ?thesis using q by auto
  next
    case False
    then obtain b' nxt' where nxt: "nxt = b' # nxt'" by (cases nxt) auto
    obtain bs m' where g: "qgrab (qunlink q [b] nxt) (n + BLEN b) len = ((bs, m'), q')"
      and r: "first = b # bs" "m = m'"
      using "1.prems"(1) q False nxt by (subst (asm) qgrab.simps) (auto simp: Let_def split: prod.splits)
    have "\<exists>rest. q_bfirst (qunlink q [b] nxt) = bs @ rest \<and> bs \<noteq> [] \<and> q' = qunlink (qunlink q [b] nxt) bs rest \<and>
      m' = n + BLEN b + blocklen bs \<and> (length bs = 1 \<or> m' \<le> len)"
      by (rule "1.IH" [OF q _ _ nxt, of "qunlink q [b] nxt"]) (use q nxt g False in auto)
    then obtain rest where rest: "nxt = bs @ rest" "bs \<noteq> []" "q' = qunlink q (b # bs) rest"
      "m' = n + BLEN b + blocklen bs" "length bs = 1 \<or> m' \<le> len" by auto
    have "m \<le> len"
    proof (cases "length bs = 1")
      case True
      then have "bs = [b']" using rest(1) nxt by (cases bs) auto
      then show ?thesis using False nxt rest r by simp
    qed (use rest r in auto)
    then show ?thesis using rest r q by auto
  qed
qed

text \<open>What the first region of a read does to the queue.\<close>

definition took :: "Queue \<Rightarrow> Kern \<Rightarrow> int \<Rightarrow> Block list \<Rightarrow> int \<Rightarrow> Queue \<Rightarrow> Kern \<Rightarrow> bool" where
  "took q k len first n q' k' \<longleftrightarrow> (\<exists>ds rest. q_bfirst q = ds @ first @ rest \<and> blocklen ds = 0 \<and> ccont ds = [] \<and>
     first \<noteq> [] \<and> (length first = 1 \<or> blocklen first \<le> len) \<and> n = blocklen first \<and>
     q' = qunlink q (ds @ first) rest \<and> k' = freeblist ds k \<and>
     (if tst (q_state q) Qcoalesce then 0 < BLEN (hd first) else ds = [] \<and> length first = 1))"

definition drained :: "Queue \<Rightarrow> Kern \<Rightarrow> byte list out \<Rightarrow> Queue \<Rightarrow> Kern \<Rightarrow> bool" where
  "drained q k r q' k' \<longleftrightarrow> q_bfirst q' = [] \<and> ccont (q_bfirst q) = [] \<and> k' = freeblist (q_bfirst q) k \<and> qinv q' \<and>
     (q_bfirst q = [] \<or> tst (q_state q) Qcoalesce) \<and>
     (case r of Ret _ \<Rightarrow> tst (q_state q) Qclosed \<and> q_eof q < 3
      | Error e \<Rightarrow> tst (q_state q) Qclosed \<and> e = q_err q
      | Sleep _ \<Rightarrow> \<not> tst (q_state q) Qclosed \<and> q_state q' = setf (q_state q) Qstarve)"

lemma bcont_empty: "wfb b \<Longrightarrow> BLEN b \<le> 0 \<Longrightarrow> bcont b = [] \<and> BLEN b = 0"
  using wfb_nonneg(1) [of b] by (simp add: bcont_def)

lemma qread_take_ok:
  assumes "qinv q"
  shows "case qread_take q len k of ((t, q'), k') \<Rightarrow> (case t of
      Took first n \<Rightarrow> took q k len first n q' k' | NoData r \<Rightarrow> drained q k r q' k')"
  using assms
proof (induction q len k rule: qread_take.induct)
  case (1 q len k)
  show ?case
  proof (cases "q_bfirst q")
    case Nil
    then show ?thesis
      using "1.prems" by (subst qread_take.simps) (auto simp: qwait_def drained_def qinv_def Let_def)
  next
    case (Cons b nxt)
    note q = Cons
    have w: "qwait q = (Data, q)" using q by (simp add: qwait_def)
    have wf: "wfb b" using "1.prems" q by (simp add: qinv_def)
    show ?thesis
    proof (cases "tst (q_state q) Qcoalesce")
      case co: True
      show ?thesis
      proof (cases "BLEN b \<le> 0")
        case True
        let ?q = "qunlink q [b] nxt"
        have e: "qread_take q len k = qread_take ?q len (freeb b k)"
          using w q co True by (subst qread_take.simps) simp
        have inv: "qinv ?q" and rm: "snd (qremove q) = ?q" using "1.prems" q by simp_all
        have IH: "case qread_take ?q len (freeb b k) of ((t, q'), k') \<Rightarrow> (case t of
            Took first n \<Rightarrow> took ?q (freeb b k) len first n q' k' | NoData r \<Rightarrow> drained ?q (freeb b k) r q' k')"
          using "1.IH" [of Data q b nxt, unfolded rm] w q co True inv by simp
        have t: "took ?q (freeb b k) len first n q' k' \<Longrightarrow> took q k len first n q' k'" for first n q' k'
        proof -
          assume "took ?q (freeb b k) len first n q' k'"
          then obtain ds rest where "nxt = ds @ first @ rest" "blocklen ds = 0" "ccont ds = []" "first \<noteq> []"
            "length first = 1 \<or> blocklen first \<le> len" "n = blocklen first" "q' = qunlink q ((b # ds) @ first) rest"
            "k' = freeblist (b # ds) k" "0 < BLEN (hd first)"
            using co by (auto simp: took_def)
          then show ?thesis
            unfolding took_def using q co bcont_empty [OF wf True]
            by (intro exI [of _ "b # ds"] exI [of _ rest]) auto
        qed
        have d: "drained ?q (freeb b k) r q' k' \<Longrightarrow> drained q k r q' k'" for r q' k'
          using q co bcont_empty [OF wf True] by (auto simp: drained_def qunlink_def split: out.splits)
        show ?thesis
          unfolding e using IH t d by (auto split: prod.splits taken.splits)
      next
        case False
        obtain first n q' where g: "qgrab q 0 len = ((first, n), q')"
          by (metis prod.exhaust)
        then have e: "qread_take q len k = ((Took first n, q'), k)"
          using w q co False by (subst qread_take.simps) simp
        obtain rest where r: "q_bfirst q = first @ rest" "first \<noteq> []" "q' = qunlink q first rest" "n = blocklen first"
          "length first = 1 \<or> n \<le> len"
          using qgrab_ok [OF g] q by auto
        then have "hd first = b" using q by (cases first) auto
        then show ?thesis
          unfolding e prod.case taken.case took_def using r False co
          by (intro exI [of _ "[]"] exI [of _ rest]) auto
      qed
    next
      case False
      then have e: "qread_take q len k = ((Took [b] (BLEN b), qunlink q [b] nxt), k)"
        using w q by (subst qread_take.simps) simp
      show ?thesis
        unfolding e prod.case taken.case took_def using q False
        by (intro exI [of _ "[]"] exI [of _ nxt]) auto
    qed
  qed
qed

lemma qread_finish_ok:
  assumes "qinv q" "wfc rest" "length rest \<le> 1" "qread_finish q n rest k = ((m, q', ev), k')"
  shows "qinv q' \<and> m = n - blocklen rest \<and> acct k' (q_bfirst q') = acct k (rest @ q_bfirst q) \<and>
    qmsgs q' = (if tst (q_state q) Qmsg then qmsgs q else map bcont rest @ qmsgs q) \<and> mem_avail k' = mem_avail k"
proof (cases rest)
  case Nil
  then show ?thesis
    using assms by (auto simp: qread_finish_def Let_def split: prod.splits) (metis fst_conv qwakeup_iunlock_fields)+
next
  case (Cons b bs)
  then have r: "rest = [b]" using assms(3) by simp
  let ?q = "if tst (q_state q) Qmsg then q else qputback q b"
  have q': "q' = fst (qwakeup_iunlock ?q)" and k': "k' = (if tst (q_state q) Qmsg then freeb b k else k)"
    and m: "m = n - BLEN b"
    using assms(4) r by (auto simp: qread_finish_def Let_def split: prod.splits if_splits)
  then show ?thesis
    using assms(1,2) r by (auto simp: qputback_unlink)
qed

text \<open>
  A read of a byte stream: what is returned is a prefix of the queue's bytes and the rest
  stays, in order; nothing is lost and nothing leaks.
\<close>

lemma qread_stream_ok:
  assumes "qinv q" "\<not> tst (q_state q) Qmsg" "0 \<le> len"
  shows "kok (qread q len k) (\<lambda>(r, q', ev) k'. qinv q' \<and> acct k' (q_bfirst q') = acct k (q_bfirst q) \<and>
    mem_avail k' = mem_avail k \<and> (case r of
      Ret (n, vp) \<Rightarrow> qcont q = vp @ qcont q' \<and> n = int (length vp) \<and> n \<le> len \<and>
        (qcont q \<noteq> [] \<and> 0 < len \<and> tst (q_state q) Qcoalesce \<longrightarrow> vp \<noteq> [])
    | Sleep _ \<Rightarrow> qcont q = [] \<and> q_bfirst q' = [] \<and> \<not> tst (q_state q) Qclosed
    | Error e \<Rightarrow> qcont q = [] \<and> q_bfirst q' = [] \<and> tst (q_state q) Qclosed \<and> e = q_err q))"
    (is "kok _ ?post")
proof -
  obtain t q1 k1 where t: "qread_take q len k = ((t, q1), k1)" by (metis prod.exhaust)
  note T = qread_take_ok [OF assms(1), where len = len and k = k, unfolded t prod.case]
  show ?thesis
  proof (cases t)
    case (NoData r)
    have d: "drained q k r q1 k1" using T NoData by simp
    then show ?thesis
      using t NoData assms(3) by (auto simp: qread_def drained_def qcont_def split: out.splits)
  next
    case (Took first n)
    obtain ds rest where q: "q_bfirst q = ds @ first @ rest" "ccont ds = []" "first \<noteq> []"
      "length first = 1 \<or> blocklen first \<le> len" "n = blocklen first"
      "q1 = qunlink q (ds @ first) rest" "k1 = freeblist ds k"
      "tst (q_state q) Qcoalesce \<longrightarrow> 0 < BLEN (hd first)"
    proof -
      from T Took have "took q k len first n q1 k1" by simp
      then show thesis
        unfolding took_def by (elim exE conjE) (rule that, auto split: if_splits)
    qed
    have wf: "wfc ds" "wfc first" "wfc rest" using assms(1) q by (auto simp: qinv_def)
    have inv1: "qinv q1" and c1: "qcont q1 = ccont rest" using assms(1) q by simp_all
    have e: "qread q len k = kbind (bl2mem first len k1) (\<lambda>(vp, rest) k.
         let ((n, q, ev), k) = qread_finish q1 n rest k in Inr ((Ret (n, vp), q, ev), k))"
      using t Took by (simp add: qread_def)
    have nonempty: "ccont first \<noteq> []" if "tst (q_state q) Qcoalesce"
    proof -
      have "0 < blocklen first"
        using q(3,8) that wf(2) blocklen_nonneg [of "tl first"] by (cases first) auto
      then show ?thesis using length_ccont [OF wf(2)] by auto
    qed
    have "kok (bl2mem first len k1) (\<lambda>(vp, r2) k2. vp = take (nat len) (ccont first) \<and> wfc r2 \<and>
       ccont r2 = drop (nat len) (ccont first) \<and> acct k2 r2 = acct k1 first \<and> mem_avail k2 = mem_avail k1 \<and>
       length r2 \<le> 1)"
      by (rule kok_mono [OF bl2mem_ok [OF wf(2) assms(3), of k1]]) (use q(4) in auto)
    then show ?thesis
      unfolding e
    proof (rule kok_bindI)
      fix x k2
      assume x: "(\<lambda>(vp, r2) k2. vp = take (nat len) (ccont first) \<and> wfc r2 \<and>
       ccont r2 = drop (nat len) (ccont first) \<and> acct k2 r2 = acct k1 first \<and> mem_avail k2 = mem_avail k1 \<and>
       length r2 \<le> 1) x k2"
      obtain vp r2 where xe: "x = (vp, r2)" by (cases x)
      have h: "wfc r2" "ccont r2 = drop (nat len) (ccont first)" "acct k2 r2 = acct k1 first"
        "mem_avail k2 = mem_avail k1" "length r2 \<le> Suc 0" "vp = take (nat len) (ccont first)"
        using x xe by auto
      obtain m q' ev k' where f: "qread_finish q1 n r2 k2 = ((m, q', ev), k')" by (metis prod.exhaust)
      from qread_finish_ok [OF inv1 h(1) _ f] h(5)
      have F: "qinv q'" "m = n - blocklen r2" "acct k' (q_bfirst q') = acct k2 (r2 @ q_bfirst q1)"
        "qmsgs q' = map bcont r2 @ qmsgs q1" "mem_avail k' = mem_avail k2"
        using assms(2) q(6) by auto
      have cont: "qcont q' = drop (nat len) (ccont first) @ ccont rest"
        using F(4) h(2) q(6) by (simp add: qcont_qmsgs) (simp add: ccont_def)
      have lens: "blocklen r2 = blocklen first - int (length (take (nat len) (ccont first)))"
        using length_ccont [OF h(1)] length_ccont [OF wf(2)] h(2) by simp
      have acct: "acct k' (q_bfirst q') = acct k (q_bfirst q)"
      proof -
        have "acct k2 (r2 @ rest) = acct k1 (first @ rest)"
          using h(3) by (simp add: acct_def)
        then show ?thesis using F(3) q(1,6,7) by simp
      qed
      show "kok ((\<lambda>(vp, rest) k.
         let ((n, q, ev), k) = qread_finish q1 n rest k in Inr ((Ret (n, vp), q, ev), k)) x k2) ?post"
        unfolding xe prod.case f Let_def using F acct cont lens h(4,6) q assms(3) nonempty by (auto simp: qcont_def)
    qed
  qed
qed

text \<open>A message queue gives its first message, cut to the size asked for; the cut-off part is lost.\<close>

lemma qread_msg_ok:
  assumes "qinv q" "tst (q_state q) Qmsg" "\<not> tst (q_state q) Qcoalesce" "0 \<le> len" "q_bfirst q = b # nxt"
  shows "kok (qread q len k) (\<lambda>(r, q', ev) k'. qinv q' \<and> acct k' (q_bfirst q') = acct k (q_bfirst q) \<and>
    r = Ret (min len (BLEN b), take (nat len) (bcont b)) \<and> qmsgs q' = map bcont nxt)"
proof -
  have wf: "wfb b" using assms by (simp add: qinv_def)
  have w: "qwait q = (Data, q)" using assms(5) by (simp add: qwait_def)
  have t: "qread_take q len k = ((Took [b] (BLEN b), qunlink q [b] nxt), k)"
    using w assms by (subst qread_take.simps) simp
  have "kok (bl2mem [b] len k) (\<lambda>(vp, r2) k2. vp = take (nat len) (bcont b) \<and> wfc r2 \<and>
     ccont r2 = drop (nat len) (bcont b) \<and> acct k2 r2 = acct k [b] \<and> length r2 \<le> 1)"
    by (rule kok_mono [OF bl2mem_ok [of "[b]" len k]]) (use wf assms(4) in auto)
  then obtain vp r2 k2 where m: "bl2mem [b] len k = Inr ((vp, r2), k2)" and vp: "vp = take (nat len) (bcont b)"
    and r2: "wfc r2" "ccont r2 = drop (nat len) (bcont b)" "acct k2 r2 = acct k [b]" "length r2 \<le> 1"
    by (auto simp: kok_returns)
  obtain n q' ev k' where f: "qread_finish (qunlink q [b] nxt) (BLEN b) r2 k2 = ((n, q', ev), k')"
    by (metis prod.exhaust)
  have inv: "qinv (qunlink q [b] nxt)" using assms by simp
  note F = qread_finish_ok [OF inv r2(1,4) f]
  have "blocklen r2 = max 0 (BLEN b - len)"
    using length_ccont [OF r2(1)] r2(2) wf assms(4) wfb_nonneg(1) [OF wf] by simp
  then have "n = min len (BLEN b)" using F by simp
  moreover have "acct k2 (r2 @ nxt) = acct k (b # nxt)"
    using r2(3) by (simp add: acct_def)
  ultimately show ?thesis
    using F t m f vp assms(2,5) by (simp add: qread_def)
qed

section \<open>The other ways out of a queue\<close>

lemma qget_ok:
  assumes "qinv q" "qget q = (r, q', ev)"
  shows "qinv q' \<and> (case r of None \<Rightarrow> q_bfirst q = [] \<and> q_bfirst q' = [] \<and> tst (q_state q') Qstarve
    | Some b \<Rightarrow> wfb b \<and> q_bfirst q = b # q_bfirst q')"
proof (cases "q_bfirst q")
  case (Cons b nxt)
  let ?q = "q\<lparr>q_bfirst := nxt, q_len := q_len q - BALLOC b, q_dlen := q_dlen q - BLEN b\<rparr>"
  have r: "r = Some b" and q': "q' = fst (qrestart ?q)"
    using assms(2) Cons by (auto simp: qget_def Let_def split: prod.splits)
  have "qinv ?q" using assms(1) Cons by (simp add: qinv_def)
  then show ?thesis using Cons assms(1) r by (simp add: q' qinv_def)
qed (use assms in \<open>auto simp: qget_def\<close>)

lemma qdiscard_loop_ok:
  assumes "qinv q" "sofar \<le> len" "qdiscard_loop q len sofar k = ((m, q'), k')"
  shows "qinv q' \<and> m = sofar + min (len - sofar) (blocklen (q_bfirst q)) \<and>
    qcont q' = drop (nat (m - sofar)) (qcont q) \<and> acct k' (q_bfirst q') = acct k (q_bfirst q) \<and>
    q_state q' = q_state q \<and> q_limit q' = q_limit q"
  using assms
proof (induction q len sofar k arbitrary: m rule: qdiscard_loop.induct)
  case (1 q len sofar k)
  have wfq: "wfc (q_bfirst q)" using "1.prems" by (simp add: qinv_def)
  consider (stop) "sofar = len" | (nil) "sofar < len" "q_bfirst q = []"
    | (cons) b nxt where "sofar < len" "q_bfirst q = b # nxt"
    using "1.prems"(2) by (cases "q_bfirst q") force+
  then show ?case
  proof cases
    case stop
    then show ?thesis
      using "1.prems" blocklen_nonneg [OF wfq] by (subst (asm) qdiscard_loop.simps) auto
  next
    case nil
    then show ?thesis using "1.prems" by (subst (asm) qdiscard_loop.simps) (auto simp: qcont_def)
  next
    case cons
    have wf: "wfb b" "wfc nxt" using wfq cons by simp_all
    have nn: "0 \<le> BLEN b" "0 \<le> blocklen nxt" using wf by (simp_all add: wfb_nonneg blocklen_nonneg)
    show ?thesis
    proof (cases "BLEN b \<le> len - sofar")
      case True
      let ?q = "q\<lparr>q_bfirst := nxt, q_len := q_len q - BALLOC b, q_dlen := q_dlen q - BLEN b\<rparr>"
      have inv: "qinv ?q" using "1.prems" cons by (simp add: qinv_def)
      have e: "qdiscard_loop ?q len (sofar + BLEN b) (freeb b k) = ((m, q'), k')"
        using "1.prems"(3) cons True by (subst (asm) qdiscard_loop.simps) (simp add: Let_def)
      have IH: "qinv q' \<and> m = sofar + BLEN b + min (len - (sofar + BLEN b)) (blocklen (q_bfirst ?q)) \<and>
        qcont q' = drop (nat (m - (sofar + BLEN b))) (qcont ?q) \<and>
        acct k' (q_bfirst q') = acct (freeb b k) (q_bfirst ?q) \<and> q_state q' = q_state ?q \<and> q_limit q' = q_limit ?q"
        by (rule "1.IH"(1) [OF cons refl]) (use True inv e in auto)
      then have m: "BLEN b \<le> m - sofar" using nn True by auto
      then have "nat (m - sofar) - length (bcont b) = nat (m - (sofar + BLEN b))"
        using wf nn by (simp add: nat_diff_distrib)
      then show ?thesis
        using IH cons True nn m wf by (auto simp: qcont_def)
    next
      case False
      let ?b = "b\<lparr>b_rp := b_rp b + (len - sofar)\<rparr>"
      let ?q = "q\<lparr>q_bfirst := ?b # nxt, q_dlen := q_dlen q - (len - sofar)\<rparr>"
      have "qdiscard_loop ?q len len k = ((m, q'), k')"
        using "1.prems"(3) cons False by (subst (asm) qdiscard_loop.simps) (simp add: Let_def)
      then have "m = len" "q' = ?q" "k' = k" by (subst (asm) qdiscard_loop.simps, simp)+
      then show ?thesis
        using "1.prems" cons False nn wf by (simp add: qinv_def qcont_def wfb_adv bcont_adv acct_Cons)
    qed
  qed
qed

lemma qdiscard_ok:
  assumes "qinv q" "0 \<le> len"
  shows "kok (qdiscard q len k) (\<lambda>(m, q', ev) k'. qinv q' \<and> m = min len (q_dlen q) \<and>
    qcont q' = drop (nat m) (qcont q) \<and> acct k' (q_bfirst q') = acct k (q_bfirst q))"
proof -
  obtain m q1 k1 where d: "qdiscard_loop q len 0 k = ((m, q1), k1)" by (metis prod.exhaust)
  have e: "qdiscard q len k = Inr ((m, fst (qrestart q1), if snd (qrestart q1) then [WakeW] else []), k1)"
    by (simp add: qdiscard_def d split: prod.split)
  show ?thesis
    unfolding e using qdiscard_loop_ok [OF assms(1,2) d] assms(1) by (auto simp: qinv_def [of q])
qed

lemma qconsume_skip_ok:
  assumes "wfc bs" "qconsume_skip bs l tofree = (cs, l', tf)"
  shows "\<exists>ds. bs = ds @ cs \<and> tf = rev ds @ tofree \<and> ccont ds = [] \<and> blocklen ds = 0 \<and> l' = l - blockalloclen ds \<and>
    (cs \<noteq> [] \<longrightarrow> 0 < BLEN (hd cs))"
  using assms
proof (induction bs l tofree rule: qconsume_skip.induct)
  case (2 b nxt l tofree)
  show ?case
  proof (cases "BLEN b > 0")
    case False
    then obtain ds where "nxt = ds @ cs \<and> tf = rev ds @ b # tofree \<and> ccont ds = [] \<and> blocklen ds = 0 \<and>
      l' = l - BALLOC b - blockalloclen ds \<and> (cs \<noteq> [] \<longrightarrow> 0 < BLEN (hd cs))"
      using 2 by auto
    then show ?thesis
      using False "2.prems" bcont_empty [of b] by (intro exI [of _ "b # ds"]) auto
  qed (use 2 in auto)
qed simp

text \<open>
  \<open>qconsume\<close> with data queued: it returns the head of the first non-empty block, and the blocks
  it is done with are freed.
\<close>

lemma qconsume_ok:
  assumes "qinv q" "0 \<le> len" "qcont q \<noteq> []"
  shows "kok (qconsume q len k) (\<lambda>((n, p), q', ev) k'. qinv q' \<and> n = int (length p) \<and> n \<le> len \<and>
    (0 < len \<longrightarrow> p \<noteq> []) \<and> acct k' (q_bfirst q') = acct k (q_bfirst q) \<and>
    (if tst (q_state q) Qmsg then p = take (nat len) (hd (filter (\<lambda>m. m \<noteq> []) (qmsgs q)))
     else qcont q = p @ qcont q'))"
proof -
  obtain cs l tf where s: "qconsume_skip (q_bfirst q) (q_len q) [] = (cs, l, tf)" by (metis prod.exhaust)
  have wfq: "wfc (q_bfirst q)" using assms(1) by (simp add: qinv_def)
  from qconsume_skip_ok [OF wfq s] obtain ds where
    ds: "q_bfirst q = ds @ cs" "tf = rev ds" "ccont ds = []" "blocklen ds = 0" "l = q_len q - blockalloclen ds"
      "cs \<noteq> [] \<longrightarrow> 0 < BLEN (hd cs)" by auto
  obtain b nxt where cs: "cs = b # nxt" using assms(3) ds by (cases cs) (auto simp: qcont_def)
  have wf: "wfb b" "wfc nxt" "wfc ds" and pos: "0 < BLEN b" using wfq ds cs by auto
  define m where "m = (if BLEN b < len then BLEN b else len)"
  have m: "0 \<le> m" "m \<le> BLEN b" "m \<le> len" "0 < len \<longrightarrow> 0 < m" using pos assms(2) by (auto simp: m_def)
  let ?b = "b\<lparr>b_rp := b_rp b + m\<rparr>"
  let ?drop = "tst (q_state q) Qmsg \<or> m = BLEN b"
  define q1 where "q1 = (if ?drop then q\<lparr>q_bfirst := nxt, q_len := l - BALLOC b, q_dlen := q_dlen q - m - BLEN ?b\<rparr>
    else q\<lparr>q_len := l, q_bfirst := ?b # nxt, q_dlen := q_dlen q - m\<rparr>)"
  define tf1 where "tf1 = (if ?drop then ?b # tf else tf)"
  have e: "qconsume q len k = Inr (((m, take (nat m) (bcont b)), fst (qrestart q1),
      if snd (qrestart q1) then [WakeW] else []), freeblist tf1 (k\<lparr>k_consumecnt := k_consumecnt k + of_int (BLEN b)\<rparr>))"
    using wf m by (simp add: qconsume_def s cs Let_def m_def [symmetric] q1_def tf1_def split: prod.split)
  have inv1: "qinv q1" using assms(1) ds cs wf m by (auto simp: q1_def qinv_def wfb_adv)
  have acct1: "acct k (tf1 @ q_bfirst q1) = acct k (q_bfirst q)"
  proof -
    have "acct k (rev ds @ xs) = acct k (ds @ xs)" for xs by (rule acct_perm) simp
    moreover have "acct k (?b # ds @ nxt) = acct k (ds @ b # nxt)"
      using acct_perm [of "b # ds @ nxt" "ds @ b # nxt" k] by (simp add: acct_Cons)
    moreover have "acct k (ds @ ?b # nxt) = acct k (ds @ b # nxt)"
      by (simp add: acct_simps)
    ultimately show ?thesis by (simp add: tf1_def q1_def ds cs acct_Cons)
  qed
  have "filter (\<lambda>m. m \<noteq> []) (map bcont ds) = []"
    using ds(3) by (auto simp: ccont_def filter_empty_conv)
  moreover have ne: "bcont b \<noteq> []" using length_bcont [OF wf(1)] pos by (metis list.size(3) less_irrefl zero_less_nat_eq)
  ultimately have hd: "hd (filter (\<lambda>m. m \<noteq> []) (qmsgs q)) = bcont b"
    by (simp add: qmsgs_def ds cs)
  have "take (nat len) (bcont b) = take (nat m) (bcont b)"
    using wf assms(2) by (simp add: m_def)
  then show ?thesis
    unfolding e using m inv1 acct1 hd ne wf ds(3)
    by (auto simp: qcont_def ds(1) cs q1_def bcont_adv min_def split: if_splits)
qed

text \<open>
  With nothing but empty blocks queued, \<open>qconsume\<close> unlinks them all and returns -1 without
  freeing them: the budget of interrupt-time blocks never gets their bytes back.
\<close>

lemma qconsume_empty:
  assumes "qinv q" "qcont q = []"
  shows "\<exists>q'. qconsume q len k = Inr (((-1, []), q', []), k) \<and> q_bfirst q' = [] \<and> qinv q'"
proof -
  obtain cs l tf where s: "qconsume_skip (q_bfirst q) (q_len q) [] = (cs, l, tf)" by (metis prod.exhaust)
  have wfq: "wfc (q_bfirst q)" using assms(1) by (simp add: qinv_def)
  from qconsume_skip_ok [OF wfq s] obtain ds where
    ds: "q_bfirst q = ds @ cs" "tf = rev ds" "ccont ds = []" "blocklen ds = 0" "l = q_len q - blockalloclen ds"
      "cs \<noteq> [] \<longrightarrow> 0 < BLEN (hd cs)" by auto
  have "cs = []"
  proof (rule ccontr)
    assume ne: "cs \<noteq> []"
    then have "wfb (hd cs)" "0 < BLEN (hd cs)" using wfq ds by (cases cs; simp)+
    then have "length (bcont (hd cs)) \<noteq> 0" by simp
    then show False using assms(2) ne ds(1) by (cases cs) (auto simp: qcont_def)
  qed
  then have "qconsume q len k =
      Inr (((-1, []), q\<lparr>q_bfirst := [], q_len := l, q_state := setf (q_state q) Qstarve\<rparr>, []), k)"
    by (simp add: qconsume_def s)
  then show ?thesis
    using assms ds \<open>cs = []\<close> by (simp add: qinv_def)
qed

section \<open>Ways in\<close>

lemma qpassnolim_ok:
  assumes "qinv q" "wfc b" "b \<noteq> []"
  shows "kok (qpassnolim q b k) (\<lambda>(n, q', ev) k'. qinv q' \<and> acct k' (q_bfirst q') = acct k (q_bfirst q @ b) \<and>
    (if tst (q_state q) Qclosed then q' = q \<and> n = BALLOC (hd b) \<and> ev = []
     else qmsgs q' = qmsgs q @ map bcont b \<and> n = blockalloclen b \<and> \<not> tst (q_state q') Qstarve \<and>
       ev = (if tst (q_state q) Qstarve then [WakeR] else [])))"
proof -
  obtain b0 bs where b: "b = b0 # bs" using assms(3) by (cases b) auto
  show ?thesis
  proof (cases "tst (q_state q) Qclosed")
    case True
    have "acct k (b @ q_bfirst q) = acct k (q_bfirst q @ b)" by (rule acct_perm) simp
    then show ?thesis
      using True assms(1) b by (simp add: qpassnolim_def del: freeblist.simps)
  next
    case False
    define q1 where "q1 = (let q = qlink q b in
      if q_len q \<ge> q_limit q sdiv 2 then q\<lparr>q_state := setf (q_state q) Qflow\<rparr> else q)"
    have e: "qpassnolim q b k = Inr ((blockalloclen b, fst (qunstarve q1), if snd (qunstarve q1) then [WakeR] else []), k)"
      using False by (simp add: qpassnolim_def b q1_def Let_def split: prod.split)
    have "qinv q1" "qmsgs q1 = qmsgs q @ map bcont b" "q_bfirst q1 = q_bfirst q @ b"
      "tst (q_state q1) Qstarve = tst (q_state q) Qstarve"
      using assms by (simp_all add: q1_def Let_def)
    moreover have "snd (qunstarve q1) = tst (q_state q1) Qstarve"
      by (simp add: qunstarve_def)
    ultimately show ?thesis unfolding e using False by simp
  qed
qed

lemma qpass_full: "q_limit q \<le> q_len q \<Longrightarrow> qpass q b k = Inr ((-1, q, []), freeblist b k)"
  by (simp add: qpass_def)

lemma qpass_room: "q_len q < q_limit q \<Longrightarrow> qpass q b k = qpassnolim q b k"
  by (simp add: qpass_def)

text \<open>A block queued by \<open>qlink\<close> with the bytes \<open>bs\<close>, made by an allocator of room \<open>n\<close>.\<close>

lemma fill_new:
  assumes "wfb b" "bcont b = []" "b_wp b + n \<le> b_lim b" "int (length bs) = n"
  shows "memmove_in b (b_wp b) bs k = Inr ((bappend b bs)\<lparr>b_wp := b_wp b\<rparr>, k)"
    and "(bappend b bs)\<lparr>b_wp := b_wp b + n\<rparr> = bappend b bs"
    and "wfb (bappend b bs)" and "bcont (bappend b bs) = bs"
proof -
  show "memmove_in b (b_wp b) bs k = Inr ((bappend b bs)\<lparr>b_wp := b_wp b\<rparr>, k)"
    using assms by (intro memmove_in_end) auto
  show "(bappend b bs)\<lparr>b_wp := b_wp b + n\<rparr> = bappend b bs"
    using bappend_simps(10) [of b bs] assms(4) by simp
  show "wfb (bappend b bs)" "bcont (bappend b bs) = bs"
    using assms by (simp_all add: wfb_bappend bcont_bappend)
qed

lemma qproduce_ok:
  assumes "qinv q" "0 \<le> len" "len \<le> int (length p)" "mem_avail k" "k_mp k \<le> 1000"
  shows "kok (qproduce q p len k) (\<lambda>(n, q', ev) k'. qinv q' \<and> acct k' (q_bfirst q') = acct k (q_bfirst q) \<and>
    (if q_limit q \<le> q_len q then n = -1 \<and> qmsgs q' = qmsgs q \<and> tst (q_state q') Qflow
     else if k_limit k < k_bytes k then n = 0 \<and> q' = q
     else n = len \<and> qmsgs q' = qmsgs q @ [take (nat len) p] \<and> \<not> tst (q_state q') Qstarve \<and>
       ev = (if tst (q_state q) Qstarve then [WakeR] else [])))"
proof (cases "q_limit q \<le> q_len q")
  case True
  then show ?thesis using assms(1) by (simp add: qproduce_def)
next
  case room: False
  let ?bs = "take (nat len) p"
  have len: "int (length ?bs) = len" using assms by simp
  obtain r k1 where al: "iallocb len k = Inr (r, k1)" and r: "case r of
      None \<Rightarrow> k_limit k < k_bytes k \<and> (\<forall>bs. acct k1 bs = acct k bs)
    | Some b \<Rightarrow> fresh len b \<and> (\<forall>bs. acct k1 (b # bs) = acct k bs)"
    using iallocb_ok [OF assms(2,4,5)] by (auto simp: kok_returns)
  have some: "r \<noteq> None \<longleftrightarrow> \<not> k_limit k < k_bytes k"
    using al r by (auto simp: iallocb_def Let_def kbind_def split: if_splits sum.splits option.splits)
  show ?thesis
  proof (cases r)
    case None
    then show ?thesis using room al r assms(1) by (simp add: qproduce_def)
  next
    case (Some b)
    have b: "wfb b" "bcont b = []" "b_wp b + len \<le> b_lim b" and ac: "acct k1 (b # bs) = acct k bs" for bs
      using r Some by (auto simp: fresh_room)
    note f = fill_new [OF b len]
    define q1 where "q1 = fst (qunstarve (qlink q [bappend b ?bs]))"
    define q2 where "q2 = (if q_limit q1 \<le> q_len q1 then q1\<lparr>q_state := setf (q_state q1) Qflow\<rparr> else q1)"
    have e: "qproduce q p len k = Inr ((len, q2, if tst (q_state q) Qstarve then [WakeR] else []),
        k1\<lparr>k_producecnt := k_producecnt k1 + of_int len\<rparr>)"
      using room assms(2,3)
      by (simp add: qproduce_def al Some f q2_def q1_def Let_def) (simp add: qunstarve_def Let_def)
    have "qinv q2" "qmsgs q2 = qmsgs q @ [?bs]" "\<not> tst (q_state q2) Qstarve" "q_bfirst q2 = q_bfirst q @ [bappend b ?bs]"
      using assms(1) f by (simp_all add: q2_def q1_def)
    moreover have "acct k1 (q_bfirst q @ [bappend b ?bs]) = acct k (q_bfirst q)"
      using ac [of "q_bfirst q"] by (simp add: acct_snoc acct_Cons)
    moreover have "\<not> k_limit k < k_bytes k" using some Some by simp
    ultimately show ?thesis unfolding e using room by simp
  qed
qed

end
