(* ===== verification/Qstream.thy ===== *)
theory Qstream
  imports Queue
begin

text \<open>
  Queues as byte streams. The theory completes the lemmas on \<^verbatim>\<open>qio.c\<close> with the routines
  that copy or move bytes in bulk (\<^verbatim>\<open>qcopy\<close>, \<^verbatim>\<open>qbread\<close>, \<^verbatim>\<open>qwrite\<close>,
  \<^verbatim>\<open>qiwrite\<close>), states the contract of a byte channel as a locale, and shows that the
  queue's read and write calls satisfy it, whatever the interleaving of calls.
\<close>

section \<open>Copying from an offset\<close>

lemma memmove_out_at:
  assumes "wfb b" "0 \<le> off" "0 \<le> n" "off + n \<le> BLEN b"
  shows "memmove_out b (b_rp b + off) n k = Inr (take (nat n) (drop (nat off) (bcont b)), k)"
proof -
  let ?b = "b\<lparr>b_rp := b_rp b + off\<rparr>"
  have "memmove_out b (b_rp b + off) n k = memmove_out ?b (b_rp ?b) n k"
    by (simp add: memmove_out_def bread_def)
  also have "\<dots> = Inr (take (nat n) (bcont ?b), k)"
    using assms by (intro memmove_out_head) (auto simp: wfb_adv)
  finally show ?thesis using assms by (simp add: bcont_adv)
qed

lemma copy_at:
  assumes "wfb d" "wfb b" "0 \<le> off" "0 \<le> n" "off + n \<le> BLEN b" "b_wp d + n \<le> b_lim d"
  defines "bs \<equiv> take (nat n) (drop (nat off) (bcont b))"
  shows "memmove_bb d (b_wp d) b (b_rp b + off) n k = Inr ((bappend d bs)\<lparr>b_wp := b_wp d\<rparr>, k)"
    and "(bappend d bs)\<lparr>b_wp := b_wp d + n\<rparr> = bappend d bs"
    and "wfb (bappend d bs)" and "bcont (bappend d bs) = bcont d @ bs" and "int (length bs) = n"
proof -
  show len: "int (length bs) = n" using assms by (simp add: bs_def)
  show "memmove_bb d (b_wp d) b (b_rp b + off) n k = Inr ((bappend d bs)\<lparr>b_wp := b_wp d\<rparr>, k)"
    using assms(1-6) len by (simp add: memmove_bb_def memmove_out_at bs_def [symmetric] memmove_in_end)
  show "(bappend d bs)\<lparr>b_wp := b_wp d + n\<rparr> = bappend d bs"
    using bappend_simps(10) [of d bs] len by simp
  show "wfb (bappend d bs)" "bcont (bappend d bs) = bcont d @ bs"
    using assms(1,6) len by (simp_all add: wfb_bappend bcont_bappend)
qed

lemma qcopy_seek_ok:
  assumes "wfc bs" "sofar \<le> offset"
  shows "case qcopy_seek bs sofar offset of
      None \<Rightarrow> sofar + blocklen bs \<le> offset
    | Some (cs, p, n) \<Rightarrow> \<exists>b nxt off. cs = b # nxt \<and> wfc cs \<and> 0 \<le> off \<and> off < BLEN b \<and> p = b_rp b + off \<and>
        n = BLEN b - off \<and> drop (nat (offset - sofar)) (ccont bs) = drop (nat off) (bcont b) @ ccont nxt"
  using assms
proof (induction bs arbitrary: sofar)
  case (Cons b bs)
  have nn: "0 \<le> BLEN b" using Cons.prems by (simp add: wfb_nonneg)
  show ?case
  proof (cases "sofar + BLEN b > offset")
    case True
    then show ?thesis
      using Cons.prems by (auto simp: Let_def intro!: exI [of _ "offset - sofar"])
  next
    case False
    have "nat (offset - sofar) - length (bcont b) = nat (offset - (sofar + BLEN b))"
      using Cons.prems nn False by (simp add: nat_diff_distrib [symmetric])
    then show ?thesis
      using False Cons.prems Cons.IH [of "sofar + BLEN b"] by (auto simp: Let_def split: option.splits)
  qed
qed simp

lemma qcopy_loop_ok:
  assumes "wfb nb" "wfc (b # nxt)" "0 \<le> off" "off \<le> BLEN b" "sofar \<le> len" "b_wp nb + (len - sofar) \<le> b_lim nb"
  shows "kok (qcopy_loop nb (b # nxt) (b_rp b + off) (BLEN b - off) len sofar k) (\<lambda>r k'. wfb r \<and>
    bcont r = bcont nb @ take (nat (len - sofar)) (drop (nat off) (bcont b) @ ccont nxt) \<and>
    intr r = intr nb \<and> drv r = drv nb \<and> (\<forall>bs. acct k' bs = acct k bs))"
  using assms
proof (induction nxt arbitrary: nb b off sofar k)
  case Nil
  define n where "n = (if BLEN b - off > len - sofar then len - sofar else BLEN b - off)"
  have n: "0 \<le> n" "off + n \<le> BLEN b" "n \<le> len - sofar" using Nil.prems by (auto simp: n_def)
  have room: "b_wp nb + n \<le> b_lim nb" using n Nil.prems by simp
  have wf: "wfb b" using Nil.prems by simp
  note c = copy_at [OF Nil.prems(1) wf Nil.prems(3) n(1,2) room]
  have "take (nat (len - sofar)) (drop (nat off) (bcont b)) = take (nat n) (drop (nat off) (bcont b))"
    using Nil.prems by (auto simp: n_def nat_diff_distrib wfb_nonneg)
  then show ?case
    using Nil.prems n room by (simp add: Let_def n_def [symmetric] c(1-4) del: length_take)
next
  case (Cons b' nxt)
  define n where "n = (if BLEN b - off > len - sofar then len - sofar else BLEN b - off)"
  have n: "0 \<le> n" "off + n \<le> BLEN b" "n \<le> len - sofar" using Cons.prems by (auto simp: n_def)
  have room: "b_wp nb + n \<le> b_lim nb" using n Cons.prems by simp
  let ?bs = "take (nat n) (drop (nat off) (bcont b))"
  let ?nb = "bappend nb ?bs"
  let ?k = "k\<lparr>k_qcopycnt := k_qcopycnt k + of_int n\<rparr>"
  note c = copy_at [OF Cons.prems(1) _ Cons.prems(3) n(1,2) room]
  have wfb': "wfb b" "wfb b'" "wfc nxt" using Cons.prems by simp_all
  have IH: "kok (qcopy_loop ?nb (b' # nxt) (b_rp b' + 0) (BLEN b' - 0) len (sofar + n) ?k) (\<lambda>r k'. wfb r \<and>
    bcont r = bcont ?nb @ take (nat (len - (sofar + n))) (drop (nat 0) (bcont b') @ ccont nxt) \<and>
    intr r = intr ?nb \<and> drv r = drv ?nb \<and> (\<forall>bs. acct k' bs = acct ?k bs))"
    using Cons.prems n c wfb' by (intro Cons.IH) (auto simp: wfb_nonneg simp del: length_take)
  have tk: "take (nat (len - sofar)) (drop (nat off) (bcont b) @ bcont b' @ ccont nxt) =
      ?bs @ take (nat (len - (sofar + n))) (bcont b' @ ccont nxt)"
  proof (cases "BLEN b - off > len - sofar")
    case True
    then have "n = len - sofar" by (simp add: n_def)
    moreover have "nat (len - sofar) \<le> length (drop (nat off) (bcont b))"
      using True Cons.prems wfb' by (simp add: wfb_nonneg)
    ultimately show ?thesis by simp
  next
    case False
    then have nn: "n = BLEN b - off" by (simp add: n_def)
    have l: "length (drop (nat off) (bcont b)) = nat n"
      using Cons.prems wfb' nn by (simp add: nat_diff_distrib wfb_nonneg)
    have "nat (len - sofar) - nat n = nat (len - (sofar + n))" using n by (simp add: nat_diff_distrib)
    then show ?thesis using l n(3) by simp
  qed
  show ?case
  proof (cases "sofar < len")
    case True
    then have "qcopy_loop nb (b # b' # nxt) (b_rp b + off) (BLEN b - off) len sofar k =
      qcopy_loop ?nb (b' # nxt) (b_rp b') (BLEN b') len (sofar + n) ?k"
      by (simp add: Let_def n_def [symmetric] c(1,2) [OF wfb'(1)] del: length_take)
    then show ?thesis
      using IH c [OF wfb'(1)] by (auto simp: tk elim!: kok_mono simp del: length_take qcopy_loop.simps take_append)
  next
    case False
    then show ?thesis using Cons.prems by simp
  qed
qed

lemma qcopy_ok:
  assumes "qinv q" "0 \<le> len" "0 \<le> offset" "mem_avail k"
  shows "kok (qcopy q len offset k) (\<lambda>b k'. wfb b \<and> bcont b = take (nat len) (drop (nat offset) (qcont q)) \<and>
    (\<forall>bs. acct k' (b # bs) = acct k bs))"
proof -
  obtain nb k1 where al: "allocb len k = Inr (nb, k1)" and nb: "newb len k nb k1"
    using allocb_newb [OF assms(2,4)] by (auto simp: kok_returns)
  note d = newbD [OF nb]
  have wf: "wfc (q_bfirst q)" using assms(1) by (simp add: qinv_def)
  note S = qcopy_seek_ok [OF wf assms(3)]
  show ?thesis
  proof (cases "qcopy_seek (q_bfirst q) 0 offset")
    case None
    then have "drop (nat offset) (qcont q) = []"
      using S length_ccont [OF wf] by (simp add: qcont_def)
    then show ?thesis using None d by (simp add: qcopy_def al acct_Cons)
  next
    case (Some x)
    obtain cs p n where x: "x = (cs, p, n)" by (cases x)
    obtain b nxt off where b: "cs = b # nxt" "wfc cs" "0 \<le> off" "off < BLEN b" "p = b_rp b + off" "n = BLEN b - off"
      "drop (nat offset) (qcont q) = drop (nat off) (bcont b) @ ccont nxt"
      using S Some x by (auto simp: qcont_def)
    have "kok (qcopy_loop nb (b # nxt) (b_rp b + off) (BLEN b - off) len 0 k1) (\<lambda>r k'. wfb r \<and>
      bcont r = bcont nb @ take (nat (len - 0)) (drop (nat off) (bcont b) @ ccont nxt) \<and>
      intr r = intr nb \<and> drv r = drv nb \<and> (\<forall>bs. acct k' bs = acct k1 bs))"
      using d b assms by (intro qcopy_loop_ok) auto
    then show ?thesis
      using Some x b d by (auto simp: qcopy_def al acct_Cons elim!: kok_mono simp del: qcopy_loop.simps take_append)
  qed
qed

section \<open>Block reads\<close>

lemma qwakeup_iunlock_flags [simp]:
  "tst (q_state (fst (qwakeup_iunlock q))) Qmsg = tst (q_state q) Qmsg"
  "tst (q_state (fst (qwakeup_iunlock q))) Qclosed = tst (q_state q) Qclosed"
  "tst (q_state (fst (qwakeup_iunlock q))) Qstarve = tst (q_state q) Qstarve"
  "tst (q_state (fst (qwakeup_iunlock q))) Qcoalesce = tst (q_state q) Qcoalesce"
  by (simp_all add: qwakeup_iunlock_def split: prod.split) (metis fst_conv qrestart_flags)+

lemma qwakeup_iunlockD:
  assumes "qwakeup_iunlock q = (q', ev)"
  shows "q_bfirst q' = q_bfirst q" "qinv q' = qinv q" "qcont q' = qcont q" "qmsgs q' = qmsgs q"
  using assms qwakeup_iunlock_fields [of q] by simp_all

text \<open>
  A block read of a message queue returns the head message cut to \<open>len\<close> and drops its tail; of
  a stream, the tail goes back to the front in a new block.
\<close>

definition bread_post :: "Queue \<Rightarrow> int \<Rightarrow> Block \<Rightarrow> Queue \<Rightarrow> bool" where
  "bread_post q len b q' \<longleftrightarrow> wfb b \<and> BLEN b \<le> len \<and> qmsgs q \<noteq> [] \<and> bcont b = take (nat len) (hd (qmsgs q)) \<and>
     (if tst (q_state q) Qmsg \<or> length (hd (qmsgs q)) \<le> nat len then qmsgs q' = tl (qmsgs q)
      else qmsgs q' = drop (nat len) (hd (qmsgs q)) # tl (qmsgs q))"

lemma bread_post_stream:
  "bread_post q len b q' \<Longrightarrow> \<not> tst (q_state q) Qmsg \<Longrightarrow> qcont q = bcont b @ qcont q'"
  by (cases "qmsgs q") (auto simp: bread_post_def qcont_qmsgs split: if_splits)

lemma qbread_data_ok:
  assumes "qinv q" "0 \<le> len" "mem_avail k" "q_bfirst q = nb # nxt"
  shows "kok (qbread_data q len k) (\<lambda>(r, q', ev) k'. qinv q' \<and> (\<exists>b. r = Ret (Some b) \<and> bread_post q len b q' \<and>
    acct k' (b # q_bfirst q') = acct k (q_bfirst q)))"
proof -
  have wf: "wfb nb" using assms by (simp add: qinv_def)
  let ?q = "qunlink q [nb] nxt"
  let ?nb = "nb\<lparr>b_wp := b_rp nb + len\<rparr>"
  have inv: "qinv ?q" using assms by simp
  have m: "qmsgs q = bcont nb # map bcont nxt" using assms by (simp add: qmsgs_def)
  consider (whole) "BLEN nb \<le> len" | (msg) "len < BLEN nb" "tst (q_state q) Qmsg"
    | (split) "len < BLEN nb" "\<not> tst (q_state q) Qmsg" by linarith
  then show ?thesis
  proof cases
    case whole
    then have l: "length (bcont nb) \<le> nat len" using wf by (simp add: nat_le_eq_zle wfb_nonneg assms)
    obtain q' ev where w: "qwakeup_iunlock ?q = (q', ev)" by (metis prod.exhaust)
    have "qbread_data q len k = Inr ((Ret (Some nb), q', ev), k)"
      using assms whole by (simp add: qbread_data_def w)
    then show ?thesis
      using inv wf l whole m assms(4) qwakeup_iunlockD [OF w] by (simp add: bread_post_def)
  next
    case msg
    obtain q' ev where w: "qwakeup_iunlock ?q = (q', ev)" by (metis prod.exhaust)
    have "qbread_data q len k = Inr ((Ret (Some ?nb), q', ev), k)"
      using assms msg by (simp add: qbread_data_def w)
    then show ?thesis
      using inv wf msg m assms qwakeup_iunlockD [OF w]
      by (simp add: bread_post_def wfb_trunc bcont_trunc acct_Cons)
  next
    case split
    let ?n = "BLEN nb - len"
    obtain b k1 where al: "allocb ?n k = Inr (b, k1)" and nb: "newb ?n k b k1"
      using allocb_newb [of ?n k] split assms by (auto simp: kok_returns)
    note d = newbD [OF nb]
    have n0: "0 \<le> ?n" and on: "len + ?n \<le> BLEN nb" using split by simp_all
    note c = copy_at [OF d(1) wf assms(2) n0 on d(5)]
    let ?bs = "take (nat ?n) (drop (nat len) (bcont nb))"
    have bs: "?bs = drop (nat len) (bcont nb)"
      using wf assms split by (simp add: nat_diff_distrib)
    let ?q2 = "qputback ?q (bappend b ?bs)"
    obtain q' ev where w: "qwakeup_iunlock ?q2 = (q', ev)" by (metis prod.exhaust)
    have e: "qbread_data q len k = Inr ((Ret (Some ?nb), q', ev), k1)"
      using assms(4) split by (simp add: qbread_data_def al Let_def c(1,2) w del: length_take)
    have "qinv ?q2" using inv c(3) by (simp add: qputback_unlink)
    moreover have "qmsgs ?q2 = drop (nat len) (bcont nb) # map bcont nxt"
      using c(4) d(2) bs by (simp add: qputback_unlink)
    moreover have "bread_post q len ?nb q'"
      using calculation(2) wf split m assms qwakeup_iunlockD [OF w]
      by (simp add: bread_post_def wfb_trunc bcont_trunc)
    moreover have "acct k1 (?nb # bappend b ?bs # nxt) = acct k (q_bfirst q)"
      using d(7,8,9) assms(4) by (simp add: acct_Cons)
    ultimately show ?thesis
      unfolding e using qwakeup_iunlockD [OF w] by (simp add: qputback_unlink)
  qed
qed

lemma qbread_ok:
  assumes "qinv q" "0 \<le> len" "mem_avail k"
  shows "kok (qbread q len k) (\<lambda>(r, q', ev) k'. qinv q' \<and> (case r of
      Ret (Some b) \<Rightarrow> bread_post q len b q' \<and> acct k' (b # q_bfirst q') = acct k (q_bfirst q)
    | Ret None \<Rightarrow> q_bfirst q = [] \<and> q_bfirst q' = [] \<and> tst (q_state q) Qclosed \<and> q_eof q < 3 \<and> k' = k
    | Sleep _ \<Rightarrow> q_bfirst q = [] \<and> q_bfirst q' = [] \<and> \<not> tst (q_state q) Qclosed \<and> tst (q_state q') Qstarve \<and> k' = k
    | Error e \<Rightarrow> q_bfirst q = [] \<and> q_bfirst q' = [] \<and> tst (q_state q) Qclosed \<and> e = q_err q \<and> k' = k))"
proof (cases "q_bfirst q")
  case Nil
  then show ?thesis using assms(1) by (auto simp: qbread_def qwait_def Let_def qinv_def)
next
  case (Cons nb nxt)
  have "qbread q len k = qbread_data q len k" using Cons by (simp add: qbread_def qwait_def)
  then show ?thesis
    using qbread_data_ok [OF assms Cons] by (auto elim!: kok_mono)
qed

section \<open>Writes\<close>

text \<open>
  The effect of queueing one block: it becomes the last one, the reader is woken if the queue was
  starved, and the writer has to sleep exactly when the queue is at its limit and blocking.
\<close>

definition queued :: "Queue \<Rightarrow> Block \<Rightarrow> Queue \<Rightarrow> qev list \<Rightarrow> bool" where
  "queued q b q' ev \<longleftrightarrow> q_bfirst q' = q_bfirst q @ [b] \<and> \<not> tst (q_state q') Qstarve \<and>
     (WakeR \<in> set ev \<longleftrightarrow> tst (q_state q) Qstarve) \<and> q_limit q' = q_limit q \<and> q_noblock q' = q_noblock q \<and>
     q_bypass q' = q_bypass q \<and> tst (q_state q') Qclosed = tst (q_state q) Qclosed \<and>
     tst (q_state q') Qmsg = tst (q_state q) Qmsg"

lemma qbwrite_ok:
  assumes "qinv q" "wfb b" "\<not> q_bypass q" "qbwrite q b k = ((r, q', ev), k')"
  shows "if tst (q_state q) Qclosed then r = Error (q_err q) \<and> q' = q \<and> ev = [] \<and> k' = freeb b k
    else if q_limit q \<le> q_len q \<and> q_noblock q then
      r = Ret (BLEN b) \<and> q' = q \<and> ev = [] \<and> (\<forall>bs. acct k' bs = acct k (b # bs))
    else k' = k \<and> qinv q' \<and> queued q b q' ev \<and>
      r = (if q_noblock q \<or> q_len q + BALLOC b < q_limit q then Ret (BLEN b) else Sleep (BLEN b)) \<and>
      (r = Sleep (BLEN b) \<longrightarrow> tst (q_state q') Qflow)"
proof -
  obtain q1 w where u: "qunstarve (qlink q [b]) = (q1, w)" by (metis prod.exhaust)
  have w: "w = tst (q_state q) Qstarve" using u by (auto simp: qunstarve_def split: if_splits)
  have inv: "qinv q1" using assms u qunstarve_fields(10) [of "qlink q [b]"] by simp
  have q1: "queued q b q1 (if w then [WakeR] else [])" "q_len q1 = q_len q + BALLOC b"
    using u w qunstarve_fields [of "qlink q [b]"] qunstarve_flags [of "qlink q [b]"] by (simp_all add: queued_def)
  consider (closed) "tst (q_state q) Qclosed"
    | (drop) "\<not> tst (q_state q) Qclosed" "q_limit q \<le> q_len q" "q_noblock q"
    | (queue) "\<not> tst (q_state q) Qclosed" "\<not> (q_limit q \<le> q_len q \<and> q_noblock q)" by blast
  then show ?thesis
  proof cases
    case closed
    then show ?thesis using assms(3,4) by (auto simp: qbwrite_def qbwrite_put_def)
  next
    case drop
    then show ?thesis using assms(3,4) by (auto simp: qbwrite_def qbwrite_put_def Let_def)
  next
    case queue
    have e: "qbwrite_put q b k = ((None, q1, (if q_kick q1 \<and> (w \<or> tst (q_state q1) Qkick) then [Kick] else []) @
        (if w then [WakeR] else [])), k)"
      using queue assms(3) by (auto simp: qbwrite_put_def u Let_def)
    show ?thesis
    proof (cases "q_noblock q \<or> q_len q + BALLOC b < q_limit q")
      case True
      then have "qbwrite_wait q1 = (True, q1)" using q1 by (auto simp: qbwrite_wait_def qnotfull_def queued_def)
      then show ?thesis using assms(4) e queue inv q1 True by (auto simp: qbwrite_def queued_def)
    next
      case False
      then have "qbwrite_wait q1 = (False, q1\<lparr>q_state := setf (q_state q1) Qflow\<rparr>)"
        using q1 queue by (auto simp: qbwrite_wait_def qnotfull_def queued_def)
      then show ?thesis using assms(4) e queue inv q1 False by (auto simp: qbwrite_def queued_def)
    qed
  qed
qed

text \<open>The parameters of a queue that a writer does not change.\<close>

definition wkeep :: "Queue \<Rightarrow> Queue \<Rightarrow> bool" where
  "wkeep q q' \<longleftrightarrow> q_limit q' = q_limit q \<and> q_noblock q' = q_noblock q \<and> q_bypass q' = q_bypass q \<and>
     tst (q_state q') Qclosed = tst (q_state q) Qclosed \<and> tst (q_state q') Qmsg = tst (q_state q) Qmsg"

lemma queued_wkeep: "queued q b q' ev \<Longrightarrow> wkeep q q'"
  by (simp add: queued_def wkeep_def)

lemma wkeep_trans: "wkeep q q' \<Longrightarrow> wkeep q' q'' \<Longrightarrow> wkeep q q''"
  by (simp add: wkeep_def)

text \<open>\<open>writable q\<close>: open, and neither a bypass nor in non-blocking mode.\<close>

definition writable :: "Queue \<Rightarrow> bool" where
  "writable q \<longleftrightarrow> \<not> q_bypass q \<and> \<not> tst (q_state q) Qclosed \<and> \<not> q_noblock q"

lemma writable_wkeep: "wkeep q q' \<Longrightarrow> writable q \<Longrightarrow> writable q'"
  by (simp add: writable_def wkeep_def)

text \<open>One turn of the writing loop: the next \<open>n\<close> bytes become the last block.\<close>

lemma qwrite_turn:
  assumes "qinv q" "writable q" "0 \<le> sofar" "0 \<le> n" "sofar + n \<le> int (length vp)" "mem_avail k"
  defines "bs \<equiv> take (nat n) (drop (nat sofar) vp)"
  obtains b k1 q1 ev where "allocb n k = Inr (b, k1)" "memmove_in b (b_wp b) bs k1 = Inr ((bappend b bs)\<lparr>b_wp := b_wp b\<rparr>, k1)"
    "(bappend b bs)\<lparr>b_wp := b_wp b + n\<rparr> = bappend b bs"
    "qbwrite q (bappend b bs) k1 =
      ((if q_len q + BALLOC (bappend b bs) < q_limit q then Ret n else Sleep n, q1, ev), k1)"
    "qinv q1" "wkeep q q1" "qmsgs q1 = qmsgs q @ [bs]" "mem_avail k1" "acct k1 (q_bfirst q1) = acct k (q_bfirst q)"
    "q_len q + BALLOC (bappend b bs) < q_limit q \<or> tst (q_state q1) Qflow"
    "\<not> tst (q_state q1) Qstarve"
proof -
  obtain b k1 where al: "allocb n k = Inr (b, k1)" and nb: "newb n k b k1"
    using allocb_newb [of n k] assms by (auto simp: kok_returns)
  note d = newbD [OF nb]
  have len: "int (length bs) = n" using assms by (simp add: bs_def)
  note f = fill_new [OF d(1,2,5) len]
  have bl: "BLEN (bappend b bs) = n" using d(3) len by simp
  obtain r q1 ev k2 where w: "qbwrite q (bappend b bs) k1 = ((r, q1, ev), k2)" by (metis prod.exhaust)
  from qbwrite_ok [OF assms(1) f(3) _ w] assms(2)
  have W: "k2 = k1" "qinv q1" "queued q (bappend b bs) q1 ev"
    "r = (if q_len q + BALLOC (bappend b bs) < q_limit q then Ret n else Sleep n)"
    "r = Sleep n \<longrightarrow> tst (q_state q1) Qflow"
    by (simp_all add: writable_def bl del: bappend_simps)
  have bf: "q_bfirst q1 = q_bfirst q @ [bappend b bs]" using W(3) by (simp add: queued_def)
  have ac: "acct k1 (q_bfirst q1) = acct k (q_bfirst q)"
    using d(7,8,9) by (simp add: bf acct_snoc acct_Cons)
  have st: "\<not> tst (q_state q1) Qstarve" using W(3) by (simp add: queued_def)
  show thesis
    by (rule that [OF al f(1,2) _ W(2) queued_wkeep [OF W(3)] _ d(6) ac _ st])
       (use w W f(4) bf in \<open>auto simp: qmsgs_def simp del: bappend_simps split: if_splits\<close>)
qed

text \<open>
  A write to a byte stream queues its bytes in order. When it goes to sleep after \<open>s\<close> bytes,
  exactly the first \<open>s\<close> bytes are queued, so the call that resumes at \<open>s\<close> completes it.
\<close>

definition wrote :: "Queue \<Rightarrow> byte list \<Rightarrow> int \<Rightarrow> int \<Rightarrow> int out \<Rightarrow> Queue \<Rightarrow> bool" where
  "wrote q vp len sofar r q' \<longleftrightarrow> (case r of
       Ret n \<Rightarrow> n = len \<and> qcont q' = qcont q @ take (nat (len - sofar)) (drop (nat sofar) vp)
     | Sleep s \<Rightarrow> sofar \<le> s \<and> s \<le> len \<and> (sofar < len \<longrightarrow> sofar < s) \<and> tst (q_state q') Qflow \<and>
         qcont q' = qcont q @ take (nat (s - sofar)) (drop (nat sofar) vp)
     | Error _ \<Rightarrow> False)"

lemma wrote_step:
  assumes "wrote q1 vp len (sofar + n) r q'" "0 \<le> sofar" "0 < n" "sofar + n \<le> len" "len \<le> int (length vp)"
    "qcont q1 = qcont q @ take (nat n) (drop (nat sofar) vp)"
  shows "wrote q vp len sofar r q'"
proof -
  have "take (nat n) (drop (nat sofar) vp) @ take (nat (e - (sofar + n))) (drop (nat (sofar + n)) vp) =
      take (nat (e - sofar)) (drop (nat sofar) vp)" if "sofar + n \<le> e" for e
  proof -
    have "nat (e - sofar) = nat n + nat (e - (sofar + n))" "nat (sofar + n) = nat n + nat sofar"
      using assms that by (simp_all add: nat_add_distrib [symmetric])
    then show ?thesis by (simp add: take_add)
  qed
  then show ?thesis
    using assms by (auto simp: wrote_def split: out.splits)
qed

lemma Maxatomic_pos [simp]: "0 < Maxatomic"
  "0 \<le> Maxatomic"
  by (simp_all add: Maxatomic_def)

lemma qwrite_loop_ok:
  assumes "qinv q" "writable q" "\<not> tst (q_state q) Qmsg" "0 \<le> sofar" "sofar \<le> len" "len \<le> int (length vp)" "mem_avail k"
  shows "kok (qwrite_loop q vp len sofar k) (\<lambda>(r, q', ev) k'. qinv q' \<and> wkeep q q' \<and> wrote q vp len sofar r q' \<and>
    acct k' (q_bfirst q') = acct k (q_bfirst q) \<and> mem_avail k')"
  using assms
proof (induction "nat (len - sofar)" arbitrary: q sofar k rule: less_induct)
  case less
  define n where "n = (if len - sofar > Maxatomic then Maxatomic else len - sofar)"
  have n: "0 \<le> n" "sofar + n \<le> len" "sofar + n \<le> int (length vp)" "sofar < len \<longrightarrow> 0 < n" using less.prems by (auto simp: n_def)
  let ?bs = "take (nat n) (drop (nat sofar) vp)"
  obtain b k1 q1 ev where t: "allocb n k = Inr (b, k1)"
    "memmove_in b (b_wp b) ?bs k1 = Inr ((bappend b ?bs)\<lparr>b_wp := b_wp b\<rparr>, k1)"
    "(bappend b ?bs)\<lparr>b_wp := b_wp b + n\<rparr> = bappend b ?bs"
    "qbwrite q (bappend b ?bs) k1 = ((if q_len q + BALLOC (bappend b ?bs) < q_limit q then Ret n else Sleep n, q1, ev), k1)"
    "qinv q1" "wkeep q q1" "qmsgs q1 = qmsgs q @ [?bs]" "mem_avail k1" "acct k1 (q_bfirst q1) = acct k (q_bfirst q)"
    "q_len q + BALLOC (bappend b ?bs) < q_limit q \<or> tst (q_state q1) Qflow"
    by (rule qwrite_turn [OF less.prems(1,2,4) n(1,3) less.prems(7)]) blast
  have q1: "writable q1" "\<not> tst (q_state q1) Qmsg" "qcont q1 = qcont q @ ?bs"
    using t(6,7) less.prems(2,3) by (auto simp: writable_wkeep qcont_qmsgs) (auto simp: wkeep_def)
  consider (sleep) "\<not> q_len q + BALLOC (bappend b ?bs) < q_limit q"
    | (last) "q_len q + BALLOC (bappend b ?bs) < q_limit q" "sofar + n = len"
    | (more) "q_len q + BALLOC (bappend b ?bs) < q_limit q" "sofar + n < len" using n by linarith
  then show ?case
  proof cases
    case sleep
    then have "qwrite_loop q vp len sofar k = Inr ((Sleep (sofar + n), q1, ev), k1)"
      using n t(1-4) by (subst qwrite_loop.simps) (simp add: Let_def n_def [symmetric] del: bappend_simps)
    then show ?thesis using t sleep q1 n by (simp add: wrote_def)
  next
    case last
    then have "qwrite_loop q vp len sofar k = Inr ((Ret len, q1, ev), k1)"
      using n t(1-4) by (subst qwrite_loop.simps) (simp add: Let_def n_def [symmetric] del: bappend_simps)
    moreover have "len - sofar = n" using last by simp
    ultimately show ?thesis using t q1 by (simp add: wrote_def)
  next
    case more
    then have e: "qwrite_loop q vp len sofar k =
        kbind (qwrite_loop q1 vp len (sofar + n) k1) (\<lambda>(r, q, ev') k. Inr ((r, q, ev @ ev'), k))"
      using n t(1-4) q1 by (subst qwrite_loop.simps) (simp add: Let_def n_def [symmetric] del: bappend_simps)
    have np: "0 < n" using more n by linarith
    have "kok (qwrite_loop q1 vp len (sofar + n) k1) (\<lambda>(r, q', ev) k'. qinv q' \<and> wkeep q1 q' \<and>
        wrote q1 vp len (sofar + n) r q' \<and> acct k' (q_bfirst q') = acct k1 (q_bfirst q1) \<and> mem_avail k')"
      by (rule less.hyps) (use more np n q1 t less.prems in auto)
    then show ?thesis
      unfolding e using t(6,9) less.prems(4,6) n(2) np q1(3)
      by (auto elim!: kok_mono intro: wkeep_trans wrote_step)
  qed
qed

text \<open>
  A write to a message queue queues one message, of at most \<^verbatim>\<open>Maxatomic\<close> bytes, and reports
  all of its bytes as written.
\<close>

lemma qwrite_msg_ok:
  assumes "qinv q" "writable q" "tst (q_state q) Qmsg" "0 \<le> len" "len \<le> int (length vp)" "mem_avail k"
  shows "kok (qwrite q vp len k) (\<lambda>(r, q', ev) k'. qinv q' \<and> wkeep q q' \<and>
    qmsgs q' = qmsgs q @ [take (nat (min len Maxatomic)) vp] \<and>
    (r = Ret len \<or> r = Sleep (min len Maxatomic) \<and> tst (q_state q') Qflow) \<and>
    acct k' (q_bfirst q') = acct k (q_bfirst q) \<and> mem_avail k')"
proof -
  define n where "n = (if len - 0 > Maxatomic then Maxatomic else len - 0)"
  have mn: "n = min len Maxatomic" by (simp add: n_def)
  have n: "0 \<le> n" "0 + n \<le> int (length vp)" using assms by (auto simp: mn min_def)
  let ?bs = "take (nat n) (drop (nat 0) vp)"
  obtain b k1 q1 ev where t: "allocb n k = Inr (b, k1)"
    "memmove_in b (b_wp b) ?bs k1 = Inr ((bappend b ?bs)\<lparr>b_wp := b_wp b\<rparr>, k1)"
    "(bappend b ?bs)\<lparr>b_wp := b_wp b + n\<rparr> = bappend b ?bs"
    "qbwrite q (bappend b ?bs) k1 = ((if q_len q + BALLOC (bappend b ?bs) < q_limit q then Ret n else Sleep n, q1, ev), k1)"
    "qinv q1" "wkeep q q1" "qmsgs q1 = qmsgs q @ [?bs]" "mem_avail k1" "acct k1 (q_bfirst q1) = acct k (q_bfirst q)"
    "q_len q + BALLOC (bappend b ?bs) < q_limit q \<or> tst (q_state q1) Qflow"
    by (rule qwrite_turn [OF assms(1,2) _ n assms(6)]) auto
  have "tst (q_state q1) Qmsg" using t(6) assms(3) by (simp add: wkeep_def)
  then have "qwrite q vp len k =
      Inr ((if q_len q + BALLOC (bappend b ?bs) < q_limit q then Ret len else Sleep n, q1, ev), k1)"
    unfolding qwrite_def using n t(1-4)
    by (subst qwrite_loop.simps) (simp add: Let_def n_def [simplified, symmetric] del: bappend_simps)
  then show ?thesis using t mn by auto
qed

text \<open>
  The interrupt-time write queues the longest prefix it can get blocks for, never sleeps, and
  leaves the counts exact.
\<close>

lemma qiwrite_loop_ok:
  assumes "qinv q" "\<not> tst (q_state q) Qmsg" "0 \<le> sofar" "sofar \<le> len" "len \<le> int (length vp)" "mem_avail k" "k_mp k \<le> 1000"
  shows "kok (qiwrite_loop q vp len sofar w k) (\<lambda>(n, q', ev) k'. qinv q' \<and> sofar \<le> n \<and> n \<le> len \<and> wkeep q q' \<and>
    qcont q' = qcont q @ take (nat (n - sofar)) (drop (nat sofar) vp) \<and>
    acct k' (q_bfirst q') = acct k (q_bfirst q) \<and> mem_avail k')"
  using assms
proof (induction "nat (len - sofar)" arbitrary: q sofar w k rule: less_induct)
  case less
  define n where "n = (if len - sofar > Maxatomic then Maxatomic else len - sofar)"
  have n: "0 \<le> n" "sofar + n \<le> len" "sofar + n \<le> int (length vp)" "sofar < len \<longrightarrow> 0 < n" using less.prems by (auto simp: n_def)
  let ?bs = "take (nat n) (drop (nat sofar) vp)"
  have len: "int (length ?bs) = n" using n less.prems by simp
  obtain r k1 where al: "iallocb n k = Inr (r, k1)" and ma: "mem_avail k1" and r: "case r of
      None \<Rightarrow> k_limit k < k_bytes k \<and> (\<forall>bs. acct k1 bs = acct k bs)
    | Some b \<Rightarrow> fresh n b \<and> (\<forall>bs. acct k1 (b # bs) = acct k bs)"
    using iallocb_ok [OF n(1) less.prems(6,7)] by (auto simp: kok_returns)
  show ?case
  proof (cases r)
    case None
    then show ?thesis
      using less.prems al r ma by (subst qiwrite_loop.simps) (simp add: Let_def n_def [symmetric] wkeep_def)
  next
    case (Some b)
    have b: "wfb b" "bcont b = []" "b_wp b + n \<le> b_lim b" and ac: "acct k1 (b # bs) = acct k bs" for bs
      using r Some by (auto simp: fresh_room)
    note f = fill_new [OF b len]
    have mp: "k_mp k1 \<le> 1000"
      using al Some less.prems(7)
      by (auto simp: iallocb_def allocb0_def baalloc_def kmalloc_def kbind_def Let_def split: if_splits sum.splits option.splits prod.splits)
    define q1 where "q1 = fst (qunstarve (qlink q [bappend b ?bs]))"
    define w1 where "w1 = (w \<or> snd (qunstarve (qlink q [bappend b ?bs])))"
    define ev where "ev = (if w1 then (if q_kick q1 then [Kick] else []) @ [WakeR] else [])"
    have inv1: "qinv q1" and k1: "wkeep q q1" and c1: "qcont q1 = qcont q @ ?bs"
      and bf: "q_bfirst q1 = q_bfirst q @ [bappend b ?bs]" and nm: "\<not> tst (q_state q1) Qmsg"
      using less.prems f by (simp_all add: q1_def wkeep_def)
    have ac1: "acct k1 (q_bfirst q1) = acct k (q_bfirst q)"
      using ac [of "q_bfirst q"] by (simp add: bf acct_snoc acct_Cons)
    have e: "qiwrite_loop q vp len sofar w k =
       (if q_dlen q \<ge> 32 * 1024 then Inr ((sofar, q, []), freeb (bappend b ?bs) k1)
        else if sofar + n < len then kbind (qiwrite_loop q1 vp len (sofar + n) w1 k1)
           (\<lambda>(r, q, ev') k. Inr ((r, q, ev @ ev'), k))
        else Inr ((sofar + n, q1, ev), k1))"
      using n less.prems(2)
      by (subst qiwrite_loop.simps)
         (simp add: Let_def n_def [symmetric] case_prod_beta al Some f(1,2) q1_def w1_def ev_def del: bappend_simps)
    show ?thesis
    proof (cases "q_dlen q \<ge> 32 * 1024 \<or> \<not> sofar + n < len")
      case True
      then show ?thesis
        using less.prems inv1 k1 c1 ac1 n ma ac [of "q_bfirst q"]
        by (auto simp: e wkeep_def acct_Cons)
    next
      case False
      have np: "0 < n" using False n by linarith
      have IH: "kok (qiwrite_loop q1 vp len (sofar + n) w1 k1) (\<lambda>(m, q', ev) k'. qinv q' \<and> sofar + n \<le> m \<and> m \<le> len \<and>
        wkeep q1 q' \<and> qcont q' = qcont q1 @ take (nat (m - (sofar + n))) (drop (nat (sofar + n)) vp) \<and>
        acct k' (q_bfirst q') = acct k1 (q_bfirst q1) \<and> mem_avail k')"
        by (rule less.hyps) (use False np n inv1 nm ma mp less.prems in auto)
      have cat: "?bs @ take (nat (m - (sofar + n))) (drop (nat (sofar + n)) vp) =
          take (nat (m - sofar)) (drop (nat sofar) vp)" if "sofar + n \<le> m" for m
      proof -
        have "nat (m - sofar) = nat n + nat (m - (sofar + n))" "nat (sofar + n) = nat n + nat sofar"
          using np less.prems that by (simp_all add: nat_add_distrib [symmetric])
        then show ?thesis by (simp add: take_add)
      qed
      show ?thesis
        using IH False np k1 c1 ac1 by (auto simp: e cat elim!: kok_mono intro: wkeep_trans)
    qed
  qed
qed

section \<open>What a read leaves unchanged\<close>

lemma wkeep_refl [simp]: "wkeep q q"
  by (simp add: wkeep_def)

lemma wkeep_qunlink [simp]: "wkeep q (qunlink q bs rest)"
  by (simp add: wkeep_def qunlink_def)

lemma wkeep_setstate: "wkeep q (q\<lparr>q_state := setf (q_state q) Qstarve\<rparr>)" "wkeep q (q\<lparr>q_state := clrf (q_state q) Qflow\<rparr>)"
  "wkeep q (q\<lparr>q_eof := n\<rparr>)"
  by (simp_all add: wkeep_def)

lemma wkeep_qwait: "wkeep q (snd (qwait q))"
  by (simp add: qwait_def wkeep_def Let_def)

lemma wkeep_qgrab: "qgrab q n len = ((first, m), q') \<Longrightarrow> q_bfirst q \<noteq> [] \<Longrightarrow> wkeep q q'"
  by (drule (1) qgrab_ok) auto

lemma wkeep_qread_take: "wkeep q (snd (fst (qread_take q len k)))"
proof (induction q len k rule: qread_take.induct)
  case (1 q len k)
  show ?case
  proof (cases "q_bfirst q")
    case Nil
    then show ?thesis by (subst qread_take.simps) (simp add: qwait_def Let_def wkeep_def)
  next
    case (Cons b nxt)
    have w: "qwait q = (Data, q)" using Cons by (simp add: qwait_def)
    have IH: "wkeep (qunlink q [b] nxt) (snd (fst (qread_take (qunlink q [b] nxt) len (freeb b k))))"
      if "tst (q_state q) Qcoalesce" "BLEN b \<le> 0"
      using "1.IH" [OF w [symmetric] refl, of b nxt] that Cons by simp
    obtain first m q' where g: "qgrab q 0 len = ((first, m), q')" by (metis prod.exhaust)
    have "wkeep q q'" using wkeep_qgrab [OF g] Cons by simp
    then show ?thesis
      using IH w Cons by (subst qread_take.simps) (auto simp: g intro: wkeep_trans [OF wkeep_qunlink])
  qed
qed

lemma wkeep_qwakeup: "wkeep q (fst (qwakeup_iunlock q))"
  by (simp add: qwakeup_iunlock_def qrestart_def wkeep_def)

lemma wkeep_qread_finish: "wkeep q (fst (snd (fst (qread_finish q n rest k))))"
proof -
  have "wkeep q (fst (qwakeup_iunlock (qputback q b)))" for b
    by (rule wkeep_trans [OF _ wkeep_qwakeup]) (simp add: wkeep_def qputback_def)
  then show ?thesis
    using wkeep_qwakeup [of q] by (auto simp: qread_finish_def Let_def case_prod_beta split: list.split)
qed

lemma wkeep_qread: "qread q len k = Inr ((r, q', ev), k') \<Longrightarrow> wkeep q q'"
proof -
  assume e: "qread q len k = Inr ((r, q', ev), k')"
  obtain t q1 k1 where t: "qread_take q len k = ((t, q1), k1)" by (metis prod.exhaust)
  have k: "wkeep q q1" using wkeep_qread_take [of q len k] t by simp
  show ?thesis
  proof (cases t)
    case (NoData x)
    then show ?thesis using e t k by (auto simp: qread_def split: out.splits)
  next
    case (Took first n)
    then obtain vp rest k2 where "bl2mem first len k1 = Inr ((vp, rest), k2)"
      and "q' = fst (snd (fst (qread_finish q1 n rest k2)))"
      using e t by (auto simp: qread_def kbind_def Let_def split: sum.splits prod.splits)
    then show ?thesis using wkeep_trans [OF k wkeep_qread_finish] by simp
  qed
qed

section \<open>The contract of a byte channel\<close>

text \<open>
  A run of a channel: writers and readers call in any order; \<open>sent\<close> is what the writers have
  handed over, \<open>recvd\<close> what the readers got. \<open>put\<close> says how many bytes it accepted; a writer
  that was put to sleep comes back with the rest.
\<close>

inductive chan_run ::
    "('s \<Rightarrow> byte list \<Rightarrow> (nat \<times> 's) option) \<Rightarrow> ('s \<Rightarrow> nat \<Rightarrow> (byte list \<times> 's) option) \<Rightarrow>
     's \<Rightarrow> byte list \<Rightarrow> byte list \<Rightarrow> 's \<Rightarrow> bool"
  for put get where
  Start: "chan_run put get s [] [] s"
| Put: "chan_run put get s sent recvd t \<Longrightarrow> put t bs = Some (n, u) \<Longrightarrow> chan_run put get s (sent @ take n bs) recvd u"
| Get: "chan_run put get s sent recvd t \<Longrightarrow> get t len = Some (bs, u) \<Longrightarrow> chan_run put get s sent (recvd @ bs) u"

locale byte_channel =
  fixes inv :: "'s \<Rightarrow> bool"
    and cont :: "'s \<Rightarrow> byte list"
    and held :: "'s \<Rightarrow> 'l"
    and put :: "'s \<Rightarrow> byte list \<Rightarrow> (nat \<times> 's) option"
    and get :: "'s \<Rightarrow> nat \<Rightarrow> (byte list \<times> 's) option"
  assumes put_law: "inv s \<Longrightarrow> \<exists>n s'. put s bs = Some (n, s') \<and> inv s' \<and> n \<le> length bs \<and>
      (bs \<noteq> [] \<longrightarrow> 0 < n) \<and> cont s' = cont s @ take n bs \<and> held s' = held s"
    and get_law: "inv s \<Longrightarrow> \<exists>bs s'. get s len = Some (bs, s') \<and> inv s' \<and> cont s = bs @ cont s' \<and>
      length bs \<le> len \<and> held s' = held s"
begin

lemma put_total: "inv s \<Longrightarrow> put s bs \<noteq> None"
  using put_law by (metis option.distinct(1))

lemma get_total: "inv s \<Longrightarrow> get s len \<noteq> None"
  using get_law by (metis option.distinct(1))

lemma run_fifo:
  assumes "chan_run put get s sent recvd t" "inv s"
  shows "inv t \<and> cont s @ sent = recvd @ cont t \<and> held t = held s"
  using assms
proof (induction rule: chan_run.induct)
  case (Put s sent recvd t bs n u)
  then have h: "inv t" "cont s @ sent = recvd @ cont t" "held t = held s" by simp_all
  obtain m s' where "put t bs = Some (m, s')" "inv s'" "cont s' = cont t @ take m bs" "held s' = held t"
    using put_law [OF h(1), of bs] by blast
  then show ?case using h Put.hyps(2) by auto
next
  case (Get s sent recvd t len bs u)
  then have h: "inv t" "cont s @ sent = recvd @ cont t" "held t = held s" by simp_all
  obtain cs s' where "get t len = Some (cs, s')" "inv s'" "cont t = cs @ cont s'" "held s' = held t"
    using get_law [OF h(1), of len] by blast
  then show ?case using h Get.hyps(2) by auto
qed simp

end

text \<open>The queue as a channel: a call that goes to sleep has accepted what it has queued.\<close>

type_synonym qsys = "Queue \<times> Kern"

definition chan_put :: "qsys \<Rightarrow> byte list \<Rightarrow> (nat \<times> qsys) option" where
  "chan_put s vp = (case qwrite (fst s) vp (int (length vp)) (snd s) of
       Inr ((Ret n, q, _), k) \<Rightarrow> Some (nat n, (q, k))
     | Inr ((Sleep n, q, _), k) \<Rightarrow> Some (nat n, (q, k))
     | _ \<Rightarrow> None)"

definition chan_get :: "qsys \<Rightarrow> nat \<Rightarrow> (byte list \<times> qsys) option" where
  "chan_get s len = (case qread (fst s) (int len) (snd s) of
       Inr ((Ret (n, vp), q, _), k) \<Rightarrow> Some (vp, (q, k))
     | Inr ((Sleep _, q, _), k) \<Rightarrow> Some ([], (q, k))
     | _ \<Rightarrow> None)"

definition stream_inv :: "qsys \<Rightarrow> bool" where
  "stream_inv s \<longleftrightarrow> qinv (fst s) \<and> writable (fst s) \<and> \<not> tst (q_state (fst s)) Qmsg \<and> mem_avail (snd s)"

definition stream_held :: "qsys \<Rightarrow> ulong \<times> nat multiset" where
  "stream_held s = acct (snd s) (q_bfirst (fst s))"

lemma chan_put_ok:
  assumes "stream_inv s"
  shows "\<exists>n s'. chan_put s bs = Some (n, s') \<and> stream_inv s' \<and> n \<le> length bs \<and> (bs \<noteq> [] \<longrightarrow> 0 < n) \<and>
    qcont (fst s') = qcont (fst s) @ take n bs \<and> stream_held s' = stream_held s"
proof -
  obtain q k where s: "s = (q, k)" by (cases s)
  have a: "qinv q" "writable q" "\<not> tst (q_state q) Qmsg" "mem_avail k" using assms s by (auto simp: stream_inv_def)
  obtain r q' ev k' where w: "qwrite q bs (int (length bs)) k = Inr ((r, q', ev), k')"
    and h: "qinv q'" "wkeep q q'" "wrote q bs (int (length bs)) 0 r q'" "acct k' (q_bfirst q') = acct k (q_bfirst q)" "mem_avail k'"
    using qwrite_loop_ok [OF a(1-3), of 0 "int (length bs)" bs k] a(4) by (auto simp: kok_returns qwrite_def)
  have st: "stream_inv (q', k')"
    using h a by (auto simp: stream_inv_def writable_wkeep) (auto simp: wkeep_def)
  show ?thesis
  proof (cases r)
    case (Ret n)
    then show ?thesis using w h st s by (auto simp: chan_put_def wrote_def stream_held_def)
  next
    case (Sleep n)
    then show ?thesis using w h st s by (auto simp: chan_put_def wrote_def stream_held_def)
  qed (use h in \<open>simp add: wrote_def\<close>)
qed

lemma chan_get_ok:
  assumes "stream_inv s"
  shows "\<exists>bs s'. chan_get s len = Some (bs, s') \<and> stream_inv s' \<and> qcont (fst s) = bs @ qcont (fst s') \<and>
    length bs \<le> len \<and> stream_held s' = stream_held s"
proof -
  obtain q k where s: "s = (q, k)" by (cases s)
  have a: "qinv q" "writable q" "\<not> tst (q_state q) Qmsg" "mem_avail k" using assms s by (auto simp: stream_inv_def)
  obtain r q' ev k' where w: "qread q (int len) k = Inr ((r, q', ev), k')"
    using qread_stream_ok [OF a(1,3), of "int len" k] by (auto simp: kok_returns)
  note K = qread_stream_ok [OF a(1,3), of "int len" k, unfolded w, simplified]
  have h: "qinv q'" "acct k' (q_bfirst q') = acct k (q_bfirst q)" "mem_avail k' = mem_avail k"
    and r: "case r of Ret (n, vp) \<Rightarrow> qcont q = vp @ qcont q' \<and> n = int (length vp) \<and> n \<le> int len
      | Sleep _ \<Rightarrow> qcont q = [] \<and> q_bfirst q' = []
      | Error e \<Rightarrow> tst (q_state q) Qclosed"
    using K by (auto split: out.splits)
  have st: "stream_inv (q', k')"
    using h a wkeep_qread [OF w] by (auto simp: stream_inv_def writable_wkeep) (auto simp: wkeep_def)
  show ?thesis
  proof (cases r)
    case (Ret x)
    then show ?thesis using w h st s r by (cases x) (auto simp: chan_get_def stream_held_def)
  next
    case (Sleep n)
    then show ?thesis using w h st s r by (auto simp: chan_get_def stream_held_def qcont_def)
  qed (use r a in \<open>simp add: writable_def\<close>)
qed

interpretation qs: byte_channel stream_inv "\<lambda>s. qcont (fst s)" stream_held chan_put chan_get
  by unfold_locales (use chan_put_ok chan_get_ok in blast)+

end
