(* ===== verification/Qsched.thy ===== *)
theory Qsched
  imports Qstream
begin

text \<open>
  Readers, writers and device code running concurrently on one queue. A process that gives up
  the queue's lock on its way is cut into its locked regions; \<open>rstate\<close> and \<open>wstate\<close> say
  where the reader and the writer are (\<^verbatim>\<open>rlock\<close> and \<^verbatim>\<open>wlock\<close> admit one of each). A
  wakeup is called after the lock is released, so it stays in \<open>s_pend\<close> until some later step
  performs it. \<^verbatim>\<open>sleep(r, f, arg)\<close> tests its condition after the lock was released and
  parks the process only if it is false; \<^verbatim>\<open>wakeup\<close> of a process that is not parked does
  nothing (\<^verbatim>\<open>port/proc.c\<close>).

  The parameter \<open>fl\<close> of the step relation admits the routines that take data out without
  holding \<^verbatim>\<open>rlock\<close>: \<^verbatim>\<open>qflush\<close>, \<^verbatim>\<open>qget\<close>, \<^verbatim>\<open>qdiscard\<close> and \<^verbatim>\<open>qconsume\<close>; \<open>pl\<close>
  admits the senders that do not hold \<^verbatim>\<open>wlock\<close>, \<^verbatim>\<open>qpass\<close>, \<^verbatim>\<open>qpassnolim\<close>,
  \<^verbatim>\<open>qproduce\<close> and \<^verbatim>\<open>qiwrite\<close>, and the changes of the queue's parameters, \<^verbatim>\<open>qreopen\<close>,
  \<^verbatim>\<open>qsetlimit\<close> and \<^verbatim>\<open>qnoblock\<close>. The flow control loop of \<^verbatim>\<open>qbwrite\<close> tests the queue
  without its lock, sets \<^verbatim>\<open>Qflow\<close> under it and sleeps: three steps, from \<open>WLoop\<close>,
  \<open>WFull\<close> and \<open>WSleeping\<close>.
\<close>

section \<open>The system\<close>

datatype rstate = RIdle | RSleeping | RParked | RCopy "Block list" int int
datatype wstate = WIdle | WLoop | WFull | WSleeping | WParked

record Sys =
  s_q :: Queue
  s_k :: Kern
  s_r :: rstate
  s_w :: wstate
  s_pend :: "qev list"

text \<open>Where the reader goes after the first locked region of \<^verbatim>\<open>qread\<close>.\<close>

definition after_take :: "taken \<Rightarrow> int \<Rightarrow> rstate" where
  "after_take t len = (case t of Took first n \<Rightarrow> RCopy first n len | NoData (Sleep _) \<Rightarrow> RSleeping | NoData _ \<Rightarrow> RIdle)"

definition wake_r :: "rstate \<Rightarrow> rstate" where "wake_r r = (if r = RParked then RIdle else r)"
definition wake_w :: "wstate \<Rightarrow> wstate" where "wake_w w = (if w = WParked then WLoop else w)"

inductive qstep :: "bool \<Rightarrow> bool \<Rightarrow> Sys \<Rightarrow> Sys \<Rightarrow> bool" for fl pl where
  RTake: "s_r s = RIdle \<Longrightarrow> 0 \<le> len \<Longrightarrow> qread_take (s_q s) len (s_k s) = ((t, q'), k') \<Longrightarrow>
    qstep fl pl s (s\<lparr>s_q := q', s_k := k', s_r := after_take t len\<rparr>)"
| RSleep: "s_r s = RSleeping \<Longrightarrow> qstep fl pl s (s\<lparr>s_r := if notempty (s_q s) then RIdle else RParked\<rparr>)"
| RFinish: "s_r s = RCopy first n len \<Longrightarrow> bl2mem first len (s_k s) = Inr ((vp, rest), k1) \<Longrightarrow>
    qread_finish (s_q s) n rest k1 = ((m, q', ev), k') \<Longrightarrow>
    qstep fl pl s (s\<lparr>s_q := q', s_k := k', s_r := RIdle, s_pend := s_pend s @ ev\<rparr>)"
| WPut: "s_w s = WIdle \<Longrightarrow> wfb b \<Longrightarrow> qbwrite_put (s_q s) b (s_k s) = ((r, q', ev), k') \<Longrightarrow>
    qstep fl pl s (s\<lparr>s_q := q', s_k := k', s_w := if r = None then WLoop else WIdle, s_pend := s_pend s @ ev\<rparr>)"
| WTest: "s_w s = WLoop \<Longrightarrow>
    qstep fl pl s (s\<lparr>s_w := if q_noblock (s_q s) \<or> qnotfull (s_q s) then WIdle else WFull\<rparr>)"
| WMark: "s_w s = WFull \<Longrightarrow>
    qstep fl pl s (s\<lparr>s_q := (s_q s)\<lparr>q_state := setf (q_state (s_q s)) Qflow\<rparr>, s_w := WSleeping\<rparr>)"
| WSleep: "s_w s = WSleeping \<Longrightarrow> qstep fl pl s (s\<lparr>s_w := if qnotfull (s_q s) then WLoop else WParked\<rparr>)"
| WakeReader: "s_pend s = xs @ WakeR # ys \<Longrightarrow> qstep fl pl s (s\<lparr>s_r := wake_r (s_r s), s_pend := xs @ ys\<rparr>)"
| WakeWriter: "s_pend s = xs @ WakeW # ys \<Longrightarrow> qstep fl pl s (s\<lparr>s_w := wake_w (s_w s), s_pend := xs @ ys\<rparr>)"
| Other: "s_pend s = xs @ e # ys \<Longrightarrow> e \<noteq> WakeR \<Longrightarrow> e \<noteq> WakeW \<Longrightarrow> qstep fl pl s (s\<lparr>s_pend := xs @ ys\<rparr>)"
| Pass: "pl \<Longrightarrow> wfc bs \<Longrightarrow> bs \<noteq> [] \<Longrightarrow> qpassnolim (s_q s) bs (s_k s) = Inr ((n, q', ev), k') \<Longrightarrow>
    qstep fl pl s (s\<lparr>s_q := q', s_k := k', s_pend := s_pend s @ ev\<rparr>)"
| PassLim: "pl \<Longrightarrow> wfc bs \<Longrightarrow> bs \<noteq> [] \<Longrightarrow> qpass (s_q s) bs (s_k s) = Inr ((n, q', ev), k') \<Longrightarrow>
    qstep fl pl s (s\<lparr>s_q := q', s_k := k', s_pend := s_pend s @ ev\<rparr>)"
| Close: "qclose (s_q s) (s_k s) = ((q', ev), k') \<Longrightarrow>
    qstep fl pl s (s\<lparr>s_q := q', s_k := k', s_pend := s_pend s @ ev\<rparr>)"
| Hangup: "qhangup (s_q s) msg = (q', ev) \<Longrightarrow> qstep fl pl s (s\<lparr>s_q := q', s_pend := s_pend s @ ev\<rparr>)"
| Flush: "fl \<Longrightarrow> qflush (s_q s) (s_k s) = ((q', ev), k') \<Longrightarrow>
    qstep fl pl s (s\<lparr>s_q := q', s_k := k', s_pend := s_pend s @ ev\<rparr>)"
| Get: "fl \<Longrightarrow> qget (s_q s) = (b, q', ev) \<Longrightarrow> qstep fl pl s (s\<lparr>s_q := q', s_pend := s_pend s @ ev\<rparr>)"
| Discard: "fl \<Longrightarrow> qdiscard (s_q s) len (s_k s) = Inr ((n, q', ev), k') \<Longrightarrow>
    qstep fl pl s (s\<lparr>s_q := q', s_k := k', s_pend := s_pend s @ ev\<rparr>)"
| Consume: "fl \<Longrightarrow> qconsume (s_q s) len (s_k s) = Inr ((r, q', ev), k') \<Longrightarrow>
    qstep fl pl s (s\<lparr>s_q := q', s_k := k', s_pend := s_pend s @ ev\<rparr>)"
| Produce: "pl \<Longrightarrow> 0 \<le> len \<Longrightarrow> len \<le> int (length p) \<Longrightarrow> mem_avail (s_k s) \<Longrightarrow> k_mp (s_k s) \<le> 1000 \<Longrightarrow>
    qproduce (s_q s) p len (s_k s) = Inr ((n, q', ev), k') \<Longrightarrow>
    qstep fl pl s (s\<lparr>s_q := q', s_k := k', s_pend := s_pend s @ ev\<rparr>)"
| Iwrite: "pl \<Longrightarrow> 0 \<le> len \<Longrightarrow> len \<le> int (length p) \<Longrightarrow> mem_avail (s_k s) \<Longrightarrow> k_mp (s_k s) \<le> 1000 \<Longrightarrow>
    qiwrite (s_q s) p len (s_k s) = Inr ((n, q', ev), k') \<Longrightarrow>
    qstep fl pl s (s\<lparr>s_q := q', s_k := k', s_pend := s_pend s @ ev\<rparr>)"
| Reopen: "pl \<Longrightarrow> qstep fl pl s (s\<lparr>s_q := qreopen (s_q s)\<rparr>)"
| Setlimit: "pl \<Longrightarrow> qstep fl pl s (s\<lparr>s_q := qsetlimit (s_q s) lim\<rparr>)"
| Noblock: "pl \<Longrightarrow> qstep fl pl s (s\<lparr>s_q := qnoblock (s_q s) onoff\<rparr>)"

inductive reach :: "bool \<Rightarrow> bool \<Rightarrow> Sys \<Rightarrow> Sys \<Rightarrow> bool" for fl pl s0 where
  Init: "reach fl pl s0 s0"
| Step: "reach fl pl s0 s \<Longrightarrow> qstep fl pl s s' \<Longrightarrow> reach fl pl s0 s'"

text \<open>A queue just opened, with no process in it.\<close>

definition opened :: "Sys \<Rightarrow> bool" where
  "opened s \<longleftrightarrow> qinv (s_q s) \<and> q_bfirst (s_q s) = [] \<and> \<not> tst (q_state (s_q s)) Qflow \<and> 2 \<le> q_limit (s_q s) \<and>
     s_r s = RIdle \<and> s_w s = WIdle \<and> s_pend s = []"

section \<open>What each operation does to the flags\<close>

text \<open>
  The flags and counts the protocol is about. \<open>filled q q' ev\<close> describes the operations that
  put data in or refuse it, \<open>emptied\<close> those that take it out.
\<close>

definition sameq :: "Queue \<Rightarrow> Queue \<Rightarrow> bool" where
  "sameq q q' \<longleftrightarrow> q_limit q' = q_limit q \<and> tst (q_state q') Qcoalesce = tst (q_state q) Qcoalesce"

definition filled :: "Queue \<Rightarrow> Queue \<Rightarrow> qev list \<Rightarrow> bool" where
  "filled q q' ev \<longleftrightarrow> sameq q q' \<and> qinv q' \<and> tst (q_state q') Qclosed = tst (q_state q) Qclosed \<and>
     q_len q \<le> q_len q' \<and> (tst (q_state q) Qflow \<longrightarrow> tst (q_state q') Qflow) \<and>
     (q_bfirst q' = q_bfirst q \<and> tst (q_state q') Qstarve = tst (q_state q) Qstarve \<or>
      q_bfirst q' \<noteq> [] \<and> (tst (q_state q) Qstarve \<longrightarrow> WakeR \<in> set ev))"

lemma wfc_alloc: "wfc bs \<Longrightarrow> 0 \<le> blockalloclen bs" by (rule blockalloclen_nonneg)

lemma filled_refl [simp]: "qinv q \<Longrightarrow> filled q q []"
  by (simp add: filled_def sameq_def)

lemma qpassnolim_filled:
  assumes "qinv q" "wfc bs" "bs \<noteq> []" "qpassnolim q bs k = Inr ((n, q', ev), k')"
  shows "filled q q' ev \<and> (q' = q \<or> (q_limit q sdiv 2 \<le> q_len q' \<longrightarrow> tst (q_state q') Qflow))"
proof (cases "tst (q_state q) Qclosed")
  case True
  then show ?thesis using assms by (cases bs) (auto simp: qpassnolim_def)
next
  case False
  define q1 where "q1 = (if q_len (qlink q bs) \<ge> q_limit (qlink q bs) sdiv 2
     then (qlink q bs)\<lparr>q_state := setf (q_state (qlink q bs)) Qflow\<rparr> else qlink q bs)"
  obtain q2 w where u: "qunstarve q1 = (q2, w)" by (metis prod.exhaust)
  have w: "w = tst (q_state q1) Qstarve" using u by (auto simp: qunstarve_def split: if_splits)
  have e: "q' = q2" "ev = (if w then [WakeR] else [])"
    using assms(3,4) False u by (auto simp: qpassnolim_def q1_def Let_def split: list.splits)
  have "qinv q1" "q_bfirst q1 = q_bfirst q @ bs" "q_len q1 = q_len q + blockalloclen bs" "q_limit q1 = q_limit q"
    "tst (q_state q1) Qstarve = tst (q_state q) Qstarve" "tst (q_state q1) Qclosed = tst (q_state q) Qclosed"
    "tst (q_state q1) Qcoalesce = tst (q_state q) Qcoalesce"
    "tst (q_state q1) Qflow \<longleftrightarrow> tst (q_state q) Qflow \<or> q_limit q sdiv 2 \<le> q_len q1"
    using assms(1,2) by (simp_all add: q1_def)
  then show ?thesis
    using qunstarve_fields [of q1] qunstarve_flags [of q1] u w assms(3) wfc_alloc [OF assms(2)]
    by (auto simp: filled_def sameq_def e)
qed

lemma qpass_filled:
  assumes "qinv q" "wfc bs" "bs \<noteq> []" "qpass q bs k = Inr ((n, q', ev), k')"
  shows "filled q q' ev \<and> (q' = q \<or> (q_limit q sdiv 2 \<le> q_len q' \<longrightarrow> tst (q_state q') Qflow))"
  using assms qpassnolim_filled [OF assms(1-3)] by (auto simp: qpass_def split: if_splits)

lemma qbwrite_put_filled:
  assumes "qinv q" "wfb b" "qbwrite_put q b k = ((r, q', ev), k')"
  shows "filled q q' ev"
proof -
  obtain q2 w where u: "qunstarve (qlink q [b]) = (q2, w)" by (metis prod.exhaust)
  have w: "w = tst (q_state q) Qstarve" using u by (auto simp: qunstarve_def split: if_splits)
  have "filled q q2 evs" if "w \<longrightarrow> WakeR \<in> set evs" for evs
    using that qunstarve_fields [of "qlink q [b]"] qunstarve_flags [of "qlink q [b]"] u w assms(1,2) wfb_nonneg(2) [OF assms(2)]
    by (auto simp: filled_def sameq_def)
  moreover have "filled q q [Bypass b]" using assms(1) by (simp add: filled_def sameq_def)
  ultimately show ?thesis
    using assms(1,3) by (auto simp: qbwrite_put_def Let_def u split: if_splits)
qed

lemma filled_trans: "filled q q1 ev1 \<Longrightarrow> filled q1 q2 ev2 \<Longrightarrow> filled q q2 (ev1 @ ev2)"
  by (auto simp: filled_def sameq_def)

text \<open>A block linked at the end, the reader woken if it starved.\<close>

lemma link_filled:
  assumes "qinv q" "wfb b" "tst (q_state q) Qstarve \<longrightarrow> WakeR \<in> set ev"
  shows "filled q (fst (qunstarve (qlink q [b]))) ev"
  using assms wfb_nonneg(2) [OF assms(2)] by (auto simp: filled_def sameq_def)

lemma qproduce_filled:
  assumes "qinv q" "0 \<le> len" "len \<le> int (length p)" "mem_avail k" "k_mp k \<le> 1000"
    "qproduce q p len k = Inr ((n, q', ev), k')"
  shows "filled q q' ev"
proof (cases "q_limit q \<le> q_len q")
  case True
  then show ?thesis using assms(1,6) by (auto simp: qproduce_def filled_def sameq_def)
next
  case room: False
  let ?bs = "take (nat len) p"
  have len: "int (length ?bs) = len" using assms by simp
  obtain r k1 where al: "iallocb len k = Inr (r, k1)" and r: "r = Some b \<Longrightarrow> fresh len b" for b
    using iallocb_ok [OF assms(2,4,5)] by (auto simp: kok_returns split: option.splits)
  show ?thesis
  proof (cases r)
    case None
    then show ?thesis using room al assms(1,6) by (simp add: qproduce_def)
  next
    case (Some b)
    have b: "wfb b" "bcont b = []" "b_wp b + len \<le> b_lim b" using r [OF Some] by (auto simp: fresh_room)
    note f = fill_new [OF b len]
    have e: "ev = (if tst (q_state q) Qstarve then [WakeR] else [])"
      "q' = (let q1 = fst (qunstarve (qlink q [bappend b ?bs])) in
         if q_limit q1 \<le> q_len q1 then q1\<lparr>q_state := setf (q_state q1) Qflow\<rparr> else q1)"
      using room assms(2,3,6)
      by (auto simp: qproduce_def al Some f Let_def qunstarve_def split: if_splits)
    show ?thesis
      using link_filled [OF assms(1) f(3), of ev] by (auto simp: e Let_def filled_def sameq_def)
  qed
qed

lemma qiwrite_loop_filled:
  assumes "qinv q" "0 \<le> sofar" "sofar \<le> len" "len \<le> int (length vp)" "mem_avail k" "k_mp k \<le> 1000"
    "qiwrite_loop q vp len sofar w k = Inr ((r, q', ev), k')"
  shows "filled q q' ev"
  using assms
proof (induction "nat (len - sofar)" arbitrary: q sofar w k r ev rule: less_induct)
  case less
  define n where "n = (if len - sofar > Maxatomic then Maxatomic else len - sofar)"
  have n: "0 \<le> n" "sofar + n \<le> len" "sofar + n \<le> int (length vp)" "sofar < len \<longrightarrow> 0 < n" using less.prems by (auto simp: n_def)
  let ?bs = "take (nat n) (drop (nat sofar) vp)"
  have len: "int (length ?bs) = n" using n less.prems by simp
  obtain r1 k1 where al: "iallocb n k = Inr (r1, k1)" and ma: "mem_avail k1" and r: "r1 = Some b \<Longrightarrow> fresh n b" for b
    using iallocb_ok [OF n(1) less.prems(5,6)] by (auto simp: kok_returns split: option.splits)
  show ?case
  proof (cases r1)
    case None
    then show ?thesis using less.prems(1,7) al by (subst (asm) qiwrite_loop.simps) (simp add: Let_def n_def [symmetric])
  next
    case (Some b)
    have b: "wfb b" "bcont b = []" "b_wp b + n \<le> b_lim b" using r [OF Some] by (auto simp: fresh_room)
    note f = fill_new [OF b len]
    have mp: "k_mp k1 \<le> 1000"
      using al Some less.prems(6)
      by (auto simp: iallocb_def allocb0_def baalloc_def kmalloc_def kbind_def Let_def split: if_splits sum.splits option.splits prod.splits)
    define q1 where "q1 = fst (qunstarve (qlink q [bappend b ?bs]))"
    define w1 where "w1 = (w \<or> snd (qunstarve (qlink q [bappend b ?bs])))"
    define ev1 where "ev1 = (if w1 then (if q_kick q1 then [Kick] else []) @ [WakeR] else [])"
    have "tst (q_state q) Qstarve \<longrightarrow> WakeR \<in> set ev1" by (simp add: ev1_def w1_def qunstarve_def)
    then have f1: "filled q q1 ev1" unfolding q1_def by (rule link_filled [OF less.prems(1) f(3)])
    have e: "qiwrite_loop q vp len sofar w k =
       (if q_dlen q \<ge> 32 * 1024 then Inr ((sofar, q, []), freeb (bappend b ?bs) k1)
        else if sofar + n < len \<and> \<not> tst (q_state q) Qmsg then kbind (qiwrite_loop q1 vp len (sofar + n) w1 k1)
           (\<lambda>(r, q, ev') k. Inr ((r, q, ev1 @ ev'), k))
        else Inr ((sofar + n, q1, ev1), k1))"
      using n
      by (subst qiwrite_loop.simps)
         (simp add: Let_def n_def [symmetric] case_prod_beta al Some f(1,2) q1_def w1_def ev1_def del: bappend_simps)
    show ?thesis
    proof (cases "q_dlen q \<ge> 32 * 1024 \<or> \<not> (sofar + n < len \<and> \<not> tst (q_state q) Qmsg)")
      case True
      then show ?thesis using less.prems(1,7) f1 by (auto simp: e split: if_splits)
    next
      case False
      then obtain r2 ev2 where l: "qiwrite_loop q1 vp len (sofar + n) w1 k1 = Inr ((r2, q', ev2), k')" and ev: "ev = ev1 @ ev2"
        using less.prems(7) by (auto simp: e kbind_def split: sum.splits)
      have "filled q1 q' ev2"
        by (rule less.hyps [OF _ _ _ _ _ _ _ l]) (use False n ma mp less.prems f1 in \<open>auto simp: filled_def\<close>)
      then show ?thesis unfolding ev by (rule filled_trans [OF f1])
    qed
  qed
qed

lemma qiwrite_filled:
  assumes "qinv q" "0 \<le> len" "len \<le> int (length vp)" "mem_avail k" "k_mp k \<le> 1000"
    "qiwrite q vp len k = Inr ((r, q', ev), k')"
  shows "filled q q' ev"
  using qiwrite_loop_filled [of q 0 len vp k False] assms by (simp add: qiwrite_def)

lemma qclose_eff:
  assumes "qclose q k = ((q', ev), k')"
  shows "sameq q q'" "qinv q'" "q_bfirst q' = []" "q_len q' = 0" "tst (q_state q') Qclosed" "\<not> tst (q_state q') Qflow"
    "ev = [WakeR, WakeW]"
  using assms by (auto simp: qclose_def sameq_def qinv_def clrf_or)

lemma qhangup_eff:
  assumes "qhangup q msg = (q', ev)"
  shows "sameq q q'" "qinv q' = qinv q" "q_bfirst q' = q_bfirst q" "q_len q' = q_len q" "tst (q_state q') Qclosed"
    "tst (q_state q') Qflow = tst (q_state q) Qflow" "ev = [WakeR, WakeW]"
  using assms by (auto simp: qhangup_def sameq_def qinv_def)

lemma qread_finish_eff:
  assumes "qinv q" "wfc rest" "qread_finish q n rest k = ((m, q', ev), k')"
  shows "sameq q q'" "qinv q'" "tst (q_state q') Qclosed = tst (q_state q) Qclosed"
    "\<not> (tst (q_state q') Qflow \<and> q_len q' < q_limit q sdiv 2)"
    "tst (q_state q) Qflow \<longrightarrow> tst (q_state q') Qflow \<or> WakeW \<in> set ev \<and> q_len q' < q_limit q sdiv 2"
    "tst (q_state q') Qflow \<longrightarrow> tst (q_state q) Qflow" "q_len q' \<le> q_len q + blockalloclen rest"
proof -
  let ?q = "case rest of [] \<Rightarrow> q | b # _ \<Rightarrow> if tst (q_state q) Qmsg then q else qputback q b"
  have inv: "qinv ?q" using assms(1,2) by (auto simp: qputback_unlink split: list.split)
  have st: "q_state ?q = q_state q" "q_limit ?q = q_limit q" by (auto simp: qputback_def split: list.split)
  have q': "q' = fst (qrestart ?q)" and ev: "snd (qrestart ?q) \<longrightarrow> WakeW \<in> set ev"
    using assms(3) by (auto simp: qread_finish_def qwakeup_iunlock_def Let_def split: list.splits prod.splits if_splits)
  show "sameq q q'" "qinv q'" "tst (q_state q') Qclosed = tst (q_state q) Qclosed"
    using inv st by (simp_all add: q' sameq_def)
  show "\<not> (tst (q_state q') Qflow \<and> q_len q' < q_limit q sdiv 2)"
    "tst (q_state q) Qflow \<longrightarrow> tst (q_state q') Qflow \<or> WakeW \<in> set ev \<and> q_len q' < q_limit q sdiv 2"
    "tst (q_state q') Qflow \<longrightarrow> tst (q_state q) Qflow"
    using st ev by (auto simp: q' qrestart_def split: if_splits)
  show "q_len q' \<le> q_len q + blockalloclen rest"
    using assms(2) by (cases rest) (auto simp: q' qputback_def blockalloclen_nonneg wfb_nonneg)
qed

lemma bl2mem_space:
  assumes "bl2mem bs n k = Inr ((vp, rest), k')" "wfc bs"
  shows "blockalloclen rest \<le> blockalloclen bs"
  using assms
proof (induction bs arbitrary: n k vp)
  case (Cons b bs)
  show ?case
  proof (cases "BLEN b > n")
    case True
    then show ?thesis using Cons.prems by (auto simp: kbind_def split: sum.splits)
  next
    case False
    then obtain n' k1 vp' where "bl2mem bs n' k1 = Inr ((vp', rest), k')"
      using Cons.prems by (auto simp: kbind_def Let_def split: sum.splits prod.splits)
    then show ?thesis using Cons.IH Cons.prems(2) wfb_nonneg(2) [of b] by fastforce
  qed
qed simp

lemma qread_take_eff:
  assumes "qinv q" "qread_take q len k = ((t, q'), k')"
  shows "sameq q q'" "qinv q'" "tst (q_state q') Qclosed = tst (q_state q) Qclosed"
    "tst (q_state q') Qflow = tst (q_state q) Qflow" "q_len q' \<le> q_len q"
    "\<And>first n. t = Took first n \<Longrightarrow> wfc first \<and> q_len q' + blockalloclen first \<le> q_len q"
    "\<And>n. t = NoData (Sleep n) \<Longrightarrow> tst (q_state q') Qstarve \<and> q_bfirst q' = []"
    "\<And>r. t = NoData r \<Longrightarrow> \<not> tst (q_state q) Qcoalesce \<Longrightarrow> q_bfirst q = []"
proof -
  note T = qread_take_ok [OF assms(1), where len = len and k = k, unfolded assms(2) prod.case]
  have flags: "tst (q_state (snd (fst (qread_take q len k)))) f = tst (q_state q) f"
    if "f \<in> {Qclosed, Qflow, Qcoalesce}" for f
    using that
  proof (induction q len k rule: qread_take.induct)
    case (1 q len k)
    show ?case
    proof (cases "q_bfirst q")
      case Nil
      then show ?thesis using "1.prems" by (subst qread_take.simps) (auto simp: qwait_def Let_def)
    next
      case (Cons b nxt)
      have w: "qwait q = (Data, q)" using Cons by (simp add: qwait_def)
      have IH: "tst (q_state (snd (fst (qread_take (qunlink q [b] nxt) len (freeb b k))))) f = tst (q_state q) f"
        if "tst (q_state q) Qcoalesce" "BLEN b \<le> 0"
        using "1.IH" [OF w [symmetric] refl, of b nxt] that Cons "1.prems" by simp
      obtain first m q' where g: "qgrab q 0 len = ((first, m), q')" by (metis prod.exhaust)
      have "q_state q' = q_state q" using qgrab_ok [OF g] Cons by auto
      then show ?thesis using IH w Cons by (subst qread_take.simps) (auto simp: g)
    qed
  qed
  have lim: "q_limit q' = q_limit q" using wkeep_qread_take [of q len k] assms(2) by (simp add: wkeep_def)
  show "sameq q q'" "tst (q_state q') Qclosed = tst (q_state q) Qclosed" "tst (q_state q') Qflow = tst (q_state q) Qflow"
    using flags [of Qcoalesce] flags [of Qclosed] flags [of Qflow] assms(2) lim by (auto simp: sameq_def)
  show "t = Took first n \<Longrightarrow> wfc first \<and> q_len q' + blockalloclen first \<le> q_len q" for first n
    using T assms(1) by (auto simp: took_def qinv_def wfc_alloc)
  show "qinv q'" using T assms(1) by (cases t) (auto simp: took_def drained_def)
  show "q_len q' \<le> q_len q"
    using T assms(1) wfc_alloc [of "q_bfirst q"]
    by (cases t) (auto simp: took_def drained_def qinv_def wfc_alloc)
  show "t = NoData (Sleep n) \<Longrightarrow> tst (q_state q') Qstarve \<and> q_bfirst q' = []" for n
    using T by (auto simp: drained_def)
  show "t = NoData r \<Longrightarrow> \<not> tst (q_state q) Qcoalesce \<Longrightarrow> q_bfirst q = []" for r
    using T by (auto simp: drained_def)
qed

section \<open>The invariant of the wakeup protocol\<close>

text \<open>
  A parked reader has a wakeup on its way, or the queue is empty, open, and marked starved, so
  that whoever adds data will wake it. A reader on its way to sleep may also find the condition
  true. A parked writer has a wakeup on its way or \<^verbatim>\<open>Qflow\<close> is set on an open queue.
\<close>

definition sched_inv :: "Sys \<Rightarrow> bool" where
  "sched_inv s \<longleftrightarrow> qinv (s_q s) \<and>
     (case s_r s of
        RParked \<Rightarrow> WakeR \<in> set (s_pend s) \<or>
          q_bfirst (s_q s) = [] \<and> tst (q_state (s_q s)) Qstarve \<and> \<not> tst (q_state (s_q s)) Qclosed
      | RSleeping \<Rightarrow> notempty (s_q s) \<or>
          q_bfirst (s_q s) = [] \<and> tst (q_state (s_q s)) Qstarve
      | RCopy first n len \<Rightarrow> wfc first \<and> 0 \<le> len
      | RIdle \<Rightarrow> True)"

text \<open>The bytes of queue space in the hands of the reader, which it may put back.\<close>

definition copying :: "rstate \<Rightarrow> int" where
  "copying r = (case r of RCopy first n len \<Rightarrow> blockalloclen first | _ \<Rightarrow> 0)"

definition flow_inv :: "Sys \<Rightarrow> bool" where
  "flow_inv s \<longleftrightarrow> \<not> tst (q_state (s_q s)) Qcoalesce \<and> 2 \<le> q_limit (s_q s) \<and>
     (case s_w s of
        WParked \<Rightarrow> WakeW \<in> set (s_pend s) \<or>
          tst (q_state (s_q s)) Qflow \<and> \<not> tst (q_state (s_q s)) Qclosed \<and>
          (q_limit (s_q s) sdiv 2 \<le> q_len (s_q s) \<or> (\<exists>first n len. s_r s = RCopy first n len))
      | WSleeping \<Rightarrow> tst (q_state (s_q s)) Qflow \<or> tst (q_state (s_q s)) Qclosed \<or>
          q_len (s_q s) + copying (s_r s) < q_limit (s_q s)
      | _ \<Rightarrow> True)"

lemma half_limit: "2 \<le> l \<Longrightarrow> 0 < l sdiv 2 \<and> l sdiv 2 < (l::int)"
  by (auto simp: sdiv_nonneg_eq)

lemma opened_sched: "opened s \<Longrightarrow> sched_inv s"
  by (simp add: opened_def sched_inv_def)

lemma opened_flow: "opened s \<Longrightarrow> \<not> tst (q_state (s_q s)) Qcoalesce \<Longrightarrow> flow_inv s"
  by (simp add: opened_def flow_inv_def)

lemma filled_sched:
  assumes "sched_inv s" "filled (s_q s) q' ev"
  shows "sched_inv (s\<lparr>s_q := q', s_k := k', s_w := w, s_pend := s_pend s @ ev\<rparr>)"
  using assms by (auto simp: sched_inv_def filled_def sameq_def notempty_def split: rstate.splits)

lemma sched_step:
  assumes "qstep False pl s s'" "sched_inv s"
  shows "sched_inv s'"
  using assms
proof (cases rule: qstep.cases)
  case (RTake len t q' k')
  have inv: "qinv (s_q s)" using assms(2) by (simp add: sched_inv_def)
  note e = qread_take_eff [OF inv RTake(4)]
  show ?thesis
  proof (cases t)
    case (Took first n)
    then show ?thesis using assms(2) RTake e by (auto simp: sched_inv_def sameq_def after_take_def)
  next
    case (NoData r)
    then show ?thesis using assms(2) RTake e by (cases r) (auto simp: sched_inv_def sameq_def after_take_def)
  qed
next
  case RSleep
  then show ?thesis using assms(2) by (auto simp: sched_inv_def notempty_def split: rstate.splits)
next
  case (RFinish first n len vp rest k1 m q' ev k')
  have inv: "qinv (s_q s)" and wf: "wfc first" "0 \<le> len" using assms(2) RFinish by (auto simp: sched_inv_def)
  have "wfc rest" using bl2mem_ok [OF wf, of "s_k s"] RFinish by simp
  note e = qread_finish_eff [OF inv this RFinish(4)]
  then show ?thesis using assms(2) RFinish by (auto simp: sched_inv_def sameq_def)
next
  case (WPut b r q' ev k')
  have inv: "qinv (s_q s)" using assms(2) by (simp add: sched_inv_def)
  show ?thesis using filled_sched [OF assms(2) qbwrite_put_filled [OF inv WPut(3,4)]] WPut by simp
next
  case WTest
  then show ?thesis using assms(2) by (auto simp: sched_inv_def split: rstate.splits)
next
  case WMark
  then show ?thesis using assms(2) by (auto simp: sched_inv_def notempty_def split: rstate.splits)
next
  case WSleep
  then show ?thesis using assms(2) by (auto simp: sched_inv_def split: rstate.splits)
next
  case (WakeReader xs ys)
  then show ?thesis using assms(2) by (auto simp: sched_inv_def wake_r_def split: rstate.splits)
next
  case (WakeWriter xs ys)
  then show ?thesis using assms(2) by (auto simp: sched_inv_def split: rstate.splits)
next
  case (Other xs e ys)
  then show ?thesis using assms(2) by (auto simp: sched_inv_def split: rstate.splits)
next
  case (Pass bs n q' ev k')
  have inv: "qinv (s_q s)" using assms(2) by (simp add: sched_inv_def)
  show ?thesis
    using filled_sched [OF assms(2), of q' ev "s_w s" k'] qpassnolim_filled [OF inv Pass(3-5)] Pass by simp
next
  case (PassLim bs n q' ev k')
  have inv: "qinv (s_q s)" using assms(2) by (simp add: sched_inv_def)
  show ?thesis
    using filled_sched [OF assms(2), of q' ev "s_w s" k'] qpass_filled [OF inv PassLim(3-5)] PassLim by simp
next
  case (Close q' ev k')
  then show ?thesis using assms(2) qclose_eff [OF Close(2)] by (auto simp: sched_inv_def sameq_def notempty_def split: rstate.splits)
next
  case (Hangup msg q' ev)
  then show ?thesis using assms(2) qhangup_eff [OF Hangup(2)] by (auto simp: sched_inv_def sameq_def notempty_def split: rstate.splits)
next
  case (Produce len p n q' ev k')
  have inv: "qinv (s_q s)" using assms(2) by (simp add: sched_inv_def)
  show ?thesis
    using filled_sched [OF assms(2) qproduce_filled [OF inv Produce(3-7)], where k' = k' and w = "s_w s"] Produce by simp
next
  case (Iwrite len p n q' ev k')
  have inv: "qinv (s_q s)" using assms(2) by (simp add: sched_inv_def)
  show ?thesis
    using filled_sched [OF assms(2) qiwrite_filled [OF inv Iwrite(3-7)], where k' = k' and w = "s_w s"] Iwrite by simp
next
  case Reopen
  then show ?thesis using assms(2)
    by (auto simp: sched_inv_def qreopen_def notempty_def qinv_def split: rstate.splits)
next
  case (Setlimit lim)
  then show ?thesis using assms(2)
    by (auto simp: sched_inv_def qsetlimit_def notempty_def qinv_def split: rstate.splits)
next
  case (Noblock onoff)
  then show ?thesis using assms(2)
    by (auto simp: sched_inv_def qnoblock_def notempty_def qinv_def split: rstate.splits)
qed simp_all

lemma flow_step:
  assumes "qstep False False s s'" "sched_inv s" "flow_inv s"
  shows "flow_inv s'"
proof -
  have inv: "qinv (s_q s)" and co: "\<not> tst (q_state (s_q s)) Qcoalesce"
    using assms(2,3) by (simp_all add: sched_inv_def flow_inv_def)
  have l: "0 < q_limit (s_q s) sdiv 2" "q_limit (s_q s) sdiv 2 < q_limit (s_q s)"
    using assms(3) half_limit by (auto simp: flow_inv_def)
  show ?thesis
    using assms(1)
  proof (cases rule: qstep.cases)
    case (RTake len t q' k')
    note e = qread_take_eff [OF inv RTake(4)]
    show ?thesis
    proof (cases t)
      case (Took first n)
      then show ?thesis
        using RTake assms(3) e(1,3,4) e(6) [OF Took]
        by (auto simp: flow_inv_def sameq_def after_take_def copying_def split: wstate.splits)
    next
      case (NoData r)
      have "q_len (s_q s) = 0" using e(8) [OF NoData co] inv by (simp add: qinv_def)
      then show ?thesis
        using RTake NoData assms(3) e(1,3,4,5) l
        by (cases r) (auto simp: flow_inv_def sameq_def after_take_def copying_def split: wstate.splits)
    qed
  next
    case RSleep
    then show ?thesis using assms(3) by (auto simp: flow_inv_def copying_def split: wstate.splits)
  next
    case (RFinish first n len vp rest k1 m q' ev k')
    have wf: "wfc first" "0 \<le> len" using assms(2) RFinish by (auto simp: sched_inv_def)
    have "wfc rest" using bl2mem_ok [OF wf, of "s_k s"] RFinish by simp
    note e = qread_finish_eff [OF inv this RFinish(4)] bl2mem_space [OF RFinish(3) wf(1)]
    then show ?thesis
      using RFinish assms(3) l by (auto simp: flow_inv_def sameq_def copying_def split: wstate.splits)
  next
    case (WPut b r q' ev k')
    have "filled (s_q s) q' ev" by (rule qbwrite_put_filled [OF inv WPut(3,4)])
    then show ?thesis
      using WPut assms(3) by (auto simp: flow_inv_def filled_def sameq_def split: wstate.splits)
  next
    case WTest
    then show ?thesis using assms(3) by (auto simp: flow_inv_def)
  next
    case WMark
    then show ?thesis using assms(3) by (auto simp: flow_inv_def)
  next
    case WSleep
    have "0 \<le> copying (s_r s)"
      using assms(2) by (auto simp: sched_inv_def copying_def wfc_alloc split: rstate.splits)
    then show ?thesis using WSleep assms(3) l by (auto simp: flow_inv_def qnotfull_def)
  next
    case (WakeReader xs ys)
    then show ?thesis using assms(3)
      by (auto simp: flow_inv_def wake_r_def copying_def split: wstate.splits)
  next
    case (WakeWriter xs ys)
    then show ?thesis using assms(3) by (auto simp: flow_inv_def wake_w_def split: wstate.splits)
  next
    case (Other xs e ys)
    then show ?thesis using assms(3) by (auto simp: flow_inv_def split: wstate.splits)
  next
    case (Close q' ev k')
    then show ?thesis using assms(3) qclose_eff [OF Close(2)] by (auto simp: flow_inv_def sameq_def split: wstate.splits)
  next
    case (Hangup msg q' ev)
    then show ?thesis using assms(3) qhangup_eff [OF Hangup(2)] by (auto simp: flow_inv_def sameq_def split: wstate.splits)
  qed simp_all
qed

lemma reach_sched:
  assumes "reach False pl s0 s" "opened s0"
  shows "sched_inv s"
  using assms by (induction rule: reach.induct) (auto intro: opened_sched sched_step)

lemma reach_flow:
  assumes "reach False False s0 s" "opened s0" "\<not> tst (q_state (s_q s0)) Qcoalesce"
  shows "flow_inv s"
  using assms
proof (induction rule: reach.induct)
  case (Step s s')
  then show ?case using flow_step [OF Step.hyps(2) reach_sched [OF Step.hyps(1)]] by simp
qed (rule opened_flow)

text \<open>The read that is copying never faults and can always finish.\<close>

lemma copy_finishes:
  assumes "sched_inv s" "s_r s = RCopy first n len"
  shows "\<exists>s'. qstep fl pl s s' \<and> s_r s' = RIdle"
proof -
  have wf: "wfc first" "0 \<le> len" using assms by (auto simp: sched_inv_def)
  obtain vp rest k1 where b: "bl2mem first len (s_k s) = Inr ((vp, rest), k1)"
    using bl2mem_ok [OF wf, of "s_k s"] by (auto simp: kok_returns)
  obtain m q' ev k' where f: "qread_finish (s_q s) n rest k1 = ((m, q', ev), k')" by (metis prod.exhaust)
  show ?thesis by (intro exI conjI, rule qstep.RFinish [OF assms(2) b f]) simp
qed

lemma parked_both:
  assumes "sched_inv s" "flow_inv s" "s_r s = RParked" "s_w s = WParked" "WakeR \<notin> set (s_pend s)"
  shows "WakeW \<in> set (s_pend s)"
proof -
  have q: "q_bfirst (s_q s) = []" "qinv (s_q s)" and l: "0 < q_limit (s_q s) sdiv 2"
    using assms half_limit by (auto simp: sched_inv_def flow_inv_def)
  then have "q_len (s_q s) < q_limit (s_q s) sdiv 2" by (simp add: qinv_def)
  then show ?thesis using assms by (auto simp: flow_inv_def)
qed

end
