(* ===== verification/Qio_Properties.thy ===== *)
theory Qio_Properties
  imports Qsched
begin

text \<open>
  The correctness statements of the block and queue code, one theorem each, with the concrete
  inputs on which their hypotheses hold. The proofs are in the theories Block, Blocklist, Queue
  and Qstream.
\<close>

section \<open>Concrete states\<close>

text \<open>
  A kernel whose allocator hands out successive pages, a block with the given bytes behind the
  usual header space, and a queue holding the given messages.
\<close>

definition sample_kern :: Kern where
  "sample_kern = \<lparr>k_up = True, k_bytes = 0, k_limit = 100000, k_m1 = 0, k_mp = 0, k_debugialloc = False, k_iac = [],
     k_mallocs = (\<lambda>i. Some (4096 + 4096 * int i, [])), k_mnext = 0, k_drvfreed = [], k_padblockcnt = 0,
     k_concatblockcnt = 0, k_pullupblockcnt = 0, k_copyblockcnt = 0, k_consumecnt = 0, k_producecnt = 0,
     k_qcopycnt = 0, k_noblockcnt = 0\<rparr>"

definition sample_block :: "byte list \<Rightarrow> Block" where
  "sample_block bs = \<lparr>b_rp = 64, b_wp = 64 + int (length bs), b_lim = 64 + int (length bs), b_base = 0,
     b_data = replicate 64 0 @ bs, b_free = None, b_flag = 0, b_checksum = 0\<rparr>"

definition sample_queue :: "32 word \<Rightarrow> byte list list \<Rightarrow> Queue" where
  "sample_queue st ms = \<lparr>q_bfirst = map sample_block ms, q_len = blockalloclen (map sample_block ms),
     q_dlen = blocklen (map sample_block ms), q_limit = 4096, q_inilim = 4096, q_state = st, q_noblock = False,
     q_eof = 0, q_kick = False, q_bypass = False, q_err = ''''\<rparr>"

lemma sample_kern_avail [simp]: "mem_avail sample_kern" "k_mp sample_kern = 0" "k_limit sample_kern = 100000"
  "k_bytes sample_kern = 0"
  by (simp_all add: mem_avail_def sample_kern_def)

lemma sample_block_wf [simp]:
  "wfb (sample_block bs)" "bcont (sample_block bs) = bs" "BLEN (sample_block bs) = int (length bs)"
  by (simp_all add: wfb_def bcont_def BLEN_def sample_block_def bslice_def)

lemma sample_chain_wf [simp]: "wfc (map sample_block ms)" "ccont (map sample_block ms) = concat ms"
  by (simp_all add: wfc_def ccont_def comp_def)

lemma sample_queue_inv [simp]:
  "qinv (sample_queue st ms)" "qmsgs (sample_queue st ms) = ms" "qcont (sample_queue st ms) = concat ms"
  "q_state (sample_queue st ms) = st" "q_bfirst (sample_queue st ms) = map sample_block ms"
  "writable (sample_queue st ms) \<longleftrightarrow> \<not> tst st Qclosed"
  by (simp_all add: qinv_def sample_queue_def qmsgs_def qcont_def comp_def writable_def)

lemma sample_flags [simp]: "\<not> tst (0::32 word) f" "tst Qmsg Qmsg" "\<not> tst Qmsg Qcoalesce" "\<not> tst Qcoalesce Qmsg"
  "\<not> tst Qmsg Qclosed" "\<not> tst Qcoalesce Qclosed" "tst Qcoalesce Qcoalesce" "\<not> tst Qcoalesce Qstarve"
  by (simp_all add: tst_def qflag_defs)

section \<open>Queues as byte streams\<close>

text \<open>
  C1: Whatever the order in which writers and readers call \<^verbatim>\<open>qwrite\<close> and \<^verbatim>\<open>qread\<close> on an open
  stream queue, the bytes read followed by the bytes still queued are the bytes queued at the
  start followed by the bytes accepted from writers: none lost, duplicated or reordered; and no
  block leaks or is freed twice.
\<close>

theorem queue_fifo:
  assumes "stream_inv s" "chan_run chan_put chan_get s sent recvd t"
  shows "qcont (fst s) @ sent = recvd @ qcont (fst t) \<and> stream_inv t \<and> stream_held t = stream_held s"
  using qs.run_fifo [OF assms(2,1)] by simp

theorem queue_fifo_witness:
  "\<exists>t recvd. chan_run chan_put chan_get (sample_queue Qcoalesce [[1, 2], [3]], sample_kern) [] recvd t \<and>
     [1, 2, 3] @ [] = recvd @ qcont (fst t)"
proof -
  let ?s = "(sample_queue Qcoalesce [[1, 2], [3]], sample_kern)"
  have inv: "stream_inv ?s" by (simp add: stream_inv_def)
  obtain bs t where g: "chan_get ?s 2 = Some (bs, t)" using qs.get_total [OF inv] by force
  have run: "chan_run chan_put chan_get ?s [] ([] @ bs) t"
    by (rule chan_run.Get [where get = chan_get, OF chan_run.Start g])
  then show ?thesis using queue_fifo [OF inv run] by (intro exI [of _ t] exI [of _ bs]) simp
qed

text \<open>
  C17: A read of at most \<open>len\<close> bytes from a stream queue never faults; it returns a prefix of the
  queued bytes and leaves the rest in order, it sleeps only on an open queue without data, and
  fails only on a closed queue without data, with the queue's error. The blocks it has emptied
  are freed.
\<close>

theorem qread_stream:
  assumes "qinv q" "\<not> tst (q_state q) Qmsg" "0 \<le> len"
  shows "kok (qread q len k) (\<lambda>(r, q', ev) k'. qinv q' \<and> acct k' (q_bfirst q') = acct k (q_bfirst q) \<and>
    mem_avail k' = mem_avail k \<and> (case r of
      Ret (n, vp) \<Rightarrow> qcont q = vp @ qcont q' \<and> n = int (length vp) \<and> n \<le> len \<and>
        (qcont q \<noteq> [] \<and> 0 < len \<and> tst (q_state q) Qcoalesce \<longrightarrow> vp \<noteq> [])
    | Sleep _ \<Rightarrow> qcont q = [] \<and> q_bfirst q' = [] \<and> \<not> tst (q_state q) Qclosed
    | Error e \<Rightarrow> qcont q = [] \<and> q_bfirst q' = [] \<and> tst (q_state q) Qclosed \<and> e = q_err q))"
  using assms by (rule qread_stream_ok)

theorem qread_stream_witness:
  "\<exists>r q' ev k'. qread (sample_queue Qcoalesce [[1, 2], [3]]) 2 sample_kern = Inr ((r, q', ev), k') \<and> qinv q'"
  using qread_stream [of "sample_queue Qcoalesce [[1, 2], [3]]" 2 sample_kern] by (auto simp: kok_returns)

text \<open>
  A read from a message queue returns the head message, cut to \<open>len\<close>, and drops the whole
  message: the tail that did not fit is freed with its block.
\<close>

theorem qread_msg:
  assumes "qinv q" "tst (q_state q) Qmsg" "\<not> tst (q_state q) Qcoalesce" "0 \<le> len" "q_bfirst q = b # nxt"
  shows "kok (qread q len k) (\<lambda>(r, q', ev) k'. qinv q' \<and> acct k' (q_bfirst q') = acct k (q_bfirst q) \<and>
    r = Ret (min len (BLEN b), take (nat len) (bcont b)) \<and> qmsgs q' = map bcont nxt)"
  using assms by (rule qread_msg_ok)

theorem qread_msg_witness:
  "\<exists>q' ev k'. qread (sample_queue Qmsg [[1, 2], [3]]) 1 sample_kern = Inr ((Ret (1, [1]), q', ev), k') \<and> qmsgs q' = [[3]]"
  using qread_msg [of "sample_queue Qmsg [[1, 2], [3]]" 1 "sample_block [1, 2]" "[sample_block [3]]" sample_kern]
  by (auto simp: kok_returns)

text \<open>
  C18: A write of \<open>len\<close> bytes to an open, blocking stream queue never faults or fails: it appends
  the bytes in order, and when it goes to sleep after \<open>s\<close> bytes, exactly the first \<open>s\<close> are
  queued, \<open>s\<close> has advanced, and \<^verbatim>\<open>Qflow\<close> is set for the reader that will wake it.
\<close>

theorem qwrite_stream:
  assumes "qinv q" "writable q" "\<not> tst (q_state q) Qmsg" "0 \<le> len" "len \<le> int (length vp)" "mem_avail k"
  shows "kok (qwrite q vp len k) (\<lambda>(r, q', ev) k'. qinv q' \<and> acct k' (q_bfirst q') = acct k (q_bfirst q) \<and> (case r of
      Ret n \<Rightarrow> n = len \<and> qcont q' = qcont q @ take (nat len) vp
    | Sleep s \<Rightarrow> 0 \<le> s \<and> s \<le> len \<and> (0 < len \<longrightarrow> 0 < s) \<and> tst (q_state q') Qflow \<and> qcont q' = qcont q @ take (nat s) vp
    | Error _ \<Rightarrow> False))"
  using qwrite_loop_ok [OF assms(1-3) order_refl assms(4-6)] unfolding qwrite_def
  by (elim kok_mono) (auto simp: wrote_def split: out.splits)

theorem qwrite_stream_witness:
  "\<exists>r q' ev k'. qwrite (sample_queue 0 [[9]]) [1, 2, 3] 3 sample_kern = Inr ((r, q', ev), k') \<and> qinv q'"
  using qwrite_stream [of "sample_queue 0 [[9]]" 3 "[1, 2, 3]" sample_kern] by (auto simp: kok_returns)

section \<open>The wakeup protocol\<close>

text \<open>
  A system around a sample queue, and the runs of it that the theorems below refer to.
\<close>

definition sample_sys :: "32 word \<Rightarrow> int \<Rightarrow> Sys" where
  "sample_sys st lim = \<lparr>s_q = (sample_queue st [])\<lparr>q_limit := lim\<rparr>, s_k = sample_kern, s_r = RIdle, s_w = WIdle, s_pend = []\<rparr>"

lemma sample_sys_opened: "\<not> tst st Qflow \<Longrightarrow> 2 \<le> lim \<Longrightarrow> opened (sample_sys st lim)"
  by (simp add: opened_def sample_sys_def sample_queue_def qinv_def)

lemma reach_step: "qstep fl pl s s' \<Longrightarrow> reach fl pl s' t \<Longrightarrow> reach fl pl s t"
proof (rotate_tac, induction rule: reach.induct)
  case Init
  then show ?case by (blast intro: reach.intros)
next
  case (Step t u)
  then show ?case by (blast intro: reach.intros)
qed




text \<open>Sample queues with a limit: how the operations of the runs below change them.\<close>

definition limq :: "int \<Rightarrow> 32 word \<Rightarrow> byte list list \<Rightarrow> Queue" where
  "limq lim st ms = (sample_queue st ms)\<lparr>q_limit := lim\<rparr>"

definition lims :: "int \<Rightarrow> 32 word \<Rightarrow> byte list list \<Rightarrow> rstate \<Rightarrow> wstate \<Rightarrow> qev list \<Rightarrow> Sys" where
  "lims lim st ms r w pend = \<lparr>s_q = limq lim st ms, s_k = sample_kern, s_r = r, s_w = w, s_pend = pend\<rparr>"

lemma lims_start: "lims lim st [] RIdle WIdle [] = sample_sys st lim"
  by (simp add: lims_def sample_sys_def limq_def)

lemma limq_simps [simp]:
  "q_state (limq lim st ms) = st" "q_bfirst (limq lim st ms) = map sample_block ms" "q_limit (limq lim st ms) = lim"
  "q_noblock (limq lim st ms) = False" "q_bypass (limq lim st ms) = False" "q_kick (limq lim st ms) = False"
  "(limq lim st ms)\<lparr>q_state := st'\<rparr> = limq lim st' ms" "q_len (limq lim st ms) = 64 * int (length ms) + int (length (concat ms))"
  "qlink (limq lim st ms) [sample_block m] = limq lim st (ms @ [m])"
proof -
  show "qlink (limq lim st ms) [sample_block m] = limq lim st (ms @ [m])"
    by (simp add: limq_def sample_queue_def qlink_def)
  show "q_len (limq lim st ms) = 64 * int (length ms) + int (length (concat ms))"
    by (induction ms) (simp_all add: limq_def sample_queue_def sample_block_def BALLOC_def)
qed (simp_all add: limq_def sample_queue_def)

lemma lims_put:
  assumes "\<not> tst st Qclosed" "\<not> tst st Qstarve"
  shows "qstep fl pl (lims lim st ms r WIdle p) (lims lim st (ms @ [m]) r WLoop p)"
  using qstep.WPut [of "lims lim st ms r WIdle p" "sample_block m" None "limq lim st (ms @ [m])" "[]" sample_kern fl pl] assms
  by (simp add: lims_def qbwrite_put_def qunstarve_def Let_def)

lemma lims_put_starved:
  assumes "\<not> tst st Qclosed" "tst st Qstarve"
  shows "qstep fl pl (lims lim st ms r WIdle p) (lims lim (clrf st Qstarve) (ms @ [m]) r WLoop (p @ [WakeR]))"
  using qstep.WPut [of "lims lim st ms r WIdle p" "sample_block m" None "limq lim (clrf st Qstarve) (ms @ [m])" "[WakeR]" sample_kern fl pl] assms
  by (simp add: lims_def qbwrite_put_def qunstarve_def Let_def)

lemma lims_starve:
  assumes "\<not> tst st Qclosed"
  shows "qstep fl pl (lims lim st [] RIdle w p) (lims lim (setf st Qstarve) [] RSleeping w p)"
proof -
  have "qread_take (limq lim st []) 1 sample_kern = ((NoData (Sleep 0), limq lim (setf st Qstarve) []), sample_kern)"
    using assms by (subst qread_take.simps) (simp add: qwait_def)
  then show ?thesis
    using qstep.RTake [of "lims lim st [] RIdle w p" 1 "NoData (Sleep 0)" "limq lim (setf st Qstarve) []" sample_kern fl pl]
    by (simp add: lims_def after_take_def)
qed

lemma lims_park:
  assumes "\<not> tst st Qclosed"
  shows "qstep fl pl (lims lim st [] RSleeping w p) (lims lim st [] RParked w p)"
  using qstep.RSleep [of "lims lim st [] RSleeping w p" fl pl] assms by (simp add: lims_def notempty_def)

lemma lims_wakes:
  "r \<noteq> RParked \<Longrightarrow> qstep fl pl (lims lim st ms r w [WakeR]) (lims lim st ms r w [])"
  "w \<noteq> WParked \<Longrightarrow> qstep fl pl (lims lim st ms r w [WakeW]) (lims lim st ms r w [])"
  using qstep.WakeReader [of "lims lim st ms r w [WakeR]" "[]" "[]" fl pl]
    qstep.WakeWriter [of "lims lim st ms r w [WakeW]" "[]" "[]" fl pl]
  by (simp_all add: lims_def wake_r_def wake_w_def)

lemma lims_done:
  assumes "64 * int (length ms) + int (length (concat ms)) < lim"
  shows "qstep fl pl (lims lim st ms r WLoop p) (lims lim st ms r WIdle p)"
  using qstep.WTest [of "lims lim st ms r WLoop p" fl pl] assms
  by (simp add: lims_def qnotfull_def)

lemma lims_full:
  assumes "lim \<le> 64 * int (length ms) + int (length (concat ms))" "\<not> tst st Qclosed"
  shows "qstep fl pl (lims lim st ms r WLoop p) (lims lim st ms r WFull p)"
    "qstep fl pl (lims lim st ms r WFull p) (lims lim (setf st Qflow) ms r WSleeping p)"
    "qstep fl pl (lims lim st ms r WSleeping p) (lims lim st ms r WParked p)"
  using qstep.WTest [of "lims lim st ms r WLoop p" fl pl] qstep.WMark [of "lims lim st ms r WFull p" fl pl]
    qstep.WSleep [of "lims lim st ms r WSleeping p" fl pl] assms
  by (simp_all add: lims_def qnotfull_def)

lemma lims_flush: "qstep True pl (lims lim st ms r w []) ((lims lim st [] r w [WakeW]))"
proof -
  have "freeblist (map sample_block ms) k = k" for k
    by (induction ms arbitrary: k) (simp_all add: freeb_def sample_block_def)
  then have "qflush (limq lim st ms) sample_kern = ((limq lim st [], [WakeW]), sample_kern)"
    by (simp add: qflush_def) (simp add: limq_def sample_queue_def)
  then show ?thesis
    using qstep.Flush [of True "lims lim st ms r w []" "limq lim st []" "[WakeW]" sample_kern pl] by (simp add: lims_def)
qed

lemma lims_drop_empty:
  assumes "\<not> tst st Qclosed" "tst st Qcoalesce"
  shows "qstep fl pl (lims lim st [[]] RIdle w p) (lims lim (setf st Qstarve) [] RSleeping w p)"
proof -
  have rm: "qunlink (limq lim st [[]]) [sample_block []] [] = limq lim st []"
    by (simp add: qunlink_def limq_def sample_queue_def sample_block_def BALLOC_def BLEN_def)
  have "qread_take (limq lim st [[]]) 1 sample_kern = qread_take (limq lim st []) 1 sample_kern"
    using assms rm by (subst qread_take.simps) (simp add: qwait_def, simp add: freeb_def sample_block_def)
  also have "\<dots> = ((NoData (Sleep 0), limq lim (setf st Qstarve) []), sample_kern)"
    using assms by (subst qread_take.simps) (simp add: qwait_def)
  finally show ?thesis
    using qstep.RTake [of "lims lim st [[]] RIdle w p" 1 "NoData (Sleep 0)" "limq lim (setf st Qstarve) []" sample_kern fl pl]
    by (simp add: lims_def after_take_def)
qed

text \<open>
  C36: With \<^verbatim>\<open>qflush\<close> a wakeup can be lost. A reader finds the queue empty and releases the lock; before
  it sleeps, a write clears the starvation flag and a flush empties the queue; the reader then
  parks on an empty queue that is not marked starved, and the next write does not wake it: it
  stays asleep with data queued and no wakeup on its way.
\<close>

theorem flush_loses_wakeup:
  "\<exists>s. reach True False (sample_sys 0 4096) s \<and> s_r s = RParked \<and> q_bfirst (s_q s) \<noteq> [] \<and> s_pend s = [] \<and>
     \<not> tst (q_state (s_q s)) Qstarve"
proof -
  let ?st = "clrf (setf 0 Qstarve) Qstarve"
  have "reach True False (lims 4096 0 [] RIdle WIdle []) (lims 4096 ?st ([] @ [[2]]) RParked WLoop [])"
    by (rule reach_step [OF lims_starve], simp, rule reach_step [OF lims_put_starved [where m = "[1]"]], simp, simp,
        simp only: append_Nil, rule reach_step [OF lims_wakes(1)], simp, rule reach_step [OF lims_done], simp,
        rule reach_step [OF lims_flush], rule reach_step [OF lims_wakes(2)], simp, rule reach_step [OF lims_park], simp,
        rule reach_step [OF lims_put [where m = "[2]"]], simp, simp, simp, rule reach.Init)
  then show ?thesis
    unfolding lims_start by (intro exI conjI, assumption) (simp_all add: lims_def)
qed

text \<open>
  C11: On a queue that does not coalesce, used only by a reader and a writer and by
  \<^verbatim>\<open>qclose\<close> and \<^verbatim>\<open>qhangup\<close> (no \<^verbatim>\<open>qpass\<close> or other sender outside \<^verbatim>\<open>wlock\<close>, no
  \<^verbatim>\<open>qflush\<close> or other taker outside \<^verbatim>\<open>rlock\<close>), the two are never both asleep for good: when
  both are asleep and no wakeup of the reader is on its way, a wakeup of the writer is.
\<close>

theorem no_deadlock:
  assumes "opened s0" "\<not> tst (q_state (s_q s0)) Qcoalesce" "reach False False s0 s"
    "s_r s = RParked" "s_w s = WParked" "WakeR \<notin> set (s_pend s)"
  shows "WakeW \<in> set (s_pend s)"
  using parked_both [OF reach_sched [OF assms(3,1)] reach_flow [OF assms(3,1,2)] assms(4-6)] .

lemma lims_take:
  assumes "\<not> tst st Qcoalesce"
  shows "qstep fl pl (lims lim st [m] RIdle w p) (lims lim st [] (RCopy [sample_block m] (int (length m)) (int (length m))) w p)"
proof -
  have rm: "qunlink (limq lim st [m]) [sample_block m] [] = limq lim st []"
    by (simp add: qunlink_def limq_def sample_queue_def)
  have "qread_take (limq lim st [m]) (int (length m)) sample_kern =
      ((Took [sample_block m] (int (length m)), limq lim st []), sample_kern)"
    using assms rm by (subst qread_take.simps) (simp add: qwait_def)
  then show ?thesis
    using qstep.RTake [of "lims lim st [m] RIdle w p" "int (length m)" "Took [sample_block m] (int (length m))" "limq lim st []"
        sample_kern fl pl]
    by (simp add: lims_def after_take_def)
qed

lemma lims_restart:
  assumes "tst st Qflow" "2 \<le> lim"
  shows "qstep fl pl (lims lim st [] (RCopy [sample_block m] (int (length m)) (int (length m))) w p)
    (lims lim (clrf st Qflow) [] RIdle w (p @ [WakeW]))"
proof -
  have b: "bl2mem [sample_block m] (int (length m)) sample_kern = Inr ((m, []), sample_kern)"
    using memmove_out_head [of "sample_block m" "int (length m)" sample_kern]
    by simp (simp add: freeb_def sample_block_def)
  have f: "qread_finish (limq lim st []) (int (length m)) [] sample_kern =
      ((int (length m), limq lim (clrf st Qflow) [], [WakeW]), sample_kern)"
    using assms half_limit [of lim] by (simp add: qread_finish_def qwakeup_iunlock_def qrestart_def)
  let ?s = "lims lim st [] (RCopy [sample_block m] (int (length m)) (int (length m))) w p"
  show ?thesis
    using qstep.RFinish [where s = ?s and first = "[sample_block m]" and vp = m and rest = "[]" and ?k1.0 = sample_kern
        and n = "int (length m)" and len = "int (length m)" and fl = fl and pl = pl] b f
    by (simp add: lims_def)
qed

theorem no_deadlock_witness:
  "\<exists>s. reach False False (sample_sys 0 64) s \<and> s_r s = RParked \<and> s_w s = WParked \<and> WakeW \<in> set (s_pend s)"
proof -
  let ?st = "setf (clrf (setf 0 Qflow) Qflow) Qstarve"
  let ?s = "lims 64 ?st [] RParked WParked [WakeW]"
  have "reach False False (lims 64 0 [] RIdle WIdle []) ?s"
    by (rule reach_step [OF lims_put [where m = "[1]"]], simp, simp, simp only: append_Nil,
        rule reach_step [OF lims_full(1)], simp, simp, rule reach_step [OF lims_full(2)], simp, simp,
        rule reach_step [OF lims_full(3)], simp, simp,
        rule reach_step [OF lims_take], simp, rule reach_step [OF lims_restart], simp, simp, simp only: append_Nil,
        rule reach_step [OF lims_starve], simp, rule reach_step [OF lims_park], simp, rule reach.Init)
  then have r: "reach False False (sample_sys 0 64) ?s" by (simp only: lims_start)
  have "WakeW \<in> set (s_pend ?s)"
    by (rule no_deadlock [OF sample_sys_opened _ r]) (simp_all add: lims_def sample_sys_def)
  then show ?thesis using r by (intro exI [of _ ?s]) (simp add: lims_def)
qed

text \<open>
  C37: A coalescing queue can deadlock: a writer fills it with empty blocks and waits for room, the
  reader throws the empty blocks away without restarting the writer, and both sleep on the empty
  queue with no wakeup on its way.
\<close>

theorem coalesce_deadlock:
  "\<exists>s. reach False False (sample_sys Qcoalesce 64) s \<and> s_r s = RParked \<and> s_w s = WParked \<and> s_pend s = [] \<and>
     q_bfirst (s_q s) = [] \<and> \<not> tst (q_state (s_q s)) Qclosed"
proof -
  let ?st = "setf (setf Qcoalesce Qflow) Qstarve"
  have "reach False False (lims 64 Qcoalesce [] RIdle WIdle []) (lims 64 ?st [] RParked WParked [])"
    by (rule reach_step [OF lims_put [where m = "[]"]], simp, simp, simp only: append_Nil,
        rule reach_step [OF lims_full(1)], simp, simp, rule reach_step [OF lims_full(2)], simp, simp,
        rule reach_step [OF lims_full(3)], simp, simp,
        rule reach_step [OF lims_drop_empty], simp, simp,
        rule reach_step [OF lims_park], simp, rule reach.Init)
  then show ?thesis
    unfolding lims_start by (intro exI conjI, assumption) (simp_all add: lims_def)
qed

end
