(* ===== verification/Qlock.thy ===== *)
theory Qlock
  imports Prelude
begin

text \<open>
  Queueing locks and reader/writer locks (\<^verbatim>\<open>port/qlock.c\<close>). Waiting processes are linked
  through \<^verbatim>\<open>Proc.qnext\<close>, with \<^verbatim>\<open>head\<close> and \<^verbatim>\<open>tail\<close> pointers in the lock; a process
  is a number, nil is None, and the fields of processes are functions in \<open>Procs\<close>. Every routine
  runs under the spin lock \<^verbatim>\<open>q->use\<close> from beginning to end, up to the call of \<^verbatim>\<open>sched\<close>
  by which a process gives up the processor: the definitions return whether the lock was obtained
  at once or the caller was queued. The program counters kept for debugging and the tracing
  hook are left out.

  The lemmas show that the pointers always hold the list of waiting processes, and, over
  every sequence of calls, mutual exclusion, first come first served, and that the panics are
  unreachable.
\<close>

section \<open>State\<close>

datatype pstate = Running | Ready | Queueing | QueueingR | QueueingW

record Procs =
  p_qnext :: "nat \<Rightarrow> nat option"
  p_state :: "nat \<Rightarrow> pstate"
  p_readied :: "nat list"
  rw_rlock :: ulong
  rw_rlockq :: ulong
  rw_wlock :: ulong
  rw_wlockq :: ulong
  rw_qlock :: ulong
  rw_qlockq :: ulong

record QLock =
  l_head :: "nat option"
  l_tail :: "nat option"
  l_locked :: bool

record RWlock =
  w_head :: "nat option"
  w_tail :: "nat option"
  w_wproc :: "nat option"
  w_readers :: int
  w_writer :: int

text \<open>\<^verbatim>\<open>ready\<close> of the scheduler: the process becomes runnable; the calls are recorded in order.\<close>

definition ready :: "nat \<Rightarrow> Procs \<Rightarrow> Procs" where
  "ready p s = s\<lparr>p_state := (p_state s)(p := Ready), p_readied := p_readied s @ [p]\<rparr>"

text \<open>The linking code the three locking routines share.\<close>

definition enqueue :: "nat \<Rightarrow> pstate \<Rightarrow> nat option \<Rightarrow> nat option \<Rightarrow> Procs \<Rightarrow> nat option \<times> nat option \<times> Procs" where
  "enqueue u st head tail s =
     (let (head, qn) = (case tail of None \<Rightarrow> (Some u, p_qnext s) | Some p \<Rightarrow> (head, (p_qnext s)(p := Some u)))
      in (head, Some u, s\<lparr>p_qnext := qn(u := None), p_state := (p_state s)(u := st)\<rparr>))"

section \<open>QLock\<close>

definition qlock :: "nat option \<Rightarrow> QLock \<Rightarrow> Procs \<Rightarrow> (bool \<times> QLock, Procs) kres" where
  "qlock up q s =
     (let s = s\<lparr>rw_qlock := rw_qlock s + 1\<rparr> in
      if \<not> l_locked q then Inr ((True, q\<lparr>l_locked := True\<rparr>), s)
      else case up of
             None \<Rightarrow> Inl (Panic ''qlock'')
           | Some u \<Rightarrow>
               let s = s\<lparr>rw_qlockq := rw_qlockq s + 1\<rparr>;
                   (h, t, s) = enqueue u Queueing (l_head q) (l_tail q) s
               in Inr ((False, q\<lparr>l_head := h, l_tail := t\<rparr>), s))"

text \<open>\<open>got\<close> is what \<^verbatim>\<open>canlock(&q->use)\<close> returns: it fails when another processor holds the spin lock.\<close>

definition canqlock :: "bool \<Rightarrow> QLock \<Rightarrow> bool \<times> QLock" where
  "canqlock got q =
     (if \<not> got then (False, q) else if l_locked q then (False, q) else (True, q\<lparr>l_locked := True\<rparr>))"

definition qunlock :: "QLock \<Rightarrow> Procs \<Rightarrow> QLock \<times> Procs" where
  "qunlock q s = (case l_head q of
       Some p \<Rightarrow>
         let q = q\<lparr>l_head := p_qnext s p\<rparr>;
             q = (if l_head q = None then q\<lparr>l_tail := None\<rparr> else q)
         in (q, ready p s)
     | None \<Rightarrow> (q\<lparr>l_locked := False\<rparr>, s))"

section \<open>RWlock\<close>

definition rlock :: "nat option \<Rightarrow> RWlock \<Rightarrow> Procs \<Rightarrow> (bool \<times> RWlock, Procs) kres" where
  "rlock up q s =
     (let s = s\<lparr>rw_rlock := rw_rlock s + 1\<rparr> in
      if w_writer q = 0 \<and> w_head q = None then Inr ((True, q\<lparr>w_readers := w_readers q + 1\<rparr>), s)
      else case up of
             None \<Rightarrow> Inl (Panic ''rlock'')
           | Some u \<Rightarrow>
               let s = s\<lparr>rw_rlockq := rw_rlockq s + 1\<rparr>;
                   (h, t, s) = enqueue u QueueingR (w_head q) (w_tail q) s
               in Inr ((False, q\<lparr>w_head := h, w_tail := t\<rparr>), s))"

definition runlock :: "RWlock \<Rightarrow> Procs \<Rightarrow> (RWlock, Procs) kres" where
  "runlock q s =
     (let q = q\<lparr>w_readers := w_readers q - 1\<rparr> in
      case w_head q of
        None \<Rightarrow> Inr (q, s)
      | Some p \<Rightarrow>
          if w_readers q > 0 then Inr (q, s)
          else if p_state s p \<noteq> QueueingW then Inl (Panic ''runlock'')
          else
            let q = q\<lparr>w_head := p_qnext s p\<rparr>;
                q = (if w_head q = None then q\<lparr>w_tail := None\<rparr> else q)
            in Inr (q\<lparr>w_writer := 1\<rparr>, ready p s))"

definition wlock :: "nat option \<Rightarrow> RWlock \<Rightarrow> Procs \<Rightarrow> (bool \<times> RWlock, Procs) kres" where
  "wlock up q s =
     (let s = s\<lparr>rw_wlock := rw_wlock s + 1\<rparr> in
      if w_readers q = 0 \<and> w_writer q = 0 then Inr ((True, q\<lparr>w_wproc := up, w_writer := 1\<rparr>), s)
      else let s = s\<lparr>rw_wlockq := rw_wlockq s + 1\<rparr> in
           case up of
             None \<Rightarrow> Inl (Panic ''wlock'')
           | Some u \<Rightarrow>
               let (h, t, s) = enqueue u QueueingW (w_head q) (w_tail q) s
               in Inr ((False, q\<lparr>w_head := h, w_tail := t\<rparr>), s))"

text \<open>The loop that wakes waiting readers follows pointers: on a cyclic list it would not return.\<close>

partial_function (option) wake_readers :: "nat option \<Rightarrow> int \<Rightarrow> Procs \<Rightarrow> (nat option \<times> int \<times> Procs) option" where
  "wake_readers head readers s = (case head of
       None \<Rightarrow> Some (None, readers, s)
     | Some p \<Rightarrow>
         if p_state s p = QueueingR then wake_readers (p_qnext s p) (readers + 1) (ready p s)
         else Some (head, readers, s))"

definition wunlock :: "RWlock \<Rightarrow> Procs \<Rightarrow> (RWlock, Procs) kres option" where
  "wunlock q s = (case w_head q of
       None \<Rightarrow> Some (Inr (q\<lparr>w_writer := 0\<rparr>, s))
     | Some p \<Rightarrow>
         if p_state s p = QueueingW then
           let q = q\<lparr>w_head := p_qnext s p\<rparr>;
               q = (if w_head q = None then q\<lparr>w_tail := None\<rparr> else q)
           in Some (Inr (q, ready p s))
         else if p_state s p \<noteq> QueueingR then Some (Inl (Panic ''wunlock''))
         else case wake_readers (w_head q) (w_readers q) s of
                None \<Rightarrow> None
              | Some (h, n, s) \<Rightarrow>
                  let q = q\<lparr>w_head := h, w_readers := n\<rparr>;
                      q = (if w_head q = None then q\<lparr>w_tail := None\<rparr> else q)
                  in Some (Inr (q\<lparr>w_writer := 0\<rparr>, s)))"

definition canrlock :: "RWlock \<Rightarrow> Procs \<Rightarrow> (bool \<times> RWlock) \<times> Procs" where
  "canrlock q s =
     (let s = s\<lparr>rw_rlock := rw_rlock s + 1\<rparr> in
      if w_writer q = 0 \<and> w_head q = None then ((True, q\<lparr>w_readers := w_readers q + 1\<rparr>), s)
      else ((False, q), s))"

section \<open>The list behind the pointers\<close>

fun links :: "(nat \<Rightarrow> nat option) \<Rightarrow> nat option \<Rightarrow> nat list \<Rightarrow> bool" where
  "links nx h [] \<longleftrightarrow> h = None"
| "links nx h (x # xs) \<longleftrightarrow> h = Some x \<and> links nx (nx x) xs"

definition waitq :: "nat option \<Rightarrow> nat option \<Rightarrow> Procs \<Rightarrow> nat list \<Rightarrow> bool" where
  "waitq head tail s ws \<longleftrightarrow> links (p_qnext s) head ws \<and> tail = (if ws = [] then None else Some (last ws)) \<and> distinct ws"

lemma links_upd: "u \<notin> set ws \<Longrightarrow> links (nx(u := v)) h ws \<longleftrightarrow> links nx h ws"
  by (induction ws arbitrary: h) auto

lemma links_snoc:
  assumes "links nx h ws" "ws \<noteq> []" "distinct ws" "u \<notin> set ws"
  shows "links (nx(last ws := Some u, u := None)) h (ws @ [u])"
  using assms
proof (induction ws arbitrary: h)
  case (Cons x ws)
  show ?case
  proof (cases "ws = []")
    case False
    then have "x \<noteq> last ws" "x \<noteq> u" using Cons.prems by auto
    then show ?thesis using Cons False by simp
  qed (use Cons.prems in auto)
qed simp

lemma waitq_enqueue:
  assumes "waitq h t s ws" "u \<notin> set ws" "enqueue u st h t s = (h', t', s')"
  shows "waitq h' t' s' (ws @ [u])" "p_state s' = (p_state s)(u := st)" "p_readied s' = p_readied s"
proof -
  have s': "s' = s\<lparr>p_qnext := (case t of None \<Rightarrow> p_qnext s | Some p \<Rightarrow> (p_qnext s)(p := Some u))(u := None),
      p_state := (p_state s)(u := st)\<rparr>" and t': "t' = Some u" and h': "h' = (case t of None \<Rightarrow> Some u | Some p \<Rightarrow> h)"
    using assms(3) by (auto simp: enqueue_def Let_def split: option.splits)
  show "p_state s' = (p_state s)(u := st)" "p_readied s' = p_readied s" by (simp_all add: s')
  show "waitq h' t' s' (ws @ [u])"
  proof (cases "ws = []")
    case True
    then show ?thesis using assms(1) by (simp add: waitq_def s' t' h')
  next
    case False
    then have "t = Some (last ws)" using assms(1) by (simp add: waitq_def)
    then show ?thesis
      using assms(1,2) False links_snoc [of "p_qnext s" h ws u] by (simp add: waitq_def s' t' h')
  qed
qed

lemma waitq_dequeue:
  assumes "waitq (Some p) t s ws"
  shows "\<exists>ws'. ws = p # ws' \<and> p \<notin> set ws' \<and>
    waitq (p_qnext s p) (if p_qnext s p = None then None else t) (ready p s) ws' \<and>
    (p_qnext s p = None \<longleftrightarrow> ws' = [])"
proof -
  obtain ws' where ws: "ws = p # ws'" using assms by (cases ws) (auto simp: waitq_def)
  have l: "links (p_qnext s) (p_qnext s p) ws'" using assms by (auto simp: waitq_def ws)
  then have "p_qnext s p = None \<longleftrightarrow> ws' = []" by (cases ws') auto
  then show ?thesis using assms l by (auto simp: waitq_def ws ready_def)
qed

lemma waitq_stats [simp]:
  "waitq h t (s\<lparr>rw_qlock := x\<rparr>) ws = waitq h t s ws" "waitq h t (s\<lparr>rw_qlockq := x\<rparr>) ws = waitq h t s ws"
  "waitq h t (s\<lparr>rw_rlock := x\<rparr>) ws = waitq h t s ws" "waitq h t (s\<lparr>rw_rlockq := x\<rparr>) ws = waitq h t s ws"
  "waitq h t (s\<lparr>rw_wlock := x\<rparr>) ws = waitq h t s ws" "waitq h t (s\<lparr>rw_wlockq := x\<rparr>) ws = waitq h t s ws"
  by (simp_all add: waitq_def)

lemma waitq_head: "waitq h t s ws \<Longrightarrow> h = (case ws of [] \<Rightarrow> None | w # _ \<Rightarrow> Some w)"
  by (cases ws) (auto simp: waitq_def)

section \<open>Processes using a lock\<close>

text \<open>
  \<open>g_in\<close> are the processes between a locking and the matching unlocking call (the critical
  section), \<open>g_req\<close> all requests in the order in which they got the spin lock, \<open>g_grant\<close> the
  processes that got the lock, in order. A process that is made ready by an unlocking call
  returns from its locking call, and so is in the critical section from then on.
\<close>

record Qsys =
  g_lock :: QLock
  g_procs :: Procs
  g_in :: "nat list"
  g_req :: "nat list"
  g_grant :: "nat list"

definition newly :: "Procs \<Rightarrow> Procs \<Rightarrow> nat list" where
  "newly s s' = drop (length (p_readied s)) (p_readied s')"

inductive lstep :: "Qsys \<Rightarrow> Qsys \<Rightarrow> bool" where
  Lock: "p_state (g_procs g) p \<noteq> Queueing \<Longrightarrow> p \<notin> set (g_in g) \<Longrightarrow>
    qlock (Some p) (g_lock g) (g_procs g) = Inr ((b, q'), s') \<Longrightarrow>
    lstep g (g\<lparr>g_lock := q', g_procs := s', g_in := g_in g @ (if b then [p] else []), g_req := g_req g @ [p],
      g_grant := g_grant g @ (if b then [p] else [])\<rparr>)"
| Can: "p_state (g_procs g) p \<noteq> Queueing \<Longrightarrow> p \<notin> set (g_in g) \<Longrightarrow> canqlock got (g_lock g) = (b, q') \<Longrightarrow>
    lstep g (g\<lparr>g_lock := q', g_in := g_in g @ (if b then [p] else []), g_req := g_req g @ (if b then [p] else []),
      g_grant := g_grant g @ (if b then [p] else [])\<rparr>)"
| Unlock: "p \<in> set (g_in g) \<Longrightarrow> qunlock (g_lock g) (g_procs g) = (q', s') \<Longrightarrow>
    lstep g (g\<lparr>g_lock := q', g_procs := s', g_in := remove1 p (g_in g) @ newly (g_procs g) s',
      g_grant := g_grant g @ newly (g_procs g) s'\<rparr>)"

definition lstart :: "Qsys \<Rightarrow> bool" where
  "lstart g \<longleftrightarrow> l_head (g_lock g) = None \<and> l_tail (g_lock g) = None \<and> \<not> l_locked (g_lock g) \<and>
     (\<forall>p. p_state (g_procs g) p \<noteq> Queueing) \<and> g_in g = [] \<and> g_req g = [] \<and> g_grant g = []"

text \<open>The invariant: the lock is held by at most one process, waiters imply a holder.\<close>

definition lwait :: "Qsys \<Rightarrow> nat list \<Rightarrow> bool" where
  "lwait g ws \<longleftrightarrow> waitq (l_head (g_lock g)) (l_tail (g_lock g)) (g_procs g) ws \<and>
     (\<forall>p. p \<in> set ws \<longleftrightarrow> p_state (g_procs g) p = Queueing) \<and> length (g_in g) \<le> 1 \<and>
     (l_locked (g_lock g) \<longleftrightarrow> g_in g \<noteq> []) \<and> (ws \<noteq> [] \<longrightarrow> g_in g \<noteq> []) \<and> set (g_in g) \<inter> set ws = {} \<and>
     g_req g = g_grant g @ ws"

lemma newly_simps [simp]: "newly s s = []" "newly s (ready p s) = [p]"
  by (simp_all add: newly_def ready_def)

lemma lwait_start: "lstart g \<Longrightarrow> lwait g []"
  by (auto simp: lstart_def lwait_def waitq_def)

lemma lwait_step:
  assumes "lstep g g'" "lwait g ws"
  shows "\<exists>ws'. lwait g' ws'"
  using assms(1)
proof (cases rule: lstep.cases)
  case (Lock p b q' s')
  have pw: "p \<notin> set ws" using assms(2) Lock(2) by (simp add: lwait_def)
  show ?thesis
  proof (cases "l_locked (g_lock g)")
    case False
    then have "lwait g' ws" using assms(2) Lock pw by (auto simp: lwait_def qlock_def)
    then show ?thesis ..
  next
    case True
    let ?s = "(g_procs g)\<lparr>rw_qlock := rw_qlock (g_procs g) + 1, rw_qlockq := rw_qlockq (g_procs g) + 1\<rparr>"
    obtain h t s1 where e: "enqueue p Queueing (l_head (g_lock g)) (l_tail (g_lock g)) ?s = (h, t, s1)" by (metis prod.exhaust)
    have w: "waitq (l_head (g_lock g)) (l_tail (g_lock g)) ?s ws" using assms(2) by (simp add: lwait_def)
    note q = waitq_enqueue [OF w pw e]
    have "b = False" "q' = (g_lock g)\<lparr>l_head := h, l_tail := t\<rparr>" "s' = s1" using Lock True e by (auto simp: qlock_def Let_def)
    then have "lwait g' (ws @ [p])"
      using assms(2) Lock q True by (auto simp: lwait_def)
    then show ?thesis ..
  qed
next
  case (Can p got b q')
  then have "lwait g' ws" using assms(2) by (auto simp: lwait_def canqlock_def split: if_splits)
  then show ?thesis ..
next
  case (Unlock p q' s')
  have len: "length (g_in g) \<le> 1" "l_locked (g_lock g) \<longleftrightarrow> g_in g \<noteq> []"
    and wq: "waitq (l_head (g_lock g)) (l_tail (g_lock g)) (g_procs g) ws" using assms(2) by (simp_all add: lwait_def)
  have inn: "g_in g = [p]" using len(1) Unlock(2) by (cases "g_in g") auto
  then have lk: "l_locked (g_lock g)" using len(2) by simp
  show ?thesis
  proof (cases "l_head (g_lock g)")
    case None
    then have "ws = []" using waitq_head [OF wq] by (cases ws) simp_all
    then have "lwait g' []" using assms(2) Unlock None inn by (auto simp: lwait_def qunlock_def)
    then show ?thesis ..
  next
    case (Some r)
    obtain ws' where d: "ws = r # ws'" "r \<notin> set ws'"
      "waitq (p_qnext (g_procs g) r) (if p_qnext (g_procs g) r = None then None else l_tail (g_lock g)) (ready r (g_procs g)) ws'"
      using waitq_dequeue [OF wq [unfolded Some]] by blast
    have "s' = ready r (g_procs g)" "l_head q' = p_qnext (g_procs g) r" "l_locked q' = l_locked (g_lock g)"
      "l_tail q' = (if p_qnext (g_procs g) r = None then None else l_tail (g_lock g))"
      using Unlock Some by (auto simp: qunlock_def Let_def split: if_splits)
    moreover have "(x \<in> set ws') = (p_state (ready r (g_procs g)) x = Queueing)" for x
    proof -
      have "(x \<in> set ws) = (p_state (g_procs g) x = Queueing)" using assms(2) by (simp add: lwait_def)
      then show ?thesis using d(1,2) by (auto simp: ready_def)
    qed
    moreover have "g_req g = g_grant g @ r # ws'" using assms(2) d(1) by (simp add: lwait_def)
    ultimately have "lwait g' ws'"
      using Unlock inn d(2,3) lk unfolding lwait_def by simp
    then show ?thesis ..
  qed
qed

section \<open>Processes using a reader/writer lock\<close>

record RWsys =
  h_lock :: RWlock
  h_procs :: Procs
  h_rin :: "nat list"
  h_win :: "nat list"
  h_req :: "nat list"
  h_grant :: "nat list"

definition rwwaiting :: "Procs \<Rightarrow> nat \<Rightarrow> bool" where
  "rwwaiting s p \<longleftrightarrow> p_state s p = QueueingR \<or> p_state s p = QueueingW"

definition outside :: "RWsys \<Rightarrow> nat \<Rightarrow> bool" where
  "outside g p \<longleftrightarrow> \<not> rwwaiting (h_procs g) p \<and> p \<notin> set (h_rin g) \<and> p \<notin> set (h_win g)"

text \<open>After an unlocking call: the processes it made ready are inside, as what they waited for.\<close>

definition entered :: "RWsys \<Rightarrow> RWlock \<Rightarrow> Procs \<Rightarrow> RWsys" where
  "entered g q' s' = (let ps = newly (h_procs g) s' in
     g\<lparr>h_lock := q', h_procs := s', h_rin := h_rin g @ filter (\<lambda>p. p_state (h_procs g) p = QueueingR) ps,
       h_win := h_win g @ filter (\<lambda>p. p_state (h_procs g) p = QueueingW) ps, h_grant := h_grant g @ ps\<rparr>)"

inductive rwstep :: "RWsys \<Rightarrow> RWsys \<Rightarrow> bool" where
  RLock: "outside g p \<Longrightarrow> rlock (Some p) (h_lock g) (h_procs g) = Inr ((b, q'), s') \<Longrightarrow>
    rwstep g (g\<lparr>h_lock := q', h_procs := s', h_rin := h_rin g @ (if b then [p] else []), h_req := h_req g @ [p],
      h_grant := h_grant g @ (if b then [p] else [])\<rparr>)"
| WLock: "outside g p \<Longrightarrow> wlock (Some p) (h_lock g) (h_procs g) = Inr ((b, q'), s') \<Longrightarrow>
    rwstep g (g\<lparr>h_lock := q', h_procs := s', h_win := h_win g @ (if b then [p] else []), h_req := h_req g @ [p],
      h_grant := h_grant g @ (if b then [p] else [])\<rparr>)"
| CanRLock: "outside g p \<Longrightarrow> canrlock (h_lock g) (h_procs g) = ((b, q'), s') \<Longrightarrow>
    rwstep g (g\<lparr>h_lock := q', h_procs := s', h_rin := h_rin g @ (if b then [p] else []),
      h_req := h_req g @ (if b then [p] else []), h_grant := h_grant g @ (if b then [p] else [])\<rparr>)"
| RUnlock: "p \<in> set (h_rin g) \<Longrightarrow> runlock (h_lock g) (h_procs g) = Inr (q', s') \<Longrightarrow>
    rwstep g (entered (g\<lparr>h_rin := remove1 p (h_rin g)\<rparr>) q' s')"
| WUnlock: "p \<in> set (h_win g) \<Longrightarrow> wunlock (h_lock g) (h_procs g) = Some (Inr (q', s')) \<Longrightarrow>
    rwstep g (entered (g\<lparr>h_win := remove1 p (h_win g)\<rparr>) q' s')"

definition rwstart :: "RWsys \<Rightarrow> bool" where
  "rwstart g \<longleftrightarrow> w_head (h_lock g) = None \<and> w_tail (h_lock g) = None \<and> w_readers (h_lock g) = 0 \<and> w_writer (h_lock g) = 0 \<and>
     (\<forall>p. \<not> rwwaiting (h_procs g) p) \<and> h_rin g = [] \<and> h_win g = [] \<and> h_req g = [] \<and> h_grant g = []"

text \<open>
  The invariant: the counters count the processes inside, a writer is alone, waiters imply
  someone inside, and a process waiting first while readers are inside is a writer.
\<close>

definition rwwait :: "RWsys \<Rightarrow> nat list \<Rightarrow> bool" where
  "rwwait g ws \<longleftrightarrow> waitq (w_head (h_lock g)) (w_tail (h_lock g)) (h_procs g) ws \<and>
     (\<forall>p. p \<in> set ws \<longleftrightarrow> rwwaiting (h_procs g) p) \<and> (set (h_rin g) \<union> set (h_win g)) \<inter> set ws = {} \<and>
     w_readers (h_lock g) = int (length (h_rin g)) \<and> w_writer (h_lock g) = int (length (h_win g)) \<and>
     length (h_win g) \<le> 1 \<and> (h_win g \<noteq> [] \<longrightarrow> h_rin g = []) \<and> (ws \<noteq> [] \<longrightarrow> h_rin g \<noteq> [] \<or> h_win g \<noteq> []) \<and>
     (h_rin g \<noteq> [] \<and> ws \<noteq> [] \<longrightarrow> p_state (h_procs g) (hd ws) = QueueingW) \<and> h_req g = h_grant g @ ws"

lemma rwwait_start: "rwstart g \<Longrightarrow> rwwait g []"
  by (auto simp: rwstart_def rwwait_def waitq_def)

lemma wake_readers_ok:
  assumes "links (p_qnext s) h ws" "distinct ws"
  shows "wake_readers h n s = Some (case dropWhile (\<lambda>p. p_state s p = QueueingR) ws of [] \<Rightarrow> None | w # _ \<Rightarrow> Some w,
      n + int (length (takeWhile (\<lambda>p. p_state s p = QueueingR) ws)),
      foldl (\<lambda>s p. ready p s) s (takeWhile (\<lambda>p. p_state s p = QueueingR) ws))"
  using assms
proof (induction ws arbitrary: h n s)
  case Nil
  then show ?case by (subst wake_readers.simps) simp
next
  case (Cons w ws)
  show ?case
  proof (cases "p_state s w = QueueingR")
    case True
    have st: "p_state (ready w s) p = p_state s p" if "p \<in> set ws" for p
      using that Cons.prems by (auto simp: ready_def)
    have "dropWhile (\<lambda>p. p_state (ready w s) p = QueueingR) ws = dropWhile (\<lambda>p. p_state s p = QueueingR) ws"
      "takeWhile (\<lambda>p. p_state (ready w s) p = QueueingR) ws = takeWhile (\<lambda>p. p_state s p = QueueingR) ws"
      using st by (auto intro: dropWhile_cong takeWhile_cong)
    then have "wake_readers (p_qnext s w) (n + 1) (ready w s) =
      Some (case dropWhile (\<lambda>p. p_state s p = QueueingR) ws of [] \<Rightarrow> None | w # _ \<Rightarrow> Some w,
        n + 1 + int (length (takeWhile (\<lambda>p. p_state s p = QueueingR) ws)),
        foldl (\<lambda>s p. ready p s) (ready w s) (takeWhile (\<lambda>p. p_state s p = QueueingR) ws))"
      using Cons.IH [of "ready w s" "p_qnext s w" "n + 1"] Cons.prems by (simp add: ready_def)
    then show ?thesis using True Cons.prems by (subst wake_readers.simps) simp
  next
    case False
    then show ?thesis using Cons.prems by (subst wake_readers.simps) simp
  qed
qed

lemma foldl_ready:
  "p_qnext (foldl (\<lambda>s p. ready p s) s ps) = p_qnext s"
  "p_readied (foldl (\<lambda>s p. ready p s) s ps) = p_readied s @ ps"
  "p_state (foldl (\<lambda>s p. ready p s) s ps) p = (if p \<in> set ps then Ready else p_state s p)"
  by (induction ps arbitrary: s) (simp_all add: ready_def)

lemma links_drop:
  "links nx h (ws @ vs) \<Longrightarrow> \<exists>h'. links nx h' vs"
  by (induction ws arbitrary: h) auto

lemma rwwaitD:
  assumes "rwwait g ws"
  shows "waitq (w_head (h_lock g)) (w_tail (h_lock g)) (h_procs g) ws"
    "\<And>p. p \<in> set ws \<longleftrightarrow> rwwaiting (h_procs g) p" "set (h_rin g) \<inter> set ws = {}" "set (h_win g) \<inter> set ws = {}"
    "w_readers (h_lock g) = int (length (h_rin g))" "w_writer (h_lock g) = int (length (h_win g))"
    "length (h_win g) \<le> 1" "h_win g \<noteq> [] \<longrightarrow> h_rin g = []" "ws \<noteq> [] \<longrightarrow> h_rin g \<noteq> [] \<or> h_win g \<noteq> []"
    "h_rin g \<noteq> [] \<and> ws \<noteq> [] \<longrightarrow> p_state (h_procs g) (hd ws) = QueueingW" "h_req g = h_grant g @ ws"
  using assms unfolding rwwait_def by auto

lemma wq_Nil: "waitq h t s ws \<Longrightarrow> h = None \<longleftrightarrow> ws = []"
  using waitq_head [of h t s ws] by (cases ws) simp_all

lemma rwstep_queue:
  assumes w: "rwwait g ws" and o: "outside g p" and st: "st = QueueingR \<or> st = QueueingW"
    and e: "enqueue p st (w_head (h_lock g)) (w_tail (h_lock g)) s0 = (h, t, s1)"
    and s0: "p_qnext s0 = p_qnext (h_procs g)" "p_state s0 = p_state (h_procs g)"
    and busy: "h_rin g \<noteq> [] \<or> h_win g \<noteq> []" and first: "ws = [] \<and> h_rin g \<noteq> [] \<longrightarrow> st = QueueingW"
  shows "rwwait (g\<lparr>h_lock := (h_lock g)\<lparr>w_head := h, w_tail := t\<rparr>, h_procs := s1, h_req := h_req g @ [p]\<rparr>) (ws @ [p])"
proof -
  note D = rwwaitD [OF w]
  have pw: "p \<notin> set ws" using D(2) o by (simp add: outside_def)
  have "waitq (w_head (h_lock g)) (w_tail (h_lock g)) s0 ws" using D(1) s0 by (simp add: waitq_def)
  note q = waitq_enqueue [OF this pw e]
  have "(x \<in> set (ws @ [p])) = rwwaiting s1 x" for x
    using D(2) [of x] st by (auto simp: rwwaiting_def q(2) s0)
  moreover have "p_state s1 (hd (ws @ [p])) = QueueingW" if "h_rin g \<noteq> []"
  proof (cases "ws = []")
    case False
    then have "hd ws \<noteq> p" using pw by (cases ws) auto
    then show ?thesis using D(10) that False by (simp add: q(2) s0)
  qed (use first that in \<open>simp add: q(2)\<close>)
  ultimately show ?thesis
    using D(3-8,11) q(1) busy o unfolding rwwait_def by (auto simp: outside_def)
qed

lemma rwstep_rlock:
  assumes "rwwait g ws" "outside g p" "rlock (Some p) (h_lock g) (h_procs g) = Inr ((b, q'), s')"
  shows "\<exists>ws'. rwwait (g\<lparr>h_lock := q', h_procs := s', h_rin := h_rin g @ (if b then [p] else []), h_req := h_req g @ [p],
      h_grant := h_grant g @ (if b then [p] else [])\<rparr>) ws'"
proof -
  note D = rwwaitD [OF assms(1)]
  show ?thesis
  proof (cases "w_writer (h_lock g) = 0 \<and> w_head (h_lock g) = None")
    case True
    then have "ws = []" "h_win g = []" using wq_Nil [OF D(1)] D(6) by simp_all
    then have "rwwait (g\<lparr>h_lock := q', h_procs := s', h_rin := h_rin g @ (if b then [p] else []), h_req := h_req g @ [p],
      h_grant := h_grant g @ (if b then [p] else [])\<rparr>) []"
      using D assms(3) True unfolding rwwait_def by (auto simp: rlock_def rwwaiting_def)
    then show ?thesis ..
  next
    case False
    let ?s = "(h_procs g)\<lparr>rw_rlock := rw_rlock (h_procs g) + 1, rw_rlockq := rw_rlockq (h_procs g) + 1\<rparr>"
    obtain h t s1 where e: "enqueue p QueueingR (w_head (h_lock g)) (w_tail (h_lock g)) ?s = (h, t, s1)" by (metis prod.exhaust)
    have "b = False" "q' = (h_lock g)\<lparr>w_head := h, w_tail := t\<rparr>" "s' = s1"
      using assms(3) False e by (auto simp: rlock_def Let_def split: if_splits)
    moreover have "h_rin g \<noteq> [] \<or> h_win g \<noteq> []" "ws = [] \<and> h_rin g \<noteq> [] \<longrightarrow> QueueingR = QueueingW"
      using False wq_Nil [OF D(1)] D(6,8,9) by auto
    ultimately show ?thesis using rwstep_queue [OF assms(1,2) _ e] by auto
  qed
qed

lemma rwstep_wlock:
  assumes "rwwait g ws" "outside g p" "wlock (Some p) (h_lock g) (h_procs g) = Inr ((b, q'), s')"
  shows "\<exists>ws'. rwwait (g\<lparr>h_lock := q', h_procs := s', h_win := h_win g @ (if b then [p] else []), h_req := h_req g @ [p],
      h_grant := h_grant g @ (if b then [p] else [])\<rparr>) ws'"
proof -
  note D = rwwaitD [OF assms(1)]
  show ?thesis
  proof (cases "w_readers (h_lock g) = 0 \<and> w_writer (h_lock g) = 0")
    case True
    then have "h_rin g = []" "h_win g = []" "ws = []" using D(5,6,9) by auto
    then have "rwwait (g\<lparr>h_lock := q', h_procs := s', h_win := h_win g @ (if b then [p] else []), h_req := h_req g @ [p],
      h_grant := h_grant g @ (if b then [p] else [])\<rparr>) []"
      using D assms(3) True unfolding rwwait_def by (auto simp: wlock_def rwwaiting_def)
    then show ?thesis ..
  next
    case False
    let ?s = "(h_procs g)\<lparr>rw_wlock := rw_wlock (h_procs g) + 1, rw_wlockq := rw_wlockq (h_procs g) + 1\<rparr>"
    obtain h t s1 where e: "enqueue p QueueingW (w_head (h_lock g)) (w_tail (h_lock g)) ?s = (h, t, s1)" by (metis prod.exhaust)
    have "b = False" "q' = (h_lock g)\<lparr>w_head := h, w_tail := t\<rparr>" "s' = s1"
      using assms(3) False e by (auto simp: wlock_def Let_def split: if_splits)
    moreover have "h_rin g \<noteq> [] \<or> h_win g \<noteq> []" using False D(5,6) by auto
    ultimately show ?thesis using rwstep_queue [OF assms(1,2) _ e] by auto
  qed
qed

text \<open>Handing the lock to the writer that waits first, from the last reader or from a writer.\<close>

lemma rwwait_handoff:
  assumes "rwwait g ws" "w_head (h_lock g) = Some r" "p_state (h_procs g) r = QueueingW"
    and lone: "h_rin g @ h_win g = [p]"
    and q': "w_head q' = p_qnext (h_procs g) r" "w_readers q' = 0" "w_writer q' = 1"
      "w_tail q' = (if p_qnext (h_procs g) r = None then None else w_tail (h_lock g))"
    and g0: "h_rin g0 = []" "h_win g0 = []" "h_procs g0 = h_procs g" "h_req g0 = h_req g" "h_grant g0 = h_grant g"
  shows "\<exists>ws'. rwwait (entered g0 q' (ready r (h_procs g))) ws'"
proof -
  note D = rwwaitD [OF assms(1)]
  obtain ws' where d: "ws = r # ws'" "r \<notin> set ws'"
    "waitq (p_qnext (h_procs g) r) (if p_qnext (h_procs g) r = None then None else w_tail (h_lock g)) (ready r (h_procs g)) ws'"
    using waitq_dequeue [OF D(1) [unfolded assms(2)]] by blast
  have "(x \<in> set ws') = rwwaiting (ready r (h_procs g)) x" for x
    using D(2) [of x] d(1,2) by (auto simp: rwwaiting_def ready_def)
  moreover have "h_req g = h_grant g @ r # ws'" using D(11) d(1) by simp
  ultimately have "rwwait (entered g0 q' (ready r (h_procs g))) ws'"
    using d(2,3) q' g0 assms(3) unfolding rwwait_def entered_def Let_def by simp
  then show ?thesis ..
qed

lemma runlock_ok:
  assumes "rwwait g ws" "p \<in> set (h_rin g)"
  shows "\<exists>q' s'. runlock (h_lock g) (h_procs g) = Inr (q', s') \<and>
    (\<exists>ws'. rwwait (entered (g\<lparr>h_rin := remove1 p (h_rin g)\<rparr>) q' s') ws')"
proof -
  note D = rwwaitD [OF assms(1)]
  have rn: "h_rin g \<noteq> []" "h_win g = []" using assms(2) D(8) by auto
  let ?q = "(h_lock g)\<lparr>w_readers := w_readers (h_lock g) - 1\<rparr>"
  have len: "int (length (remove1 p (h_rin g))) = w_readers ?q"
    using assms(2) D(5) rn by (simp add: length_remove1 Suc_leI length_greater_0_conv of_nat_diff)
  consider (more) "w_head (h_lock g) = None \<or> w_readers ?q > 0"
    | (last) r where "w_head (h_lock g) = Some r" "\<not> w_readers ?q > 0" by (cases "w_head (h_lock g)") auto
  then show ?thesis
  proof cases
    case more
    have e: "runlock (h_lock g) (h_procs g) = Inr (?q, h_procs g)"
      using more by (auto simp: runlock_def Let_def split: option.split)
    have "remove1 p (h_rin g) \<noteq> []" if "ws \<noteq> []"
      using more that len wq_Nil [OF D(1)] by auto
    moreover have "set (remove1 p (h_rin g)) \<inter> set ws = {}"
      using D(3) set_remove1_subset [of p "h_rin g"] by blast
    ultimately have "rwwait (entered (g\<lparr>h_rin := remove1 p (h_rin g)\<rparr>) ?q (h_procs g)) ws"
      using D(1,2,6,10,11) len rn unfolding rwwait_def entered_def Let_def by auto
    then show ?thesis using e by blast
  next
    case last
    have one: "h_rin g = [p]" using last(2) D(5) assms(2) rn by (cases "h_rin g") auto
    have "p_state (h_procs g) r = QueueingW"
      using D(10) rn waitq_head [OF D(1)] last(1) by (cases ws) auto
    moreover obtain q' where "runlock (h_lock g) (h_procs g) = Inr (q', ready r (h_procs g))"
      "w_head q' = p_qnext (h_procs g) r" "w_readers q' = 0" "w_writer q' = 1"
      "w_tail q' = (if p_qnext (h_procs g) r = None then None else w_tail (h_lock g))"
      using last calculation D(5) one by (auto simp: runlock_def Let_def)
    ultimately show ?thesis
      using rwwait_handoff [OF assms(1) last(1), of p q' "g\<lparr>h_rin := remove1 p (h_rin g)\<rparr>"] one rn(2) by simp
  qed
qed

lemma waitq_wake:
  assumes "waitq h t s ws"
  defines "rs \<equiv> takeWhile (\<lambda>p. p_state s p = QueueingR) ws" and "vs \<equiv> dropWhile (\<lambda>p. p_state s p = QueueingR) ws"
  shows "wake_readers h n s = Some (case vs of [] \<Rightarrow> None | w # _ \<Rightarrow> Some w, n + int (length rs), foldl (\<lambda>s p. ready p s) s rs)"
    and "waitq (case vs of [] \<Rightarrow> None | w # _ \<Rightarrow> Some w) (if vs = [] then None else t) (foldl (\<lambda>s p. ready p s) s rs) vs"
    and "ws = rs @ vs"
proof -
  have l: "links (p_qnext s) h ws" "distinct ws" using assms(1) by (simp_all add: waitq_def)
  show "wake_readers h n s = Some (case vs of [] \<Rightarrow> None | w # _ \<Rightarrow> Some w, n + int (length rs), foldl (\<lambda>s p. ready p s) s rs)"
    unfolding rs_def vs_def by (rule wake_readers_ok [OF l])
  show ws: "ws = rs @ vs" by (simp add: rs_def vs_def)
  obtain h' where "links (p_qnext s) h' vs" using links_drop l(1) ws by blast
  then have "links (p_qnext s) (case vs of [] \<Rightarrow> None | w # _ \<Rightarrow> Some w) vs" by (cases vs) auto
  then show "waitq (case vs of [] \<Rightarrow> None | w # _ \<Rightarrow> Some w) (if vs = [] then None else t) (foldl (\<lambda>s p. ready p s) s rs) vs"
    using assms(1) ws by (auto simp: waitq_def foldl_ready split: if_splits)
qed

lemma wunlock_ok:
  assumes "rwwait g ws" "p \<in> set (h_win g)"
  shows "\<exists>q' s'. wunlock (h_lock g) (h_procs g) = Some (Inr (q', s')) \<and>
    (\<exists>ws'. rwwait (entered (g\<lparr>h_win := remove1 p (h_win g)\<rparr>) q' s') ws')"
proof -
  note D = rwwaitD [OF assms(1)]
  have wn: "h_win g = [p]" "h_rin g = []" using assms(2) D(7,8) by (cases "h_win g"; auto)+
  let ?s = "h_procs g"
  consider (none) "w_head (h_lock g) = None"
    | (writer) r where "w_head (h_lock g) = Some r" "p_state ?s r = QueueingW"
    | (reader) r where "w_head (h_lock g) = Some r" "p_state ?s r = QueueingR"
    using waitq_head [OF D(1)] D(2) by (cases ws) (auto simp: rwwaiting_def)
  then show ?thesis
  proof cases
    case none
    then have "ws = []" using wq_Nil [OF D(1)] by simp
    then have "rwwait (entered (g\<lparr>h_win := remove1 p (h_win g)\<rparr>) ((h_lock g)\<lparr>w_writer := 0\<rparr>) ?s) []"
      using D wn unfolding rwwait_def entered_def Let_def by simp
    then show ?thesis using none by (auto simp: wunlock_def)
  next
    case writer
    obtain q' where "wunlock (h_lock g) ?s = Some (Inr (q', ready r ?s))"
      "w_head q' = p_qnext ?s r" "w_readers q' = 0" "w_writer q' = 1"
      "w_tail q' = (if p_qnext ?s r = None then None else w_tail (h_lock g))"
      using writer D(5,6) wn by (auto simp: wunlock_def Let_def)
    then show ?thesis
      using rwwait_handoff [OF assms(1) writer, of p q' "g\<lparr>h_win := remove1 p (h_win g)\<rparr>"] wn by simp
  next
    case reader
    let ?rs = "takeWhile (\<lambda>p. p_state ?s p = QueueingR) ws" and ?vs = "dropWhile (\<lambda>p. p_state ?s p = QueueingR) ws"
    let ?s' = "foldl (\<lambda>s p. ready p s) ?s ?rs"
    note W = waitq_wake [OF D(1)]
    obtain q' where e: "wunlock (h_lock g) ?s = Some (Inr (q', ?s'))"
      "w_head q' = (case ?vs of [] \<Rightarrow> None | w # _ \<Rightarrow> Some w)" "w_readers q' = int (length ?rs)" "w_writer q' = 0"
      "w_tail q' = (if ?vs = [] then None else w_tail (h_lock g))"
      using reader D(5) wn W(1) [of "w_readers (h_lock g)"]
      by (cases ?vs) (auto simp: wunlock_def Let_def)
    have new: "newly ?s ?s' = ?rs" by (simp add: newly_def foldl_ready)
    have fl: "filter (\<lambda>p. p_state ?s p = QueueingR) ?rs = ?rs" "filter (\<lambda>p. p_state ?s p = QueueingW) ?rs = []"
      by (auto simp: filter_empty_conv filter_id_conv dest: set_takeWhileD)
    have dis: "set ?rs \<inter> set ?vs = {}"
      using D(1) W(3) by (metis distinct_append waitq_def)
    have mem: "(x \<in> set ?vs) = rwwaiting ?s' x" for x
    proof -
      have "(x \<in> set ws) = (x \<in> set ?rs \<or> x \<in> set ?vs)"
        using arg_cong [OF W(3), of "\<lambda>l. x \<in> set l"] by (simp only: set_append Un_iff)
      then show ?thesis using D(2) [of x] dis by (auto simp: rwwaiting_def foldl_ready)
    qed
    have first: "p_state ?s' (hd ?vs) = QueueingW" if "?vs \<noteq> []"
    proof -
      have "hd ?vs \<in> set ?vs" using that by simp
      moreover have "p_state ?s (hd ?vs) \<noteq> QueueingR" using that by (rule hd_dropWhile)
      ultimately show ?thesis using mem [of "hd ?vs"] dis by (auto simp: rwwaiting_def foldl_ready split: if_splits)
    qed
    have ne: "?rs \<noteq> []" using reader waitq_head [OF D(1)] by (cases ws) auto
    have "h_req g = (h_grant g @ ?rs) @ ?vs" using D(11) W(3) by simp
    then have "rwwait (entered (g\<lparr>h_win := remove1 p (h_win g)\<rparr>) q' ?s') ?vs"
      using W(2) e(2-5) mem first dis ne wn unfolding rwwait_def entered_def Let_def by (simp add: new fl)
    then show ?thesis using e(1) by blast
  qed
qed

lemma rwwait_step:
  assumes "rwstep g g'" "rwwait g ws"
  shows "\<exists>ws'. rwwait g' ws'"
  using assms(1)
proof (cases rule: rwstep.cases)
  case (RLock p b q' s')
  then show ?thesis using rwstep_rlock [OF assms(2)] by simp
next
  case (WLock p b q' s')
  then show ?thesis using rwstep_wlock [OF assms(2)] by simp
next
  case (CanRLock p b q' s')
  show ?thesis
  proof (cases b)
    case True
    then have "rlock (Some p) (h_lock g) (h_procs g) = Inr ((True, q'), s')"
      using CanRLock(3) by (auto simp: canrlock_def rlock_def Let_def split: if_splits)
    then show ?thesis using rwstep_rlock [OF assms(2) CanRLock(2)] True CanRLock(1) by simp
  next
    case False
    then have "g' = g\<lparr>h_procs := (h_procs g)\<lparr>rw_rlock := rw_rlock (h_procs g) + 1\<rparr>\<rparr>"
      using CanRLock by (auto simp: canrlock_def Let_def split: if_splits)
    then have "rwwait g' ws" using rwwaitD [OF assms(2)] unfolding rwwait_def by (auto simp: rwwaiting_def)
    then show ?thesis ..
  qed
next
  case (RUnlock p q' s')
  then show ?thesis using runlock_ok [OF assms(2) RUnlock(2)] by auto
next
  case (WUnlock p q' s')
  then show ?thesis using wunlock_ok [OF assms(2) WUnlock(2)] by auto
qed

section \<open>The contract of a fair lock\<close>

text \<open>
  A lock that serves first come first served: the processes granted so far followed by those
  waiting are the requests in order. What a client may rely on is proved once, and holds for
  both kinds of lock.
\<close>

locale fifo_lock =
  fixes start :: "'g \<Rightarrow> bool"
    and step :: "'g \<Rightarrow> 'g \<Rightarrow> bool"
    and waits :: "'g \<Rightarrow> nat list \<Rightarrow> bool"
    and req :: "'g \<Rightarrow> nat list"
    and granted :: "'g \<Rightarrow> nat list"
  assumes start_waits: "start g \<Longrightarrow> waits g []"
    and step_waits: "waits g ws \<Longrightarrow> step g g' \<Longrightarrow> \<exists>ws'. waits g' ws'"
    and waits_fifo: "waits g ws \<Longrightarrow> req g = granted g @ ws"
begin

lemma reach_waits:
  assumes "step\<^sup>*\<^sup>* g g'" "start g"
  shows "\<exists>ws. waits g' ws"
  using assms
proof (induction rule: rtranclp_induct)
  case base
  then show ?case using start_waits by blast
next
  case (step h k)
  then show ?case using step_waits by blast
qed

text \<open>No overtaking: the n-th grant serves the n-th request.\<close>

lemma no_overtaking:
  assumes "step\<^sup>*\<^sup>* g g'" "start g" "i < length (granted g')"
  shows "i < length (req g') \<and> granted g' ! i = req g' ! i"
proof -
  obtain ws where "waits g' ws" using reach_waits assms by blast
  then have "req g' = granted g' @ ws" by (rule waits_fifo)
  then show ?thesis using assms(3) by (simp add: nth_append)
qed

end

interpretation ql: fifo_lock lstart lstep lwait g_req g_grant
proof
  show "lstart g \<Longrightarrow> lwait g []" for g by (rule lwait_start)
  show "lwait g ws \<Longrightarrow> lstep g g' \<Longrightarrow> \<exists>ws'. lwait g' ws'" for g ws g' by (rule lwait_step)
  show "lwait g ws \<Longrightarrow> g_req g = g_grant g @ ws" for g ws by (simp add: lwait_def)
qed

interpretation rw: fifo_lock rwstart rwstep rwwait h_req h_grant
proof
  show "rwstart g \<Longrightarrow> rwwait g []" for g by (rule rwwait_start)
  show "rwwait g ws \<Longrightarrow> rwstep g g' \<Longrightarrow> \<exists>ws'. rwwait g' ws'" for g ws g' by (rule rwwait_step)
  show "rwwait g ws \<Longrightarrow> h_req g = h_grant g @ ws" for g ws by (simp add: rwwait_def)
qed

section \<open>Properties\<close>

definition sample_procs :: Procs where
  "sample_procs = \<lparr>p_qnext = (\<lambda>_. None), p_state = (\<lambda>_. Running), p_readied = [], rw_rlock = 0, rw_rlockq = 0,
     rw_wlock = 0, rw_wlockq = 0, rw_qlock = 0, rw_qlockq = 0\<rparr>"

definition sample_qsys :: Qsys where
  "sample_qsys = \<lparr>g_lock = \<lparr>l_head = None, l_tail = None, l_locked = False\<rparr>, g_procs = sample_procs,
     g_in = [], g_req = [], g_grant = []\<rparr>"

definition sample_rwsys :: RWsys where
  "sample_rwsys = \<lparr>h_lock = \<lparr>w_head = None, w_tail = None, w_wproc = None, w_readers = 0, w_writer = 0\<rparr>,
     h_procs = sample_procs, h_rin = [], h_win = [], h_req = [], h_grant = []\<rparr>"

lemma sample_starts: "lstart sample_qsys" "rwstart sample_rwsys"
  by (simp_all add: lstart_def rwstart_def sample_qsys_def sample_rwsys_def sample_procs_def rwwaiting_def)

text \<open>The same systems after process 7 has taken the lock, as a reader in the second.\<close>

definition sample_qheld :: Qsys where
  "sample_qheld = sample_qsys\<lparr>g_lock := \<lparr>l_head = None, l_tail = None, l_locked = True\<rparr>,
     g_procs := sample_procs\<lparr>rw_qlock := 1\<rparr>, g_in := [7], g_req := [7], g_grant := [7]\<rparr>"

definition sample_rwheld :: RWsys where
  "sample_rwheld = sample_rwsys\<lparr>h_lock := (h_lock sample_rwsys)\<lparr>w_readers := 1\<rparr>,
     h_procs := sample_procs\<lparr>rw_rlock := 1\<rparr>, h_rin := [7], h_req := [7], h_grant := [7]\<rparr>"

lemma sample_lstep: "lstep\<^sup>*\<^sup>* sample_qsys sample_qheld"
  using lstep.Lock [of sample_qsys 7 True "\<lparr>l_head = None, l_tail = None, l_locked = True\<rparr>" "sample_procs\<lparr>rw_qlock := 1\<rparr>"]
  by (intro r_into_rtranclp) (simp add: sample_qheld_def sample_qsys_def sample_procs_def qlock_def)

lemma sample_rwstep: "rwstep\<^sup>*\<^sup>* sample_rwsys sample_rwheld"
  using rwstep.RLock [of sample_rwsys 7 True "(h_lock sample_rwsys)\<lparr>w_readers := 1\<rparr>" "sample_procs\<lparr>rw_rlock := 1\<rparr>"]
  by (intro r_into_rtranclp) (simp add: sample_rwheld_def sample_rwsys_def sample_procs_def rlock_def outside_def rwwaiting_def)

text \<open>
  C8: Mutual exclusion and hand-over of \<^verbatim>\<open>QLock\<close>: after any sequence of \<^verbatim>\<open>qlock\<close>,
  \<^verbatim>\<open>canqlock\<close> and \<^verbatim>\<open>qunlock\<close> calls at most one process is between its locking and its
  unlocking call, \<^verbatim>\<open>locked\<close> tells whether there is one, and the \<open>head\<close>/\<open>tail\<close>/\<open>qnext\<close> pointers
  hold exactly the processes that are still waiting, in the order of their requests.
\<close>

theorem qlock_mutex:
  assumes "lstart g0" "lstep\<^sup>*\<^sup>* g0 g"
  shows "length (g_in g) \<le> 1 \<and> (l_locked (g_lock g) \<longleftrightarrow> g_in g \<noteq> []) \<and>
    (\<exists>ws. waitq (l_head (g_lock g)) (l_tail (g_lock g)) (g_procs g) ws \<and> g_req g = g_grant g @ ws \<and>
      (ws \<noteq> [] \<longrightarrow> g_in g \<noteq> []))"
  using ql.reach_waits [OF assms(2,1)] unfolding lwait_def by blast

theorem qlock_mutex_witness:
  "lstart sample_qsys \<and> g_in sample_qheld = [7] \<and> length (g_in sample_qheld) \<le> 1 \<and> l_locked (g_lock sample_qheld)"
  using qlock_mutex [OF sample_starts(1) sample_lstep] sample_starts(1) by (simp add: sample_qheld_def)

text \<open>
  C7: \<^verbatim>\<open>RWlock\<close>: after any sequence of \<^verbatim>\<open>rlock\<close>, \<^verbatim>\<open>wlock\<close>, \<^verbatim>\<open>canrlock\<close>, \<^verbatim>\<open>runlock\<close> and
  \<^verbatim>\<open>wunlock\<close> calls there is at most one writer inside and never together with readers, the two
  counters count the processes inside, and nobody waits for a free lock.
\<close>

theorem rwlock_exclusion:
  assumes "rwstart g0" "rwstep\<^sup>*\<^sup>* g0 g"
  shows "length (h_win g) \<le> 1 \<and> (h_win g \<noteq> [] \<longrightarrow> h_rin g = []) \<and>
    w_readers (h_lock g) = int (length (h_rin g)) \<and> w_writer (h_lock g) = int (length (h_win g)) \<and>
    (w_head (h_lock g) \<noteq> None \<longrightarrow> h_rin g \<noteq> [] \<or> h_win g \<noteq> [])"
proof -
  obtain ws where "rwwait g ws" using rw.reach_waits [OF assms(2,1)] by blast
  note D = rwwaitD [OF this]
  show ?thesis using D(5-9) wq_Nil [OF D(1)] by simp
qed

theorem rwlock_exclusion_witness:
  "h_rin sample_rwheld = [7] \<and> w_readers (h_lock sample_rwheld) = int (length (h_rin sample_rwheld))"
  using rwlock_exclusion [OF sample_starts(2) sample_rwstep] by (simp add: sample_rwheld_def)

text \<open>
  C10: The panics of \<^verbatim>\<open>runlock\<close> and \<^verbatim>\<open>wunlock\<close> are unreachable and the loop that wakes the
  waiting readers ends: in every reachable state a reader inside can unlock and a writer inside
  can unlock.
\<close>

theorem rwlock_no_panic:
  assumes "rwstart g0" "rwstep\<^sup>*\<^sup>* g0 g"
  shows "(h_rin g \<noteq> [] \<longrightarrow> (\<exists>q' s'. runlock (h_lock g) (h_procs g) = Inr (q', s'))) \<and>
    (h_win g \<noteq> [] \<longrightarrow> (\<exists>q' s'. wunlock (h_lock g) (h_procs g) = Some (Inr (q', s'))))"
proof -
  obtain ws where w: "rwwait g ws" using rw.reach_waits [OF assms(2,1)] by blast
  show ?thesis
    using runlock_ok [OF w, of "hd (h_rin g)"] wunlock_ok [OF w, of "hd (h_win g)"] by auto
qed

theorem rwlock_no_panic_witness:
  "h_rin sample_rwheld \<noteq> [] \<and> (\<exists>q' s'. runlock (h_lock sample_rwheld) (h_procs sample_rwheld) = Inr (q', s'))"
  using rwlock_no_panic [OF sample_starts(2) sample_rwstep] by (simp add: sample_rwheld_def)

text \<open>
  C9: Both locks serve first come first served: the n-th process to get the lock is the n-th to
  have asked for it, readers and writers alike, so no waiting process is overtaken.
\<close>

theorem locks_fifo:
  assumes "lstart g0" "lstep\<^sup>*\<^sup>* g0 g" "rwstart h0" "rwstep\<^sup>*\<^sup>* h0 h"
  shows "(\<forall>i. i < length (g_grant g) \<longrightarrow> i < length (g_req g) \<and> g_grant g ! i = g_req g ! i) \<and>
    (\<forall>i. i < length (h_grant h) \<longrightarrow> i < length (h_req h) \<and> h_grant h ! i = h_req h ! i)"
  using ql.no_overtaking [OF assms(2,1)] rw.no_overtaking [OF assms(4,3)] by blast

theorem locks_fifo_witness:
  "g_grant sample_qheld ! 0 = g_req sample_qheld ! 0 \<and> h_grant sample_rwheld ! 0 = h_req sample_rwheld ! 0"
  using locks_fifo [OF sample_starts(1) sample_lstep sample_starts(2) sample_rwstep]
  by (simp add: sample_qheld_def sample_rwheld_def)

end
