(* ===== verification/Route.thy ===== *)
theory Route
  imports Prelude
begin

text \<open>
  The routing tables of the IP stack (\<^verbatim>\<open>ip/iproute.c\<close>, the Route structures of
  \<^verbatim>\<open>ip/ip.h\<close>). A table is a forest of 1024 ternary trees: the left and right links
  order disjoint address ranges, the mid link leads to the ranges contained in the node's own.
  Every node is linked from one place, so a tree is a datatype value; storing through a
  \<^verbatim>\<open>Route**\<close> returns the changed tree.

  \<open>Rtab\<close> is the state that the node routines share: the two free lists (their lengths: a
  node is zeroed when it is taken), what the successive calls of \<^verbatim>\<open>malloc\<close> return, and the
  reinjection queue, whose cells are route nodes that hold a subtree in \<^verbatim>\<open>left\<close>. The loop
  that empties the queue may feed it; it is a \<open>partial_function\<close>, and that it ends is proved.
\<close>

section \<open>Bytes of addresses\<close>

definition nhgetl :: "byte list \<Rightarrow> ulong" where
  "nhgetl a = push_bit 24 (ucast (a ! 0)) OR push_bit 16 (ucast (a ! 1)) OR push_bit 8 (ucast (a ! 2)) OR ucast (a ! 3)"

definition hnputl :: "ulong \<Rightarrow> byte list" where
  "hnputl v = [ucast (drop_bit 24 v), ucast (drop_bit 16 v), ucast (drop_bit 8 v), ucast v]"

section \<open>Data\<close>

definition Rv4 :: byte where "Rv4 = 1"
definition Rifc :: byte where "Rifc = 2"
definition Rptpt :: byte where "Rptpt = 4"
definition Runi :: byte where "Runi = 8"
definition Rbcast :: byte where "Rbcast = 16"
definition Rmulti :: byte where "Rmulti = 32"

definition Lroot :: nat where "Lroot = 10"
definition IPllen :: nat where "IPllen = 4"

record Route =
  rt_depth :: byte
  rt_type :: byte
  rt_ifcid :: byte
  rt_ifc :: "nat option"
  rt_tag :: string
  rt_ref :: int
  rt_a4 :: ulong
  rt_e4 :: ulong
  rt_g4 :: "byte list"
  rt_a6 :: "ulong list"
  rt_e6 :: "ulong list"
  rt_g6 :: "byte list"

text \<open>\<open>Rnode left r mid right\<close>.\<close>

datatype rtree = Nilr | Rnode rtree Route rtree rtree

record Rtab =
  t_v4free :: nat
  t_v6free :: nat
  t_mallocs :: "nat \<Rightarrow> bool"
  t_mnext :: nat
  t_queue :: "(byte \<times> rtree) list"

section \<open>Nodes\<close>

definition freeroute :: "byte \<Rightarrow> Rtab \<Rightarrow> Rtab" where
  "freeroute ty k = (if tst ty Rv4 then k\<lparr>t_v4free := t_v4free k + 1\<rparr> else k\<lparr>t_v6free := t_v6free k + 1\<rparr>)"

definition zeroroute :: "byte \<Rightarrow> Route" where
  "zeroroute ty = \<lparr>rt_depth = 0, rt_type = ty, rt_ifcid = 0, rt_ifc = None, rt_tag = [], rt_ref = 1, rt_a4 = 0, rt_e4 = 0,
     rt_g4 = replicate 4 0, rt_a6 = replicate IPllen 0, rt_e6 = replicate IPllen 0, rt_g6 = replicate 16 0\<rparr>"

definition allocroute :: "byte \<Rightarrow> Rtab \<Rightarrow> (Route, Rtab) kres" where
  "allocroute ty k =
     (let l = (if tst ty Rv4 then t_v4free k else t_v6free k) in
      if l \<noteq> 0 then
        Inr (zeroroute ty, if tst ty Rv4 then k\<lparr>t_v4free := l - 1\<rparr> else k\<lparr>t_v6free := l - 1\<rparr>)
      else if t_mallocs k (t_mnext k) then Inr (zeroroute ty, k\<lparr>t_mnext := Suc (t_mnext k)\<rparr>)
      else Inl (Panic ''out of routing nodes''))"

definition addqueue :: "rtree \<Rightarrow> Rtab \<Rightarrow> (unit, Rtab) kres" where
  "addqueue r k = (case r of
       Nilr \<Rightarrow> Inr ((), k)
     | Rnode _ i _ _ \<Rightarrow>
         kbind (allocroute (rt_type i) k) (\<lambda>l k. Inr ((), k\<lparr>t_queue := (rt_type l, r) # t_queue k\<rparr>)))"

section \<open>Comparing ranges\<close>

text \<open>\<^verbatim>\<open>lcmp\<close>: the loop over the words, from the most significant.\<close>

fun lcmp :: "ulong list \<Rightarrow> ulong list \<Rightarrow> int" where
  "lcmp (a # as) (b # bs) = (if a > b then 1 else if a < b then -1 else lcmp as bs)"
| "lcmp _ _ = 0"

datatype rcmp = Rpreceeds | Rfollows | Requals | Rcontains | Rcontained

definition rangecompare :: "Route \<Rightarrow> Route \<Rightarrow> rcmp" where
  "rangecompare a b =
     (if tst (rt_type a) Rv4 then
        if rt_e4 a < rt_a4 b then Rpreceeds
        else if rt_a4 a > rt_e4 b then Rfollows
        else if rt_a4 a \<le> rt_a4 b \<and> rt_e4 a \<ge> rt_e4 b then
          (if rt_a4 a = rt_a4 b \<and> rt_e4 a = rt_e4 b then Requals else Rcontains)
        else Rcontained
      else
        if lcmp (rt_e6 a) (rt_a6 b) < 0 then Rpreceeds
        else if lcmp (rt_a6 a) (rt_e6 b) > 0 then Rfollows
        else if lcmp (rt_a6 a) (rt_a6 b) \<le> 0 \<and> lcmp (rt_e6 a) (rt_e6 b) \<ge> 0 then
          (if lcmp (rt_a6 a) (rt_a6 b) = 0 \<and> lcmp (rt_e6 a) (rt_e6 b) = 0 then Requals else Rcontains)
        else Rcontained)"

definition copygate :: "Route \<Rightarrow> Route \<Rightarrow> Route" where
  "copygate old new =
     (if tst (rt_type new) Rv4 then old\<lparr>rt_g4 := rt_g4 new\<rparr> else old\<lparr>rt_g6 := rt_g6 new\<rparr>)"

section \<open>The tree\<close>

text \<open>Depths are kept in a uchar: \<^verbatim>\<open>d+1\<close> is truncated to eight bits when it is stored.\<close>

fun rdepth :: "rtree \<Rightarrow> nat" where
  "rdepth Nilr = 0"
| "rdepth (Rnode _ p _ _) = unat (rt_depth p)"

fun calcd :: "rtree \<Rightarrow> rtree" where
  "calcd Nilr = Nilr"
| "calcd (Rnode l p m r) =
     (let d = rdepth l;
          d = (if rdepth r > d then rdepth r else d);
          d = (if rdepth m > d then rdepth m else d)
      in Rnode l (p\<lparr>rt_depth := of_nat (d + 1)\<rparr>) m r)"

fun balancetree :: "rtree \<Rightarrow> rtree" where
  "balancetree Nilr = Nilr"
| "balancetree (Rnode l p m r) =
     (if rdepth l > rdepth r + 1 then
        (case l of
           Nilr \<Rightarrow> Nilr
         | Rnode ll lp lm lr \<Rightarrow> calcd (Rnode ll lp lm (calcd (Rnode lr p m r))))
      else if rdepth r > rdepth l + 1 then
        (case r of
           Nilr \<Rightarrow> Nilr
         | Rnode rl rp rm r' \<Rightarrow> calcd (Rnode (calcd (Rnode l p m rl)) rp rm r'))
      else calcd (Rnode l p m r))"

text \<open>\<open>new\<close> is the node to link in, with the mid subtree it may carry.\<close>

definition setdepth1 :: "rtree \<Rightarrow> rtree" where
  "setdepth1 t = (case t of Nilr \<Rightarrow> Nilr | Rnode l p m r \<Rightarrow> Rnode l (p\<lparr>rt_depth := 1\<rparr>) m r)"

definition supersede :: "Route \<Rightarrow> Route \<Rightarrow> Route" where
  "supersede p new =
     (if \<not> tst (rt_type p) Rifc then copygate (p\<lparr>rt_type := rt_type new, rt_ifcid := -1\<rparr>) new
      else if tst (rt_type new) Rifc then p\<lparr>rt_ref := rt_ref p + 1\<rparr> else p)"

fun addnode :: "rtree \<Rightarrow> rtree \<Rightarrow> Rtab \<Rightarrow> (rtree, Rtab) kres" where
  "addnode Nilr new k = (if new = Nilr then Inl Fault else Inr (setdepth1 new, k))"
| "addnode (Rnode l p m r) new k = (case new of
       Nilr \<Rightarrow> Inl Fault
     | Rnode _ i _ _ \<Rightarrow>
         kbind (case rangecompare i p of
                  Rpreceeds \<Rightarrow> kbind (addnode l new k) (\<lambda>l k. Inr (Rnode l p m r, k))
                | Rfollows \<Rightarrow> kbind (addnode r new k) (\<lambda>r k. Inr (Rnode l p m r, k))
                | Rcontains \<Rightarrow> kbind (addqueue (Rnode l p m r) k) (\<lambda>_ k. Inr (setdepth1 new, k))
                | Requals \<Rightarrow> Inr (Rnode l (supersede p i) m r, freeroute (rt_type i) k)
                | Rcontained \<Rightarrow> kbind (addnode m new k) (\<lambda>m k. Inr (Rnode l p m r, k)))
           (\<lambda>t k. Inr (balancetree t, k)))"

fun walkadd :: "rtree \<Rightarrow> rtree \<Rightarrow> Rtab \<Rightarrow> (rtree, Rtab) kres" where
  "walkadd root Nilr k = Inl Fault"
| "walkadd root (Rnode l p m r) k =
     kbind (addnode root (Rnode Nilr p m Nilr) k) (\<lambda>root k.
     kbind (if l \<noteq> Nilr then walkadd root l k else Inr (root, k)) (\<lambda>root k.
     if r \<noteq> Nilr then walkadd root r k else Inr (root, k)))"

text \<open>The loop \<^verbatim>\<open>while(p = f->queue)\<close>: None if it never ends.\<close>

partial_function (option) requeue :: "rtree \<Rightarrow> Rtab \<Rightarrow> (rtree, Rtab) kres option" where
  "requeue root k = (case t_queue k of
       [] \<Rightarrow> Some (Inr (root, k))
     | (ty, p) # q \<Rightarrow>
         (case walkadd root p (k\<lparr>t_queue := q\<rparr>) of
            Inl e \<Rightarrow> Some (Inl e)
          | Inr (root, k) \<Rightarrow> requeue root (freeroute ty k)))"

text \<open>Both address families add one copy of the route to the tree of a bucket this way.\<close>

definition addone :: "rtree \<Rightarrow> Route \<Rightarrow> Rtab \<Rightarrow> (rtree, Rtab) kres option" where
  "addone root p k = (case addnode root (Rnode Nilr p Nilr Nilr) k of
       Inl e \<Rightarrow> Some (Inl e)
     | Inr (root, k) \<Rightarrow> requeue root k)"

text \<open>\<open>looknode\<close>: the subtree at the node with the same range; \<open>lookset\<close> stores through the pointer.\<close>

fun looknode :: "rtree \<Rightarrow> Route \<Rightarrow> rtree option" where
  "looknode Nilr r = None"
| "looknode (Rnode l p m rt) r = (case rangecompare r p of
       Rcontains \<Rightarrow> None
     | Rpreceeds \<Rightarrow> looknode l r
     | Rfollows \<Rightarrow> looknode rt r
     | Rcontained \<Rightarrow> looknode m r
     | Requals \<Rightarrow> Some (Rnode l p m rt))"

fun lookset :: "rtree \<Rightarrow> Route \<Rightarrow> rtree \<Rightarrow> rtree" where
  "lookset Nilr r t = Nilr"
| "lookset (Rnode l p m rt) r t = (case rangecompare r p of
       Rcontains \<Rightarrow> Rnode l p m rt
     | Rpreceeds \<Rightarrow> Rnode (lookset l r t) p m rt
     | Rfollows \<Rightarrow> Rnode l p m (lookset rt r t)
     | Rcontained \<Rightarrow> Rnode l p (lookset m r t) rt
     | Requals \<Rightarrow> t)"

definition delone :: "rtree \<Rightarrow> Route \<Rightarrow> Rtab \<Rightarrow> (rtree, Rtab) kres option" where
  "delone root rt k = (case looknode root rt of
       Some (Rnode l p m r) \<Rightarrow>
         let p = p\<lparr>rt_ref := rt_ref p - 1\<rparr> in
         if rt_ref p = 0 then
           (case kbind (addqueue l k) (\<lambda>_ k. kbind (addqueue m k) (\<lambda>_ k. addqueue r k)) of
              Inl e \<Rightarrow> Some (Inl e)
            | Inr (_, k) \<Rightarrow> requeue (lookset root rt Nilr) (freeroute (rt_type p) k))
         else Some (Inr (lookset root rt (Rnode l p m r), k))
     | _ \<Rightarrow> Some (Inr (root, k)))"

section \<open>Lookup\<close>

fun v4walk :: "rtree \<Rightarrow> ulong \<Rightarrow> Route option \<Rightarrow> Route option" where
  "v4walk Nilr la q = q"
| "v4walk (Rnode l p m r) la q =
     (if la \<ge> rt_a4 p then
        if la \<le> rt_e4 p then v4walk m la (Some p) else v4walk r la q
      else v4walk l la q)"

text \<open>
  The two loops over the words of an address: does it lie below the first, above the last
  address of the range?
\<close>

fun v6less :: "ulong list \<Rightarrow> ulong list \<Rightarrow> bool" where
  "v6less (x # xs) (y # ys) = (if x = y then v6less xs ys else x < y)"
| "v6less _ _ = False"

fun v6greater :: "ulong list \<Rightarrow> ulong list \<Rightarrow> bool" where
  "v6greater (x # xs) (y # ys) = (if x = y then v6greater xs ys else x > y)"
| "v6greater _ _ = False"

fun v6walk :: "rtree \<Rightarrow> ulong list \<Rightarrow> Route option \<Rightarrow> Route option" where
  "v6walk Nilr la q = q"
| "v6walk (Rnode l p m r) la q =
     (if v6less la (rt_a6 p) then v6walk l la q
      else if v6greater la (rt_e6 p) then v6walk r la q
      else v6walk m la (Some p))"

section \<open>The forests\<close>

text \<open>
  The part of \<^verbatim>\<open>struct Fs\<close> that the routing code uses: the two forests, the shared node state,
  the two generation counters, and the calls made to the media (\<^verbatim>\<open>ipifcaddroute\<close>,
  \<^verbatim>\<open>ipifcremroute\<close>), in order.
\<close>

datatype media = AddRoute byte "byte list" "byte list" "byte list" byte | RemRoute byte "byte list" "byte list"

record Fs =
  f_v4root :: "nat \<Rightarrow> rtree"
  f_v6root :: "nat \<Rightarrow> rtree"
  f_tab :: Rtab
  f_v4gen :: ulong
  f_v6gen :: ulong
  f_media :: "media list"

type_synonym fsres = "(fault + Fs) option"

definition V4H :: "ulong \<Rightarrow> nat" where
  "V4H a = unat (drop_bit (32 - Lroot - 5) (a AND 0x07ffffff))"

definition V6H :: "ulong list \<Rightarrow> nat" where
  "V6H a = unat (drop_bit (32 - Lroot - 5) (a ! (IPllen - 1) AND 0x07ffffff))"

text \<open>The loop over the buckets; \<open>mk\<close> fills the allocated node in.\<close>

fun addloop :: "byte \<Rightarrow> (Route \<Rightarrow> Route) \<Rightarrow> nat list \<Rightarrow> (nat \<Rightarrow> rtree) \<Rightarrow> Rtab \<Rightarrow> (nat \<Rightarrow> rtree, Rtab) kres option" where
  "addloop ty mk [] root k = Some (Inr (root, k))"
| "addloop ty mk (h # hs) root k = (case allocroute ty k of
       Inl e \<Rightarrow> Some (Inl e)
     | Inr (p, k) \<Rightarrow>
         (case addone (root h) (mk p) k of
            None \<Rightarrow> None
          | Some (Inl e) \<Rightarrow> Some (Inl e)
          | Some (Inr (t, k)) \<Rightarrow> addloop ty mk hs (root(h := t)) k))"

definition v4fill :: "string \<Rightarrow> ulong \<Rightarrow> ulong \<Rightarrow> byte list \<Rightarrow> Route \<Rightarrow> Route" where
  "v4fill tag sa ea gate p = p\<lparr>rt_a4 := sa, rt_e4 := ea, rt_g4 := take 4 gate, rt_tag := take 4 tag\<rparr>"

definition v4addroute :: "Fs \<Rightarrow> string \<Rightarrow> byte list \<Rightarrow> byte list \<Rightarrow> byte list \<Rightarrow> byte \<Rightarrow> fsres" where
  "v4addroute f tag a msk gate ty =
     (let m = nhgetl msk; sa = nhgetl a AND m; ea = sa OR NOT m in
      case addloop (setf Rv4 ty) (v4fill tag sa ea gate) [V4H sa..<Suc (V4H ea)] (f_v4root f) (f_tab f) of
        None \<Rightarrow> None
      | Some (Inl e) \<Rightarrow> Some (Inl e)
      | Some (Inr (root, k)) \<Rightarrow>
          Some (Inr (f\<lparr>f_v4root := root, f_tab := k, f_v4gen := f_v4gen f + 1,
            f_media := f_media f @ [AddRoute Rv4 a msk gate ty]\<rparr>)))"

text \<open>The words of a v6 address, and the first and last address of a v6 route.\<close>

definition v6words :: "byte list \<Rightarrow> ulong list" where
  "v6words a = map (\<lambda>h. nhgetl (drop (4 * h) a)) [0..<IPllen]"

definition v6start :: "byte list \<Rightarrow> byte list \<Rightarrow> ulong list" where
  "v6start a msk = map2 (\<lambda>x y. x AND y) (v6words a) (v6words msk)"

definition v6end :: "byte list \<Rightarrow> byte list \<Rightarrow> ulong list" where
  "v6end a msk = map2 (\<lambda>x y. x OR NOT y) (v6words a) (v6words msk)"

definition v6fill :: "string \<Rightarrow> ulong list \<Rightarrow> ulong list \<Rightarrow> byte list \<Rightarrow> Route \<Rightarrow> Route" where
  "v6fill tag sa ea gate p = p\<lparr>rt_a6 := sa, rt_e6 := ea, rt_g6 := take 16 gate, rt_tag := take 4 tag\<rparr>"

definition v6addroute :: "Fs \<Rightarrow> string \<Rightarrow> byte list \<Rightarrow> byte list \<Rightarrow> byte list \<Rightarrow> byte \<Rightarrow> fsres" where
  "v6addroute f tag a msk gate ty =
     (let sa = v6start a msk; ea = v6end a msk in
      case addloop ty (v6fill tag sa ea gate) [V6H sa..<Suc (V6H ea)] (f_v6root f) (f_tab f) of
        None \<Rightarrow> None
      | Some (Inl e) \<Rightarrow> Some (Inl e)
      | Some (Inr (root, k)) \<Rightarrow>
          Some (Inr (f\<lparr>f_v6root := root, f_tab := k, f_v6gen := f_v6gen f + 1,
            f_media := f_media f @ [AddRoute 0 a msk gate ty]\<rparr>)))"

fun delloop :: "Route \<Rightarrow> nat list \<Rightarrow> (nat \<Rightarrow> rtree) \<Rightarrow> Rtab \<Rightarrow> (nat \<Rightarrow> rtree, Rtab) kres option" where
  "delloop rt [] root k = Some (Inr (root, k))"
| "delloop rt (h # hs) root k = (case delone (root h) rt k of
       None \<Rightarrow> None
     | Some (Inl e) \<Rightarrow> Some (Inl e)
     | Some (Inr (t, k)) \<Rightarrow> delloop rt hs (root(h := t)) k)"

definition v4delroute :: "Fs \<Rightarrow> byte list \<Rightarrow> byte list \<Rightarrow> fsres" where
  "v4delroute f a msk =
     (let m = nhgetl msk; sa = nhgetl a AND m; ea = sa OR NOT m;
          rt = (zeroroute Rv4)\<lparr>rt_a4 := sa, rt_e4 := ea\<rparr> in
      case delloop rt [V4H sa..<Suc (V4H ea)] (f_v4root f) (f_tab f) of
        None \<Rightarrow> None
      | Some (Inl e) \<Rightarrow> Some (Inl e)
      | Some (Inr (root, k)) \<Rightarrow>
          Some (Inr (f\<lparr>f_v4root := root, f_tab := k, f_v4gen := f_v4gen f + 1,
            f_media := f_media f @ [RemRoute Rv4 a msk]\<rparr>)))"

definition v6delroute :: "Fs \<Rightarrow> byte list \<Rightarrow> byte list \<Rightarrow> fsres" where
  "v6delroute f a msk =
     (let sa = v6start a msk; ea = v6end a msk; rt = (zeroroute 0)\<lparr>rt_a6 := sa, rt_e6 := ea\<rparr> in
      case delloop rt [V6H sa..<Suc (V6H ea)] (f_v6root f) (f_tab f) of
        None \<Rightarrow> None
      | Some (Inl e) \<Rightarrow> Some (Inl e)
      | Some (Inr (root, k)) \<Rightarrow>
          Some (Inr (f\<lparr>f_v6root := root, f_tab := k, f_v6gen := f_v6gen f + 1,
            f_media := f_media f @ [RemRoute 0 a msk]\<rparr>)))"

text \<open>
  Lookup with the route cache of a conversation. \<open>findipifc\<close> (\<^verbatim>\<open>ip/ipifc.c\<close>) maps a gateway
  address and a route type to an interface, \<open>ifcidof\<close> is the interface's current
  \<^verbatim>\<open>ifcid\<close>; \<open>v4prefix\<close> and \<open>v4tov6\<close> are of libip. The node found remembers its
  interface: \<open>v4upd\<close> stores it.
\<close>

record Conv =
  c_r :: "Route option"
  c_rgen :: ulong

fun v4upd :: "rtree \<Rightarrow> ulong \<Rightarrow> (Route \<Rightarrow> Route) \<Rightarrow> rtree" where
  "v4upd Nilr la g = Nilr"
| "v4upd (Rnode l p m r) la g =
     (if la \<ge> rt_a4 p then
        if la \<le> rt_e4 p then
          (if v4walk m la None = None then Rnode l (g p) m r else Rnode l p (v4upd m la g) r)
        else Rnode l p m (v4upd r la g)
      else Rnode (v4upd l la g) p m r)"

fun v6upd :: "rtree \<Rightarrow> ulong list \<Rightarrow> (Route \<Rightarrow> Route) \<Rightarrow> rtree" where
  "v6upd Nilr la g = Nilr"
| "v6upd (Rnode l p m r) la g =
     (if v6less la (rt_a6 p) then Rnode (v6upd l la g) p m r
      else if v6greater la (rt_e6 p) then Rnode l p m (v6upd r la g)
      else if v6walk m la None = None then Rnode l (g p) m r else Rnode l p (v6upd m la g) r)"

definition cached :: "ulong \<Rightarrow> Conv option \<Rightarrow> Route option" where
  "cached gen c = (case c of
       Some cv \<Rightarrow> (case c_r cv of Some r \<Rightarrow> if rt_ifc r \<noteq> None \<and> c_rgen cv = gen then Some r else None | None \<Rightarrow> None)
     | None \<Rightarrow> None)"

definition stale :: "(nat \<Rightarrow> byte) \<Rightarrow> Route \<Rightarrow> bool" where
  "stale ifcidof q \<longleftrightarrow> (case rt_ifc q of None \<Rightarrow> True | Some i \<Rightarrow> rt_ifcid q \<noteq> ifcidof i)"

definition v4lookup ::
    "(byte list \<Rightarrow> byte \<Rightarrow> nat option) \<Rightarrow> (nat \<Rightarrow> byte) \<Rightarrow> byte list \<Rightarrow> (byte list \<Rightarrow> byte list) \<Rightarrow>
     Fs \<Rightarrow> byte list \<Rightarrow> Conv option \<Rightarrow> Route option \<times> Fs \<times> Conv option" where
  "v4lookup findipifc ifcidof v4prefix v4tov6 f a c = (case cached (f_v4gen f) c of
       Some r \<Rightarrow> (Some r, f, c)
     | None \<Rightarrow>
         let la = nhgetl a; h = V4H la; q = v4walk (f_v4root f h) la None;
             keep = (\<lambda>q. map_option (\<lambda>cv. cv\<lparr>c_r := q, c_rgen := f_v4gen f\<rparr>) c) in
         case q of
           None \<Rightarrow> (None, f, keep None)
         | Some p \<Rightarrow>
             if stale ifcidof p then
               let gate = (if tst (rt_type p) Rifc then take 12 v4prefix @ hnputl (rt_a4 p) else v4tov6 (rt_g4 p)) in
               case findipifc gate (rt_type p) of
                 None \<Rightarrow> (None, f, c)
               | Some ifc \<Rightarrow>
                   let g = (\<lambda>r. r\<lparr>rt_ifc := Some ifc, rt_ifcid := ifcidof ifc\<rparr>) in
                   (Some (g p), f\<lparr>f_v4root := (f_v4root f)(h := v4upd (f_v4root f h) la g)\<rparr>, keep (Some (g p)))
             else (Some p, f, keep (Some p)))"

definition v6lookup ::
    "(byte list \<Rightarrow> byte \<Rightarrow> nat option) \<Rightarrow> (nat \<Rightarrow> byte) \<Rightarrow> byte list \<Rightarrow> (byte list \<Rightarrow> byte list) \<Rightarrow>
     Fs \<Rightarrow> byte list \<Rightarrow> Conv option \<Rightarrow> Route option \<times> Fs \<times> Conv option" where
  "v6lookup findipifc ifcidof v4prefix v4tov6 f a c =
     (let (q4, f, c) = (if take 12 a = take 12 v4prefix then v4lookup findipifc ifcidof v4prefix v4tov6 f (drop 12 a) c
                        else (None, f, c)) in
      if q4 \<noteq> None then (q4, f, c)
      else case cached (f_v6gen f) c of
       Some r \<Rightarrow> (Some r, f, c)
     | None \<Rightarrow>
         let la = v6words a; h = V6H la; q = v6walk (f_v6root f h) la None;
             keep = (\<lambda>q. map_option (\<lambda>cv. cv\<lparr>c_r := q, c_rgen := f_v6gen f\<rparr>) c) in
         case q of
           None \<Rightarrow> (None, f, keep None)
         | Some p \<Rightarrow>
             if stale ifcidof p then
               let gate = (if tst (rt_type p) Rifc then concat (map hnputl (rt_a6 p)) else rt_g6 p) in
               case findipifc gate (rt_type p) of
                 None \<Rightarrow> (None, f, c)
               | Some ifc \<Rightarrow>
                   let g = (\<lambda>r. r\<lparr>rt_ifc := Some ifc, rt_ifcid := ifcidof ifc\<rparr>) in
                   (Some (g p), f\<lparr>f_v6root := (f_v6root f)(h := v6upd (f_v6root f h) la g)\<rparr>, keep (Some (g p)))
             else (Some p, f, keep (Some p)))"

definition iproute :: "(byte list \<Rightarrow> bool) \<Rightarrow> (byte list \<Rightarrow> byte \<Rightarrow> nat option) \<Rightarrow> (nat \<Rightarrow> byte) \<Rightarrow> byte list \<Rightarrow>
     (byte list \<Rightarrow> byte list) \<Rightarrow> Fs \<Rightarrow> byte list \<Rightarrow> Route option \<times> Fs" where
  "iproute isv4 findipifc ifcidof v4prefix v4tov6 f ip =
     (let (q, f, _) = (if isv4 ip then v4lookup findipifc ifcidof v4prefix v4tov6 f (drop 12 ip) None
                       else v6lookup findipifc ifcidof v4prefix v4tov6 f ip None)
      in (q, f))"

section \<open>Walking, printing and flushing\<close>

definition routetype :: "byte \<Rightarrow> string" where
  "routetype ty =
     (let p = (if tst ty Rv4 then ''4'' else ''6'') @ (if tst ty Rifc then ''i'' else []) @
              (if tst ty Runi then ''u'' else if tst ty Rbcast then ''b'' else if tst ty Rmulti then ''m'' else []) @
              (if tst ty Rptpt then ''p'' else [])
      in p @ replicate (4 - length p) (CHR '' ''))"

text \<open>\<open>xof\<close> gives the number \<^verbatim>\<open>ifc->conv->x\<close> of an interface.\<close>

definition convroute :: "byte list \<Rightarrow> (nat \<Rightarrow> int) \<Rightarrow> Route \<Rightarrow> byte list \<times> byte list \<times> byte list \<times> string \<times> int" where
  "convroute v4prefix xof r =
     (let (addr, msk, gate) =
        (if tst (rt_type r) Rv4 then
           (take 12 v4prefix @ hnputl (rt_a4 r),
            replicate 12 0xff @ hnputl (NOT (rt_e4 r XOR rt_a4 r)),
            take 12 v4prefix @ take 4 (rt_g4 r))
         else
           (concat (map hnputl (rt_a6 r)), concat (map2 (\<lambda>e a. hnputl (NOT (e XOR a))) (rt_e6 r) (rt_a6 r)), rt_g6 r))
      in (addr, msk, gate, routetype (rt_type r), case rt_ifc r of Some i \<Rightarrow> xof i | None \<Rightarrow> -1))"

text \<open>
  \<^verbatim>\<open>rr\<close> applies the walker to the routes that start in the bucket \<open>h\<close>, in address order,
  until the walker's buffer is full; the walker is a parameter.
\<close>

fun rr :: "('w \<Rightarrow> bool) \<Rightarrow> (Route \<Rightarrow> 'w \<Rightarrow> 'w) \<Rightarrow> nat \<Rightarrow> rtree \<Rightarrow> 'w \<Rightarrow> bool \<times> 'w" where
  "rr full walk h Nilr w = (\<not> full w, w)"
| "rr full walk h (Rnode l p m r) w =
     (if full w then (False, w)
      else case rr full walk h l w of
        (False, w) \<Rightarrow> (False, w)
      | (True, w) \<Rightarrow>
          let hp = (if tst (rt_type p) Rv4 then V4H (rt_a4 p) else V6H (rt_a6 p));
              w = (if hp = h then walk p w else w) in
          case rr full walk h m w of
            (False, w) \<Rightarrow> (False, w)
          | (True, w) \<Rightarrow> rr full walk h r w)"

fun rrloop :: "('w \<Rightarrow> bool) \<Rightarrow> (Route \<Rightarrow> 'w \<Rightarrow> 'w) \<Rightarrow> nat list \<Rightarrow> (nat \<Rightarrow> rtree) \<Rightarrow> 'w \<Rightarrow> 'w" where
  "rrloop full walk [] root w = w"
| "rrloop full walk (h # hs) root w = (case rr full walk h (root h) w of
       (False, w) \<Rightarrow> w
     | (True, w) \<Rightarrow> rrloop full walk hs root w)"

definition ipwalkroutes :: "('w \<Rightarrow> bool) \<Rightarrow> (Route \<Rightarrow> 'w \<Rightarrow> 'w) \<Rightarrow> Fs \<Rightarrow> 'w \<Rightarrow> 'w" where
  "ipwalkroutes full walk f w =
     (let w = (if full w then w else rrloop full walk [0..<2 ^ Lroot] (f_v4root f) w)
      in if full w then w else rrloop full walk [0..<2 ^ Lroot] (f_v6root f) w)"

definition delroute :: "byte list \<Rightarrow> Fs \<Rightarrow> Route \<Rightarrow> fsres" where
  "delroute v4prefix f r =
     (let (addr, msk, gate, t, nifc) = convroute v4prefix (\<lambda>_. 0) r in
      if tst (rt_type r) Rv4 then v4delroute f (drop 12 addr) (drop 12 msk) else v6delroute f addr msk)"

text \<open>The route that one call of \<^verbatim>\<open>routeflush\<close> deletes, if any.\<close>

fun flushpick :: "rtree \<Rightarrow> string option \<Rightarrow> Route option" where
  "flushpick Nilr tag = None"
| "flushpick (Rnode l p m r) tag =
     (case flushpick m tag of Some x \<Rightarrow> Some x | None \<Rightarrow>
     (case flushpick l tag of Some x \<Rightarrow> Some x | None \<Rightarrow>
     (case flushpick r tag of Some x \<Rightarrow> Some x | None \<Rightarrow>
        if \<not> tst (rt_type p) Rifc \<and> (case tag of None \<Rightarrow> True | Some t \<Rightarrow> take 4 t = take 4 (rt_tag p))
        then Some p else None)))"

definition routeflush :: "byte list \<Rightarrow> Fs \<Rightarrow> rtree \<Rightarrow> string option \<Rightarrow> (fault + bool \<times> Fs) option" where
  "routeflush v4prefix f r tag = (case flushpick r tag of
       None \<Rightarrow> Some (Inr (False, f))
     | Some p \<Rightarrow> (case delroute v4prefix f p of
           None \<Rightarrow> None | Some (Inl e) \<Rightarrow> Some (Inl e) | Some (Inr f) \<Rightarrow> Some (Inr (True, f))))"

section \<open>Ranges as intervals\<close>

text \<open>
  The value of a v6 address as a number, the bounds of a route's range, and the part of a node
  that the table is about: the depth and the remembered interface are left out.
\<close>

fun val6 :: "ulong list \<Rightarrow> nat" where
  "val6 [] = 0"
| "val6 (w # ws) = unat w * 2 ^ (32 * length ws) + val6 ws"

definition lo :: "Route \<Rightarrow> nat" where
  "lo r = (if tst (rt_type r) Rv4 then unat (rt_a4 r) else val6 (rt_a6 r))"

definition hi :: "Route \<Rightarrow> nat" where
  "hi r = (if tst (rt_type r) Rv4 then unat (rt_e4 r) else val6 (rt_e6 r))"

definition core :: "Route \<Rightarrow> Route" where
  "core r = r\<lparr>rt_depth := 0, rt_ifc := None, rt_ifcid := 0\<rparr>"

definition sameas :: "Route \<Rightarrow> Route \<Rightarrow> bool" where "sameas a b \<longleftrightarrow> lo a = lo b \<and> hi a = hi b"
definition within :: "Route \<Rightarrow> Route \<Rightarrow> bool" where "within a b \<longleftrightarrow> lo b \<le> lo a \<and> hi a \<le> hi b \<and> \<not> sameas a b"
definition before :: "Route \<Rightarrow> Route \<Rightarrow> bool" where "before a b \<longleftrightarrow> hi a < lo b"

text \<open>Two ranges that do not partially overlap, as the ranges of two prefixes never do.\<close>

definition nested :: "Route \<Rightarrow> Route \<Rightarrow> bool" where
  "nested a b \<longleftrightarrow> before a b \<or> before b a \<or> sameas a b \<or> within a b \<or> within b a"

text \<open>Routes of one address family, with addresses of the family's length and a non-empty range.\<close>

definition okr :: "bool \<Rightarrow> Route \<Rightarrow> bool" where
  "okr v4 r \<longleftrightarrow> (tst (rt_type r) Rv4 \<longleftrightarrow> v4) \<and> lo r \<le> hi r \<and>
     (\<not> v4 \<longrightarrow> length (rt_a6 r) = IPllen \<and> length (rt_e6 r) = IPllen)"

lemma val6_bound: "val6 ws < 2 ^ (32 * length ws)"
proof (induction ws)
  case (Cons w ws)
  let ?X = "2 ^ (32 * length ws) :: nat"
  have "unat w < 2 ^ 32" using unsigned_less [where ?'a = nat, of w] by simp
  then have "(unat w + 1) * ?X \<le> 2 ^ 32 * ?X" by (intro mult_le_mono1) linarith
  moreover have "(unat w + 1) * ?X = unat w * ?X + ?X" by simp
  ultimately have "unat w * ?X + val6 ws < 2 ^ 32 * ?X" using Cons by linarith
  then show ?case by (simp add: power_add)
qed simp

lemma val6_less:
  assumes "unat a < unat b" "length as = length bs"
  shows "unat a * 2 ^ (32 * length as) + val6 as < unat b * 2 ^ (32 * length bs) + val6 bs"
proof -
  have "unat a * 2 ^ (32 * length as) + val6 as < Suc (unat a) * 2 ^ (32 * length as)"
    using val6_bound [of as] by simp
  also have "\<dots> \<le> unat b * 2 ^ (32 * length as)" using assms(1) by (intro mult_le_mono1) simp
  finally show ?thesis using assms(2) by simp
qed

lemma lcmp_val6:
  assumes "length as = length bs"
  shows "lcmp as bs = (if val6 as < val6 bs then -1 else if val6 bs < val6 as then 1 else 0)"
  using assms
proof (induction as bs rule: list_induct2)
  case (Cons a as b bs)
  consider "a < b" | "b < a" | "a = b" by fastforce
  then show ?case
  proof cases
    case 1
    then show ?thesis using val6_less [of a b as bs] Cons.hyps by (simp add: word_less_nat_alt)
  next
    case 2
    then show ?thesis using val6_less [of b a bs as] Cons.hyps by (simp add: word_less_nat_alt)
  qed (use Cons in simp)
qed simp

lemma val6_inj: "length as = length bs \<Longrightarrow> val6 as = val6 bs \<longleftrightarrow> as = bs"
proof (induction as bs rule: list_induct2)
  case (Cons a as b bs)
  show ?case
  proof (cases "a = b")
    case False
    then have "unat a < unat b \<or> unat b < unat a" by (metis linorder_neqE_nat word_unat_eq_iff)
    then show ?thesis using val6_less [of a b as bs] val6_less [of b a bs as] Cons.hyps False by auto
  qed (use Cons in simp)
qed simp

lemma rangecompare_iff:
  assumes "okr v4 a" "okr v4 b"
  shows "rangecompare a b = (if hi a < lo b then Rpreceeds else if hi b < lo a then Rfollows
    else if lo a \<le> lo b \<and> hi b \<le> hi a then (if sameas a b then Requals else Rcontains) else Rcontained)"
proof (cases v4)
  case True
  then show ?thesis
    using assms
    by (simp add: okr_def rangecompare_def lo_def hi_def sameas_def word_less_nat_alt word_le_nat_alt word_unat_eq_iff)
next
  case False
  then have l: "length (rt_a6 a) = length (rt_a6 b)" "length (rt_e6 a) = length (rt_e6 b)"
    "length (rt_e6 a) = length (rt_a6 b)" "length (rt_a6 a) = length (rt_e6 b)" using assms by (simp_all add: okr_def)
  show ?thesis
    using assms False
    by (auto simp: okr_def rangecompare_def lo_def hi_def sameas_def lcmp_val6 [OF l(1)] lcmp_val6 [OF l(2)]
        lcmp_val6 [OF l(3)] lcmp_val6 [OF l(4)])
qed

section \<open>Well-formed trees\<close>

fun cores :: "rtree \<Rightarrow> Route set" where
  "cores Nilr = {}"
| "cores (Rnode l p m r) = insert (core p) (cores l \<union> cores m \<union> cores r)"

fun wft :: "bool \<Rightarrow> rtree \<Rightarrow> bool" where
  "wft v4 Nilr \<longleftrightarrow> True"
| "wft v4 (Rnode l p m r) \<longleftrightarrow> wft v4 l \<and> wft v4 m \<and> wft v4 r \<and> okr v4 p \<and>
     (\<forall>x \<in> cores l. before x p) \<and> (\<forall>x \<in> cores r. before p x) \<and> (\<forall>x \<in> cores m. within x p)"

lemma core_simps [simp]:
  "lo (core r) = lo r" "hi (core r) = hi r" "okr v4 (core r) = okr v4 r" "core (core r) = core r"
  "lo (r\<lparr>rt_depth := d\<rparr>) = lo r" "hi (r\<lparr>rt_depth := d\<rparr>) = hi r" "okr v4 (r\<lparr>rt_depth := d\<rparr>) = okr v4 r"
  "core (r\<lparr>rt_depth := d\<rparr>) = core r"
  by (simp_all add: core_def lo_def hi_def okr_def)

lemma rel_core [simp]:
  "before (core a) b = before a b" "before a (core b) = before a b" "within (core a) b = within a b"
  "within a (core b) = within a b" "sameas (core a) b = sameas a b" "sameas a (core b) = sameas a b"
  "nested (core a) b = nested a b" "nested a (core b) = nested a b"
  "before (a\<lparr>rt_depth := d\<rparr>) b = before a b" "before a (b\<lparr>rt_depth := d\<rparr>) = before a b"
  "within (a\<lparr>rt_depth := d\<rparr>) b = within a b" "within a (b\<lparr>rt_depth := d\<rparr>) = within a b"
  by (simp_all add: before_def within_def sameas_def nested_def)

lemma wft_okr: "wft v4 t \<Longrightarrow> x \<in> cores t \<Longrightarrow> okr v4 x"
  by (induction t) auto

lemma before_trans: "before a b \<Longrightarrow> okr v b \<Longrightarrow> before b c \<Longrightarrow> before a c"
  by (auto simp: before_def okr_def)

lemma cores_calcd [simp]: "cores (calcd t) = cores t"
  by (cases t) (simp_all add: Let_def)

lemma wft_calcd [simp]: "wft v4 (calcd t) = wft v4 t"
  by (cases t) (simp_all add: Let_def)

lemma cores_balancetree [simp]: "cores (balancetree t) = cores t"
proof (cases t)
  case (Rnode l p m r)
  then show ?thesis by (cases l; cases r) (auto simp del: calcd.simps)
qed simp

declare calcd.simps [simp del]

lemma wft_rotr:
  assumes "wft v4 (Rnode (Rnode ll lp lm lr) p m r)"
  shows "wft v4 (Rnode ll lp lm (Rnode lr p m r))"
proof -
  have lp: "before lp p" "okr v4 p" using assms by simp_all
  have "before lp x" if "x \<in> cores m" for x
    using that assms lp by (auto simp: before_def within_def)
  moreover have "before lp x" if "x \<in> cores r" for x
    using that assms lp before_trans [OF lp(1,2), of x] by simp
  ultimately show ?thesis using assms lp by auto
qed

lemma wft_rotl:
  assumes "wft v4 (Rnode l p m (Rnode rl rp rm r))"
  shows "wft v4 (Rnode (Rnode l p m rl) rp rm r)"
proof -
  have rp: "before p rp" "okr v4 p" using assms by simp_all
  have "before x rp" if "x \<in> cores m" for x
    using that assms rp by (auto simp: before_def within_def)
  moreover have "before x rp" if "x \<in> cores l" for x
    using that assms before_trans [OF _ rp(2,1), of x] by simp
  ultimately show ?thesis using assms rp by auto
qed

lemma wft_balancetree: "wft v4 t \<Longrightarrow> wft v4 (balancetree t)"
proof (cases t)
  case (Rnode l p m r)
  assume w: "wft v4 t"
  consider (right) ll lp lm lr where "rdepth l > rdepth r + 1" "l = Rnode ll lp lm lr"
    | (left) rl rp rm r' where "\<not> rdepth l > rdepth r + 1" "rdepth r > rdepth l + 1" "r = Rnode rl rp rm r'"
    | (none) "\<not> rdepth l > rdepth r + 1" "\<not> rdepth r > rdepth l + 1"
    by (cases l; cases r) auto
  then show ?thesis
  proof cases
    case right
    have "wft v4 (Rnode ll lp lm (Rnode lr p m r))" using w Rnode right by (intro wft_rotr) simp
    then have "wft v4 (Rnode ll lp lm (calcd (Rnode lr p m r)))" by simp
    then show ?thesis using Rnode right by (simp del: wft.simps)
  next
    case left
    have "wft v4 (Rnode (Rnode l p m rl) rp rm r')" using w Rnode left by (intro wft_rotl) simp
    then have "wft v4 (Rnode (calcd (Rnode l p m rl)) rp rm r')" by simp
    then show ?thesis using Rnode left by (simp del: wft.simps)
  qed (use w Rnode in \<open>simp del: wft.simps\<close>)
qed simp

declare balancetree.simps [simp del]

section \<open>Adding a node that covers no other\<close>

text \<open>
  \<open>fits i t\<close>: no node of \<open>t\<close> lies in the range of \<open>i\<close>. Such a node goes in without
  displacing anything.
\<close>

definition fits :: "Route \<Rightarrow> Route set \<Rightarrow> bool" where
  "fits i X \<longleftrightarrow> (\<forall>x \<in> X. before i x \<or> before x i \<or> within i x)"

lemma rangecompare_before: "okr v a \<Longrightarrow> okr v b \<Longrightarrow> before a b \<Longrightarrow> rangecompare a b = Rpreceeds"
  by (simp add: rangecompare_iff [of v] before_def)

lemma rangecompare_after: "okr v a \<Longrightarrow> okr v b \<Longrightarrow> before b a \<Longrightarrow> rangecompare a b = Rfollows"
  by (simp add: rangecompare_iff [of v] before_def okr_def)

lemma rangecompare_within: "okr v a \<Longrightarrow> okr v b \<Longrightarrow> within a b \<Longrightarrow> rangecompare a b = Rcontained"
  by (auto simp: rangecompare_iff [of v] within_def okr_def sameas_def)

lemma rangecompare_contains: "okr v a \<Longrightarrow> okr v b \<Longrightarrow> within b a \<Longrightarrow> rangecompare a b = Rcontains"
  by (auto simp: rangecompare_iff [of v] within_def okr_def sameas_def)

lemma rangecompare_same: "okr v a \<Longrightarrow> okr v b \<Longrightarrow> sameas a b \<Longrightarrow> rangecompare a b = Requals"
  by (auto simp: rangecompare_iff [of v] sameas_def okr_def)

lemma within_before: "within x i \<Longrightarrow> before i y \<Longrightarrow> before x y" "within x i \<Longrightarrow> before y i \<Longrightarrow> before y x"
  by (auto simp: within_def before_def)

lemma within_trans: "within x i \<Longrightarrow> within i y \<Longrightarrow> within x y"
  by (auto simp: within_def sameas_def)

lemma addnode_fits:
  assumes "wft v4 t" "wft v4 (Rnode Nilr i nm Nilr)" "fits i (cores t)"
  shows "\<exists>t'. addnode t (Rnode Nilr i nm Nilr) k = Inr (t', k) \<and> wft v4 t' \<and>
    cores t' = cores t \<union> cores (Rnode Nilr i nm Nilr)"
  using assms
proof (induction t)
  case Nilr
  then show ?case by (simp add: setdepth1_def)
next
  case (Rnode l p m r)
  let ?n = "Rnode Nilr i nm Nilr"
  have ok: "okr v4 i" "okr v4 p" using Rnode.prems by simp_all
  have sub: "\<forall>x \<in> cores nm. within x i" using Rnode.prems(2) by simp
  consider (pre) "before i p" | (post) "before p i" | (in_p) "within i p"
    using Rnode.prems(3) by (auto simp: fits_def)
  then show ?case
  proof cases
    case pre
    obtain t' where t': "addnode l ?n k = Inr (t', k)" "wft v4 t'" "cores t' = cores l \<union> cores ?n"
      using Rnode.IH(1) Rnode.prems by (auto simp: fits_def)
    have "before x p" if "x \<in> cores t'" for x
      using that t'(3) Rnode.prems(1) sub pre within_before(1) [of x i p] by auto
    then have "wft v4 (Rnode t' p m r)" using t' Rnode.prems(1) by simp
    then show ?thesis
      using t' rangecompare_before [OF ok pre] by (auto simp: wft_balancetree simp del: wft.simps)
  next
    case post
    obtain t' where t': "addnode r ?n k = Inr (t', k)" "wft v4 t'" "cores t' = cores r \<union> cores ?n"
      using Rnode.IH(3) Rnode.prems by (auto simp: fits_def)
    have "before p x" if "x \<in> cores t'" for x
      using that t'(3) Rnode.prems(1) sub post within_before(2) [of x i p] by auto
    then have "wft v4 (Rnode l p m t')" using t' Rnode.prems(1) by simp
    then show ?thesis
      using t' rangecompare_after [OF ok post] by (auto simp: wft_balancetree simp del: wft.simps)
  next
    case in_p
    obtain t' where t': "addnode m ?n k = Inr (t', k)" "wft v4 t'" "cores t' = cores m \<union> cores ?n"
      using Rnode.IH(2) Rnode.prems by (auto simp: fits_def)
    have "within x p" if "x \<in> cores t'" for x
      using that t'(3) Rnode.prems(1) sub in_p within_trans [of x i p] by auto
    then have "wft v4 (Rnode l p t' r)" using t' Rnode.prems(1) by simp
    then show ?thesis
      using t' rangecompare_within [OF ok in_p] by (auto simp: wft_balancetree simp del: wft.simps)
  qed
qed

text \<open>Reinjecting a subtree none of whose nodes covers a node of the tree.\<close>

lemma walkadd_fits:
  assumes "wft v4 t" "wft v4 s" "s \<noteq> Nilr" "\<forall>y \<in> cores s. fits y (cores t)"
  shows "\<exists>t'. walkadd t s k = Inr (t', k) \<and> wft v4 t' \<and> cores t' = cores t \<union> cores s"
  using assms
proof (induction s arbitrary: t)
  case (Rnode l p m r)
  let ?n = "Rnode Nilr p m Nilr"
  have wn: "wft v4 ?n" "fits p (cores t)" using Rnode.prems by (auto simp: fits_def)
  obtain t1 where t1: "addnode t ?n k = Inr (t1, k)" "wft v4 t1" "cores t1 = cores t \<union> cores ?n"
    using addnode_fits [OF Rnode.prems(1) wn] by blast
  have fl: "fits y (cores t1)" if "y \<in> cores l" for y
  proof -
    have "before y p" using that Rnode.prems(2) by simp
    then have "\<forall>x \<in> cores ?n. before y x" using Rnode.prems(2) within_before(2) by auto
    then show ?thesis using Rnode.prems(4) that unfolding t1(3) fits_def by auto
  qed
  obtain t2 where t2: "(if l \<noteq> Nilr then walkadd t1 l k else Inr (t1, k)) = Inr (t2, k)" "wft v4 t2"
    "cores t2 = cores t1 \<union> cores l"
    using Rnode.IH(1) [OF t1(2)] Rnode.prems(2) fl t1(2) by (cases "l = Nilr") auto
  have fr: "fits y (cores t2)" if "y \<in> cores r" for y
  proof -
    have py: "before p y" using that Rnode.prems(2) by simp
    then have "\<forall>x \<in> cores ?n. before x y" using Rnode.prems(2) within_before(1) by auto
    moreover have "\<forall>x \<in> cores l. before x y"
      using py Rnode.prems(2) before_trans [of _ p v4 y] by simp
    ultimately show ?thesis using Rnode.prems(4) that unfolding t1(3) t2(3) fits_def by auto
  qed
  obtain t3 where t3: "(if r \<noteq> Nilr then walkadd t2 r k else Inr (t2, k)) = Inr (t3, k)" "wft v4 t3"
    "cores t3 = cores t2 \<union> cores r"
    using Rnode.IH(3) [OF t2(2)] Rnode.prems(2) fr t2(2) by (cases "r = Nilr") auto
  show ?case using t1 t2 t3 by auto
qed simp

section \<open>Adding a route\<close>

text \<open>Memory for route nodes never runs out.\<close>

definition rmem :: "Rtab \<Rightarrow> bool" where "rmem k \<longleftrightarrow> (\<forall>i. t_mallocs k i)"

text \<open>
  Nodes in use, counted from the allocator's side: \<open>held k\<close> is the number of nodes taken from
  \<^verbatim>\<open>malloc\<close> and not on a free list.
\<close>

definition held :: "Rtab \<Rightarrow> int" where
  "held k = int (t_mnext k) - int (t_v4free k) - int (t_v6free k)"

lemma allocroute_ok:
  assumes "rmem k"
  shows "\<exists>k'. allocroute ty k = Inr (zeroroute ty, k') \<and> rmem k' \<and> t_queue k' = t_queue k \<and> held k' = held k + 1"
  using assms by (auto simp: allocroute_def rmem_def held_def Let_def)

lemma freeroute_simps [simp]:
  "rmem (freeroute ty k) = rmem k" "t_queue (freeroute ty k) = t_queue k" "held (freeroute ty k) = held k - 1"
  by (simp_all add: freeroute_def rmem_def held_def)

lemma zeroroute_type [simp]: "rt_type (zeroroute ty) = ty" "rt_ref (zeroroute ty) = 1"
  by (simp_all add: zeroroute_def)

lemma addqueue_ok:
  assumes "rmem k" "t \<noteq> Nilr"
  shows "\<exists>k' ty. addqueue t k = Inr ((), k') \<and> rmem k' \<and> t_queue k' = (ty, t) # t_queue k \<and> held k' = held k + 1"
proof (cases t)
  case (Rnode l p m r)
  obtain k1 where "allocroute (rt_type p) k = Inr (zeroroute (rt_type p), k1)" "rmem k1" "t_queue k1 = t_queue k" "held k1 = held k + 1"
    using allocroute_ok [OF assms(1)] by blast
  then show ?thesis using Rnode by (simp add: addqueue_def) (simp add: rmem_def held_def)
qed (use assms in simp)

text \<open>
  What \<open>addnode\<close> does with a new node \<open>i\<close> that does not partially overlap any other: it
  merges with the node of the same range; or it goes in, and displaces at most one subtree, all of
  whose nodes can be reinjected without displacing anything.
\<close>

definition merged :: "bool \<Rightarrow> rtree \<Rightarrow> Route \<Rightarrow> rtree \<Rightarrow> bool" where
  "merged v4 t i t' \<longleftrightarrow> (\<exists>p \<in> cores t. sameas i p \<and> wft v4 t' \<and> cores t' = insert (core (supersede p i)) (cores t - {p}))"

definition placed :: "bool \<Rightarrow> rtree \<Rightarrow> Route \<Rightarrow> rtree \<Rightarrow> rtree \<Rightarrow> bool" where
  "placed v4 t i t' s \<longleftrightarrow> wft v4 t' \<and> wft v4 s \<and> (\<forall>x \<in> cores t. \<not> sameas i x) \<and>
     (\<exists>R. cores t' = insert (core i) R \<and> cores t = R \<union> cores s) \<and> (\<forall>y \<in> cores s. fits y (cores t'))"

lemma core_supersede: "core (supersede (core p) i) = core (supersede p i)"
  by (simp add: supersede_def copygate_def core_def)

lemma okr_supersede:
  assumes "okr v4 p" "okr v4 i"
  shows "okr v4 (supersede p i)" "lo (supersede p i) = lo p" "hi (supersede p i) = hi p"
  using assms by (auto simp: okr_def supersede_def copygate_def lo_def hi_def)

lemma wft_disjoint:
  assumes "wft v4 (Rnode l p m r)"
  shows "core p \<notin> cores l" "core p \<notin> cores m" "core p \<notin> cores r"
    "cores l \<inter> cores m = {}" "cores l \<inter> cores r = {}" "cores m \<inter> cores r = {}"
proof -
  have ok: "okr v4 p" "x \<in> cores l \<union> cores m \<union> cores r \<Longrightarrow> okr v4 x" for x
    using assms wft_okr by auto
  have L: "x \<in> cores l \<Longrightarrow> hi x < lo p" and R: "x \<in> cores r \<Longrightarrow> hi p < lo x"
    and M: "x \<in> cores m \<Longrightarrow> lo p \<le> lo x \<and> hi x \<le> hi p \<and> \<not> sameas x p" for x
    using assms by (auto simp: before_def within_def)
  show "core p \<notin> cores l" using L [of "core p"] ok(1) by (auto simp: okr_def)
  show "core p \<notin> cores r" using R [of "core p"] ok(1) by (auto simp: okr_def)
  show "core p \<notin> cores m" using M [of "core p"] by (auto simp: sameas_def)
  have nz: "x \<in> cores l \<union> cores m \<union> cores r \<Longrightarrow> lo x \<le> hi x" for x using ok(2) by (simp add: okr_def)
  have p: "lo p \<le> hi p" using ok(1) by (simp add: okr_def)
  show "cores l \<inter> cores m = {}" using L M nz by fastforce
  show "cores l \<inter> cores r = {}" using L R nz p by fastforce
  show "cores m \<inter> cores r = {}" using R M nz by fastforce
qed

lemma interval_over:
  fixes li :: nat
  assumes "li \<le> lp" "hp \<le> ui" "\<not> (lp = li \<and> hp = ui)" "li \<le> ui" "lp \<le> hp" "lx \<le> hx"
    and "ui < lx \<or> hx < li \<or> li = lx \<and> ui = hx \<or> lx \<le> li \<and> ui \<le> hx \<and> \<not> (li = lx \<and> ui = hx) \<or>
      li \<le> lx \<and> hx \<le> ui \<and> \<not> (lx = li \<and> hx = ui)"
    and "lx = lp \<and> hx = hp \<or> hx < lp \<or> hp < lx \<or> lp \<le> lx \<and> hx \<le> hp \<and> \<not> (lx = lp \<and> hx = hp)"
  shows "\<not> (li = lx \<and> ui = hx) \<and> (hx < li \<or> ui < lx \<or> li \<le> lx \<and> hx \<le> ui \<and> \<not> (lx = li \<and> hx = ui))"
  using assms by (elim disjE conjE; simp; linarith?)

lemma over_others:
  assumes "within p i" "nested i x" "okr v p" "okr v i" "okr v x" "sameas x p \<or> before x p \<or> before p x \<or> within x p"
  shows "\<not> sameas i x \<and> (before x i \<or> before i x \<or> within x i)"
proof -
  have "lo p \<le> hi p" "lo i \<le> hi i" "lo x \<le> hi x" using assms(3-5) by (simp_all add: okr_def)
  then show ?thesis
    using assms(1,2,6) interval_over [of "lo i" "lo p" "hi p" "hi i" "lo x" "hi x"]
    unfolding nested_def before_def within_def sameas_def by blast
qed

text \<open>
  One step up: \<open>C\<close> puts the changed subtree back under its parent, whose other nodes are
  \<open>B\<close>; \<open>Rel\<close> is the place of the subtree's ranges relative to the parent.
\<close>

lemma merged_up:
  assumes "merged v4 l i l'" "wft v4 l" "okr v4 i" "cores t = cores l \<union> B" "cores (C l') = cores l' \<union> B"
    "cores l \<inter> B = {}" "\<forall>x \<in> cores l. Rel x" "wft v4 l' \<Longrightarrow> \<forall>x \<in> cores l'. Rel x \<Longrightarrow> wft v4 (C l')"
    and Rel: "\<And>x y. Rel x \<Longrightarrow> lo y = lo x \<Longrightarrow> hi y = hi x \<Longrightarrow> Rel y"
  shows "merged v4 t i (balancetree (C l'))"
proof -
  obtain q where q: "q \<in> cores l" "sameas i q" "wft v4 l'" "cores l' = insert (core (supersede q i)) (cores l - {q})"
    using assms(1) by (auto simp: merged_def)
  have "okr v4 q" using wft_okr [OF assms(2) q(1)] .
  then have "Rel (core (supersede q i))"
    using Rel [of q "core (supersede q i)"] okr_supersede assms(3,7) q(1) by simp
  then have "wft v4 (C l')" using assms(7,8) q(3,4) by auto
  moreover have "cores (C l') = insert (core (supersede q i)) (cores t - {q})" using assms(4-6) q(1,4) by auto
  ultimately show ?thesis using q(1,2) assms(4) unfolding merged_def by (auto simp: wft_balancetree)
qed

lemma placed_up:
  assumes "placed v4 l i l' s" "cores t = cores l \<union> B" "cores (C l') = cores l' \<union> B"
    "\<forall>x \<in> cores l. Rel x" "Rel (core i)" "wft v4 l' \<Longrightarrow> \<forall>x \<in> cores l'. Rel x \<Longrightarrow> wft v4 (C l')"
    "\<forall>y \<in> cores l. fits y B" "\<forall>b \<in> B. \<not> sameas i b"
  shows "placed v4 t i (balancetree (C l')) s"
proof -
  obtain R where R: "wft v4 l'" "wft v4 s" "\<forall>x \<in> cores l. \<not> sameas i x" "cores l' = insert (core i) R"
    "cores l = R \<union> cores s" "\<forall>y \<in> cores s. fits y (cores l')" using assms(1) by (auto simp: placed_def)
  have "\<forall>x \<in> cores l'. Rel x" using R(4,5) assms(4,5) by auto
  then have "wft v4 (C l')" using assms(6) R(1) by simp
  moreover have "\<forall>y \<in> cores s. fits y (cores (C l'))" using R(5,6) assms(3,7) by (auto simp: fits_def)
  moreover have "\<exists>Q. cores (C l') = insert (core i) Q \<and> cores t = Q \<union> cores s"
    using R(4,5) assms(2,3) by (intro exI [of _ "R \<union> B"]) auto
  ultimately show ?thesis
    using R(2,3) assms(2,8) unfolding placed_def by (auto simp: wft_balancetree)
qed

definition addpost :: "bool \<Rightarrow> rtree \<Rightarrow> Route \<Rightarrow> Rtab \<Rightarrow> rtree \<Rightarrow> Rtab \<Rightarrow> bool" where
  "addpost v4 t i k t' k' \<longleftrightarrow> rmem k' \<and>
    (merged v4 t i t' \<and> t_queue k' = [] \<and> held k' = held k - 1 \<or>
     placed v4 t i t' Nilr \<and> k' = k \<or>
     (\<exists>s ty. s \<noteq> Nilr \<and> placed v4 t i t' s \<and> t_queue k' = [(ty, s)] \<and> held k' = held k + 1))"

lemma addpost_up:
  assumes "addpost v4 l i k l' k'" "wft v4 l" "okr v4 i" "cores t = cores l \<union> B" "cores (C l') = cores l' \<union> B"
    "cores l \<inter> B = {}" "\<forall>x \<in> cores l. Rel x" "Rel (core i)"
    "wft v4 l' \<Longrightarrow> \<forall>x \<in> cores l'. Rel x \<Longrightarrow> wft v4 (C l')" "\<forall>y \<in> cores l. fits y B" "\<forall>b \<in> B. \<not> sameas i b"
    "\<And>x y. Rel x \<Longrightarrow> lo y = lo x \<Longrightarrow> hi y = hi x \<Longrightarrow> Rel y"
  shows "addpost v4 t i k (balancetree (C l')) k'"
proof -
  have "merged v4 t i (balancetree (C l'))" if "merged v4 l i l'"
    by (rule merged_up [where C = C and Rel = Rel and B = B, OF that]) (use assms in blast)+
  moreover have "placed v4 t i (balancetree (C l')) s" if "placed v4 l i l' s" for s
    by (rule placed_up [where C = C and Rel = Rel and B = B, OF that]) (use assms in blast)+
  ultimately show ?thesis using assms(1) unfolding addpost_def by blast
qed

lemma addnode_ok:
  assumes "wft v4 t" "okr v4 i" "\<forall>x \<in> cores t. nested i x" "rmem k" "t_queue k = []"
  shows "\<exists>t' k'. addnode t (Rnode Nilr i Nilr Nilr) k = Inr (t', k') \<and> addpost v4 t i k t' k'"
  using assms
proof (induction t)
  case Nilr
  then show ?case by (simp add: setdepth1_def addpost_def placed_def fits_def)
next
  case (Rnode l p m r)
  let ?n = "Rnode Nilr i Nilr Nilr"
  have ok: "okr v4 i" "okr v4 p" and W: "wft v4 (Rnode l p m r)" using Rnode.prems by simp_all
  have wl: "wft v4 l" "wft v4 m" "wft v4 r" using W by simp_all
  have L: "\<forall>x \<in> cores l. before x p" and R: "\<forall>x \<in> cores r. before p x" and M: "\<forall>x \<in> cores m. within x p" using W by simp_all
  note D = wft_disjoint [OF W]
  consider (pre) "before i p" | (post) "before p i" | (same) "sameas i p" | (in_p) "within i p" | (over) "within p i"
    using Rnode.prems(3) by (auto simp: nested_def)
  then show ?case
  proof cases
    case same
    have m: "wft v4 (Rnode l (supersede p i) m r)"
      using W okr_supersede [OF ok(2,1)] by (auto simp: before_def within_def sameas_def)
    have "merged v4 (Rnode l p m r) i (balancetree (Rnode l (supersede p i) m r))"
      unfolding merged_def
      using same D m by (intro bexI [of _ "core p"]) (auto simp: wft_balancetree core_supersede simp del: wft.simps)
    then show ?thesis using Rnode.prems rangecompare_same [OF ok same] by (auto simp: addpost_def)
  next
    case over
    obtain k' ty where q: "addqueue (Rnode l p m r) k = Inr ((), k')" "rmem k'" "t_queue k' = [(ty, Rnode l p m r)]" "held k' = held k + 1"
      using addqueue_ok [OF Rnode.prems(4), of "Rnode l p m r"] Rnode.prems(5) by auto
    let ?t = "balancetree (setdepth1 ?n)"
    have c: "cores ?t = {core i}" "wft v4 ?t" using ok by (simp_all add: setdepth1_def wft_balancetree)
    have "\<not> sameas i x \<and> (before x i \<or> before i x \<or> within x i)" if "x \<in> cores (Rnode l p m r)" for x
    proof (rule over_others [OF over _ ok(2,1)])
      show "nested i x" "okr v4 x" using that Rnode.prems(3) wft_okr [OF W] by auto
      show "sameas x p \<or> before x p \<or> before p x \<or> within x p" using that L R M by (auto simp: sameas_def)
    qed
    then have "placed v4 (Rnode l p m r) i ?t (Rnode l p m r)"
      unfolding placed_def using W c by (auto simp: fits_def simp del: cores.simps wft.simps)
    then show ?thesis using q rangecompare_contains [OF ok over] by (auto simp: addpost_def)
  next
    case pre
    obtain t' k' where a: "addnode l ?n k = Inr (t', k')" "addpost v4 l i k t' k'" using Rnode.IH(1) Rnode.prems by auto
    have "addpost v4 (Rnode l p m r) i k (balancetree (Rnode t' p m r)) k'"
    proof (rule addpost_up [OF a(2) wl(1) ok(1), where B = "insert (core p) (cores m \<union> cores r)" and C = "\<lambda>t. Rnode t p m r"
          and Rel = "\<lambda>x. before x p"])
      show "\<forall>y \<in> cores l. fits y (insert (core p) (cores m \<union> cores r))"
        using L R M within_before(2) before_trans [OF _ ok(2)] by (auto simp: fits_def)
      show "\<forall>b \<in> insert (core p) (cores m \<union> cores r). \<not> sameas i b"
        using pre ok R M by (auto simp: before_def within_def sameas_def okr_def) (fastforce+)?
    qed (use W D pre in \<open>auto simp: before_def\<close>)
    then show ?thesis using a(1) rangecompare_before [OF ok pre] by auto
  next
    case post
    obtain t' k' where a: "addnode r ?n k = Inr (t', k')" "addpost v4 r i k t' k'" using Rnode.IH(3) Rnode.prems by auto
    have "addpost v4 (Rnode l p m r) i k (balancetree (Rnode l p m t')) k'"
    proof (rule addpost_up [OF a(2) wl(3) ok(1), where B = "insert (core p) (cores m \<union> cores l)" and C = "\<lambda>t. Rnode l p m t"
          and Rel = "\<lambda>x. before p x"])
      show "\<forall>y \<in> cores r. fits y (insert (core p) (cores m \<union> cores l))"
        using L R M within_before(1) before_trans [OF _ ok(2)] by (auto simp: fits_def)
      show "\<forall>b \<in> insert (core p) (cores m \<union> cores l). \<not> sameas i b"
        using post ok L M by (auto simp: before_def within_def sameas_def okr_def) (fastforce+)?
    qed (use W D post in \<open>auto simp: before_def\<close>)
    then show ?thesis using a(1) rangecompare_after [OF ok post] by auto
  next
    case in_p
    obtain t' k' where a: "addnode m ?n k = Inr (t', k')" "addpost v4 m i k t' k'" using Rnode.IH(2) Rnode.prems by auto
    have "addpost v4 (Rnode l p m r) i k (balancetree (Rnode l p t' r)) k'"
    proof (rule addpost_up [OF a(2) wl(2) ok(1), where B = "insert (core p) (cores l \<union> cores r)" and C = "\<lambda>t. Rnode l p t r"
          and Rel = "\<lambda>x. within x p"])
      show "\<forall>y \<in> cores m. fits y (insert (core p) (cores l \<union> cores r))"
        using L R M within_before by (auto simp: fits_def)
      show "\<forall>b \<in> insert (core p) (cores l \<union> cores r). \<not> sameas i b"
        using in_p ok L R by (auto simp: before_def within_def sameas_def okr_def) (fastforce+)?
    qed (use W D in_p in \<open>auto simp: within_def sameas_def\<close>)
    then show ?thesis using a(1) rangecompare_within [OF ok in_p] by auto
  qed
qed

text \<open>A queue of subtrees that can be reinjected one after the other into a tree with the nodes \<open>X\<close>.\<close>

fun pieces :: "bool \<Rightarrow> Route set \<Rightarrow> (byte \<times> rtree) list \<Rightarrow> bool" where
  "pieces v4 X [] \<longleftrightarrow> True"
| "pieces v4 X ((ty, s) # qs) \<longleftrightarrow> wft v4 s \<and> s \<noteq> Nilr \<and> (\<forall>y \<in> cores s. fits y X) \<and> pieces v4 (X \<union> cores s) qs"

lemma requeue_ok:
  assumes "wft v4 t" "pieces v4 (cores t) (t_queue k)" "rmem k"
  shows "\<exists>t' k'. requeue t k = Some (Inr (t', k')) \<and> wft v4 t' \<and> rmem k' \<and> t_queue k' = [] \<and>
    cores t' = cores t \<union> (\<Union>(ty, s) \<in> set (t_queue k). cores s) \<and> held k' = held k - int (length (t_queue k))"
  using assms
proof (induction "t_queue k" arbitrary: t k)
  case Nil
  then show ?case by (subst requeue.simps) auto
next
  case (Cons c qs)
  obtain ty s where c: "c = (ty, s)" by (cases c)
  have q: "t_queue k = (ty, s) # qs" using Cons.hyps(2) c by simp
  then have s: "wft v4 s" "s \<noteq> Nilr" "\<forall>y \<in> cores s. fits y (cores t)" "pieces v4 (cores t \<union> cores s) qs"
    using Cons.prems(2) by simp_all
  let ?k = "k\<lparr>t_queue := qs\<rparr>"
  obtain t1 where t1: "walkadd t s ?k = Inr (t1, ?k)" "wft v4 t1" "cores t1 = cores t \<union> cores s"
    using walkadd_fits [OF Cons.prems(1) s(1-3)] by blast
  have h: "held ?k = held k" "rmem ?k" using Cons.prems(3) by (simp_all add: held_def rmem_def)
  have "\<exists>t' k'. requeue t1 (freeroute ty ?k) = Some (Inr (t', k')) \<and> wft v4 t' \<and> rmem k' \<and> t_queue k' = [] \<and>
    cores t' = cores t1 \<union> (\<Union>(ty, s) \<in> set (t_queue (freeroute ty ?k)). cores s) \<and>
    held k' = held (freeroute ty ?k) - int (length (t_queue (freeroute ty ?k)))"
    by (rule Cons.hyps(1)) (use t1 s h in simp_all)
  then show ?case using q t1 h by (subst requeue.simps) auto
qed

text \<open>
  Adding a route to a tree: the loop over the reinjection queue ends, and the tree then holds the
  old routes and the new one, or the old one of the same range superseded by the new.
\<close>

lemma addone_ok:
  assumes "wft v4 t" "okr v4 i" "\<forall>x \<in> cores t. nested i x" "rmem k" "t_queue k = []"
  shows "\<exists>t' k'. addone t i k = Some (Inr (t', k')) \<and> wft v4 t' \<and> rmem k' \<and> t_queue k' = [] \<and>
    ((\<forall>x \<in> cores t. \<not> sameas i x) \<and> cores t' = insert (core i) (cores t) \<and> held k' = held k \<or>
     (\<exists>p \<in> cores t. sameas i p \<and> cores t' = insert (core (supersede p i)) (cores t - {p}) \<and> held k' = held k - 1))"
proof -
  obtain t1 k1 where a: "addnode t (Rnode Nilr i Nilr Nilr) k = Inr (t1, k1)" and post: "addpost v4 t i k t1 k1"
    using addnode_ok [OF assms] by blast
  then have e: "addone t i k = requeue t1 k1" by (simp add: addone_def)
  have rm: "rmem k1" using post by (simp add: addpost_def)
  consider (merge) "merged v4 t i t1" "t_queue k1 = []" "held k1 = held k - 1"
    | (place) "placed v4 t i t1 Nilr" "k1 = k"
    | (shift) s ty where "s \<noteq> Nilr" "placed v4 t i t1 s" "t_queue k1 = [(ty, s)]" "held k1 = held k + 1"
    using post unfolding addpost_def by blast
  then show ?thesis
  proof cases
    case merge
    then have "requeue t1 k1 = Some (Inr (t1, k1))" by (subst requeue.simps) simp
    then show ?thesis using e merge rm by (auto simp: merged_def)
  next
    case place
    then have "requeue t1 k1 = Some (Inr (t1, k1))" using assms(5) by (subst requeue.simps) simp
    then show ?thesis using e place rm assms(5) by (auto simp: placed_def)
  next
    case shift
    obtain R where R: "cores t1 = insert (core i) R" "cores t = R \<union> cores s" using shift(2) by (auto simp: placed_def)
    have "pieces v4 (cores t1) (t_queue k1)" "wft v4 t1" "\<forall>x \<in> cores t. \<not> sameas i x"
      using shift by (auto simp: placed_def)
    then show ?thesis using requeue_ok [of v4 t1 k1] rm e shift(3,4) R by auto
  qed
qed

section \<open>Removing a route\<close>

text \<open>
  What lies at the node with the range of \<open>rt\<close>: taking it out leaves a well-formed tree into
  which the parts of the removed subtree can be reinjected.
\<close>

definition cut :: "bool \<Rightarrow> rtree \<Rightarrow> Route \<Rightarrow> rtree \<Rightarrow> Route \<Rightarrow> rtree \<Rightarrow> rtree \<Rightarrow> bool" where
  "cut v4 t rt l p m r \<longleftrightarrow> looknode t rt = Some (Rnode l p m r) \<and> sameas rt p \<and> wft v4 (Rnode l p m r) \<and>
     wft v4 (lookset t rt Nilr) \<and> cores t = cores (lookset t rt Nilr) \<union> cores (Rnode l p m r) \<and>
     cores (lookset t rt Nilr) \<inter> cores (Rnode l p m r) = {} \<and>
     (\<forall>y \<in> cores (Rnode l p m r). fits y (cores (lookset t rt Nilr))) \<and>
     (\<forall>p'. okr v4 p' \<longrightarrow> sameas p' p \<longrightarrow> wft v4 (lookset t rt (Rnode l p' m r)) \<and>
        cores (lookset t rt (Rnode l p' m r)) = cores (lookset t rt Nilr) \<union> cores (Rnode l p' m r))"

lemma cut_up:
  assumes "cut v4 s rt l p m r" "looknode t rt = looknode s rt" "\<And>u. lookset t rt u = C (lookset s rt u)"
    "cores t = cores s \<union> B" "\<And>u. cores (C u) = cores u \<union> B" "cores s \<inter> B = {}" "\<forall>y \<in> cores s. fits y B"
    "\<And>u. wft v4 u \<Longrightarrow> \<forall>x \<in> cores u. Rel x \<Longrightarrow> wft v4 (C u)" "\<forall>x \<in> cores s. Rel x"
    and Rel: "\<And>x y. Rel x \<Longrightarrow> lo y = lo x \<Longrightarrow> hi y = hi x \<Longrightarrow> Rel y"
  shows "cut v4 t rt l p m r"
proof -
  let ?s = "lookset s rt Nilr"
  have s: "looknode s rt = Some (Rnode l p m r)" "sameas rt p" "wft v4 (Rnode l p m r)" "wft v4 ?s"
    "cores s = cores ?s \<union> cores (Rnode l p m r)" "cores ?s \<inter> cores (Rnode l p m r) = {}"
    "\<forall>y \<in> cores (Rnode l p m r). fits y (cores ?s)"
    "\<And>p'. okr v4 p' \<Longrightarrow> sameas p' p \<Longrightarrow> wft v4 (lookset s rt (Rnode l p' m r)) \<and>
        cores (lookset s rt (Rnode l p' m r)) = cores ?s \<union> cores (Rnode l p' m r)"
    using assms(1) unfolding cut_def by auto
  have w: "wft v4 (C ?s)" using assms(8,9) s(4,5) by auto
  have w': "wft v4 (C (lookset s rt (Rnode l p' m r)))" if "okr v4 p'" "sameas p' p" for p'
  proof -
    have "Rel (core p)" using assms(9) s(5) by auto
    then have "Rel (core p')" using Rel that(2) by (auto simp: sameas_def)
    then show ?thesis using assms(8) [of "lookset s rt (Rnode l p' m r)"] assms(9) s(5) s(8) [OF that] by auto
  qed
  show ?thesis
    unfolding cut_def assms(2,3) using s w w' assms(4-7)
    by (auto simp: fits_def simp del: cores.simps wft.simps)
qed

end
