(* ===== verification/Route_Table.thy ===== *)
theory Route_Table
  imports Route
begin

text \<open>
  The routing forest as a table: removal of a route, lookup as a most specific match, and the
  refinement of a plain set of routes by the 1024 trees of a forest.
\<close>

section \<open>Removing a route from a tree\<close>

lemma looknode_ok:
  assumes "wft v4 t" "okr v4 rt" "\<forall>x \<in> cores t. nested rt x"
  shows "(\<exists>l p m r. cut v4 t rt l p m r) \<or> looknode t rt = None \<and> (\<forall>x \<in> cores t. \<not> sameas rt x)"
  using assms
proof (induction t)
  case (Rnode l p m r)
  have ok: "okr v4 rt" "okr v4 p" and W: "wft v4 (Rnode l p m r)" using Rnode.prems by simp_all
  have L: "\<forall>x \<in> cores l. before x p" and R: "\<forall>x \<in> cores r. before p x" and M: "\<forall>x \<in> cores m. within x p" using W by simp_all
  note D = wft_disjoint [OF W]
  consider (pre) "before rt p" | (post) "before p rt" | (same) "sameas rt p" | (in_p) "within rt p" | (over) "within p rt"
    using Rnode.prems(3) by (auto simp: nested_def)
  then show ?case
  proof cases
    case same
    have "cut v4 (Rnode l p m r) rt l p m r"
      unfolding cut_def using W same rangecompare_same [OF ok same]
      by (auto simp: fits_def before_def within_def sameas_def)
    then show ?thesis by blast
  next
    case over
    have "\<not> sameas rt x \<and> (before x rt \<or> before rt x \<or> within x rt)" if "x \<in> cores (Rnode l p m r)" for x
    proof (rule over_others [OF over _ ok(2,1)])
      show "nested rt x" "okr v4 x" using that Rnode.prems(3) wft_okr [OF W] by auto
      show "sameas x p \<or> before x p \<or> before p x \<or> within x p" using that L R M by (auto simp: sameas_def)
    qed
    then show ?thesis using rangecompare_contains [OF ok over] by simp
  next
    case pre
    have none: "\<forall>b \<in> insert (core p) (cores m \<union> cores r). \<not> sameas rt b"
      using pre ok R M by (auto simp: before_def within_def sameas_def okr_def) (fastforce+)?
    have "cut v4 (Rnode l p m r) rt l1 p1 m1 r1" if "cut v4 l rt l1 p1 m1 r1" for l1 p1 m1 r1
    proof (rule cut_up [OF that, where B = "insert (core p) (cores m \<union> cores r)" and C = "\<lambda>t. Rnode t p m r" and Rel = "\<lambda>x. before x p"])
      show "\<forall>y \<in> cores l. fits y (insert (core p) (cores m \<union> cores r))"
        using L R M within_before(2) before_trans [OF _ ok(2)] by (auto simp: fits_def)
    qed (use W D rangecompare_before [OF ok pre] in \<open>auto simp: before_def\<close>)
    then have up: "\<exists>l1 p1 m1 r1. cut v4 l rt l1 p1 m1 r1 \<Longrightarrow> \<exists>l1 p1 m1 r1. cut v4 (Rnode l p m r) rt l1 p1 m1 r1" by blast
    have "(\<exists>l1 p1 m1 r1. cut v4 l rt l1 p1 m1 r1) \<or> looknode l rt = None \<and> (\<forall>x \<in> cores l. \<not> sameas rt x)"
      using Rnode.IH(1) Rnode.prems by simp
    then show ?thesis
    proof
      assume "looknode l rt = None \<and> (\<forall>x \<in> cores l. \<not> sameas rt x)"
      then show ?thesis using none rangecompare_before [OF ok pre] by auto
    qed (use up in blast)
  next
    case post
    have none: "\<forall>b \<in> insert (core p) (cores m \<union> cores l). \<not> sameas rt b"
      using post ok L M by (auto simp: before_def within_def sameas_def okr_def) (fastforce+)?
    have "cut v4 (Rnode l p m r) rt l1 p1 m1 r1" if "cut v4 r rt l1 p1 m1 r1" for l1 p1 m1 r1
    proof (rule cut_up [OF that, where B = "insert (core p) (cores m \<union> cores l)" and C = "\<lambda>t. Rnode l p m t" and Rel = "\<lambda>x. before p x"])
      show "\<forall>y \<in> cores r. fits y (insert (core p) (cores m \<union> cores l))"
        using L R M within_before(1) before_trans [OF _ ok(2)] by (auto simp: fits_def)
    qed (use W D rangecompare_after [OF ok post] in \<open>auto simp: before_def\<close>)
    then have up: "\<exists>l1 p1 m1 r1. cut v4 r rt l1 p1 m1 r1 \<Longrightarrow> \<exists>l1 p1 m1 r1. cut v4 (Rnode l p m r) rt l1 p1 m1 r1" by blast
    have "(\<exists>l1 p1 m1 r1. cut v4 r rt l1 p1 m1 r1) \<or> looknode r rt = None \<and> (\<forall>x \<in> cores r. \<not> sameas rt x)"
      using Rnode.IH(3) Rnode.prems by simp
    then show ?thesis
    proof
      assume "looknode r rt = None \<and> (\<forall>x \<in> cores r. \<not> sameas rt x)"
      then show ?thesis using none rangecompare_after [OF ok post] by auto
    qed (use up in blast)
  next
    case in_p
    have none: "\<forall>b \<in> insert (core p) (cores l \<union> cores r). \<not> sameas rt b"
      using in_p ok L R by (auto simp: before_def within_def sameas_def okr_def) (fastforce+)?
    have "cut v4 (Rnode l p m r) rt l1 p1 m1 r1" if "cut v4 m rt l1 p1 m1 r1" for l1 p1 m1 r1
    proof (rule cut_up [OF that, where B = "insert (core p) (cores l \<union> cores r)" and C = "\<lambda>t. Rnode l p t r" and Rel = "\<lambda>x. within x p"])
      show "\<forall>y \<in> cores m. fits y (insert (core p) (cores l \<union> cores r))"
        using L R M within_before by (auto simp: fits_def)
    qed (use W D rangecompare_within [OF ok in_p] in \<open>auto simp: within_def sameas_def\<close>)
    then have up: "\<exists>l1 p1 m1 r1. cut v4 m rt l1 p1 m1 r1 \<Longrightarrow> \<exists>l1 p1 m1 r1. cut v4 (Rnode l p m r) rt l1 p1 m1 r1" by blast
    have "(\<exists>l1 p1 m1 r1. cut v4 m rt l1 p1 m1 r1) \<or> looknode m rt = None \<and> (\<forall>x \<in> cores m. \<not> sameas rt x)"
      using Rnode.IH(2) Rnode.prems by simp
    then show ?thesis
    proof
      assume "looknode m rt = None \<and> (\<forall>x \<in> cores m. \<not> sameas rt x)"
      then show ?thesis using none rangecompare_within [OF ok in_p] by auto
    qed (use up in blast)
  qed
qed simp

lemma addqueue_any:
  assumes "rmem k"
  shows "\<exists>k' ty. addqueue t k = Inr ((), k') \<and> rmem k' \<and> t_queue k' = (if t = Nilr then [] else [(ty, t)]) @ t_queue k \<and>
    held k' = held k + (if t = Nilr then 0 else 1)"
proof (cases "t = Nilr")
  case True
  then show ?thesis using assms by (simp add: addqueue_def)
next
  case False
  then show ?thesis using addqueue_ok [OF assms False] by auto
qed

lemma sameas_unique:
  assumes "wft v4 t" "x \<in> cores t" "y \<in> cores t" "sameas x y"
  shows "x = y"
  using assms
proof (induction t)
  case (Rnode l p m r)
  have W: "wft v4 (Rnode l p m r)" by (rule Rnode.prems(1))
  have xy: "lo x = lo y" "hi x = hi y" using Rnode.prems(4) by (simp_all add: sameas_def)
  have b: "lo x \<le> hi x" "lo p \<le> hi p" using wft_okr [OF W Rnode.prems(2)] W by (simp_all add: okr_def)
  have pl: "z \<in> cores l \<Longrightarrow> hi z < lo p" and pr: "z \<in> cores r \<Longrightarrow> hi p < lo z"
    and pm: "z \<in> cores m \<Longrightarrow> lo p \<le> lo z \<and> hi z \<le> hi p \<and> \<not> (lo z = lo p \<and> hi z = hi p)" for z
    using W by (auto simp: before_def within_def sameas_def)
  have wf: "wft v4 l" "wft v4 m" "wft v4 r" using W by simp_all
  consider "x = core p" | "x \<in> cores l" | "x \<in> cores m" | "x \<in> cores r" using Rnode.prems(2) by auto
  then show ?case
  proof cases
    case 1
    then have "y = core p" using Rnode.prems(3) pl [of y] pm [of y] pr [of y] xy b by auto
    then show ?thesis using 1 by simp
  next
    case 2
    then have "y \<in> cores l" using Rnode.prems(3) pl [of x] pm [of y] pr [of y] xy b by auto
    then show ?thesis using Rnode.IH(1) wf 2 Rnode.prems(4) by blast
  next
    case 3
    then have "y \<in> cores m" using Rnode.prems(3) pl [of y] pm [of x] pr [of y] xy b by auto
    then show ?thesis using Rnode.IH(2) wf 3 Rnode.prems(4) by blast
  next
    case 4
    then have "y \<in> cores r" using Rnode.prems(3) pl [of y] pm [of y] pr [of x] xy b by auto
    then show ?thesis using Rnode.IH(3) wf 4 Rnode.prems(4) by blast
  qed
qed simp

text \<open>The effect of an addition and of a removal on a set of routes.\<close>

definition tadd :: "Route \<Rightarrow> Route set \<Rightarrow> Route set" where
  "tadd i X = {x \<in> X. \<not> sameas i x} \<union>
     (if \<exists>p \<in> X. sameas i p then (\<lambda>p. core (supersede p i)) ` {p \<in> X. sameas i p} else {core i})"

definition tdel :: "Route \<Rightarrow> Route set \<Rightarrow> Route set" where
  "tdel rt X = {x \<in> X. \<not> sameas rt x} \<union> (\<lambda>p. p\<lparr>rt_ref := rt_ref p - 1\<rparr>) ` {p \<in> X. sameas rt p \<and> rt_ref p \<noteq> 1}"

lemma same_rest:
  assumes "wft v4 t" "p \<in> cores t" "sameas i p"
  shows "{x \<in> cores t. \<not> sameas i x} = cores t - {p}" "{x \<in> cores t. sameas i x} = {p}"
proof -
  have "x = p" if "x \<in> cores t" "sameas i x" for x
    using sameas_unique [OF assms(1) that(1) assms(2)] that(2) assms(3) by (simp add: sameas_def)
  then show "{x \<in> cores t. \<not> sameas i x} = cores t - {p}" "{x \<in> cores t. sameas i x} = {p}"
    using assms(2,3) by blast+
qed

lemma addone_tadd:
  assumes "wft v4 t" "okr v4 i" "\<forall>x \<in> cores t. nested i x" "rmem k" "t_queue k = []"
  shows "\<exists>t' k'. addone t i k = Some (Inr (t', k')) \<and> wft v4 t' \<and> rmem k' \<and> t_queue k' = [] \<and> cores t' = tadd i (cores t)"
proof -
  obtain t' k' where a: "addone t i k = Some (Inr (t', k'))" "wft v4 t'" "rmem k'" "t_queue k' = []"
    and c: "(\<forall>x \<in> cores t. \<not> sameas i x) \<and> cores t' = insert (core i) (cores t) \<or>
      (\<exists>p \<in> cores t. sameas i p \<and> cores t' = insert (core (supersede p i)) (cores t - {p}))"
    using addone_ok [OF assms] by blast
  have "cores t' = tadd i (cores t)"
    using c
  proof (elim disjE bexE conjE)
    fix p assume p: "p \<in> cores t" "sameas i p" "cores t' = insert (core (supersede p i)) (cores t - {p})"
    then show ?thesis using same_rest [OF assms(1) p(1,2)] unfolding tadd_def by auto
  qed (auto simp: tadd_def)
  then show ?thesis using a by blast
qed

lemma delone_tdel:
  assumes "wft v4 t" "okr v4 rt" "\<forall>x \<in> cores t. nested rt x" "rmem k" "t_queue k = []"
  shows "\<exists>t' k'. delone t rt k = Some (Inr (t', k')) \<and> wft v4 t' \<and> rmem k' \<and> t_queue k' = [] \<and> cores t' = tdel rt (cores t)"
  using looknode_ok [OF assms(1-3)]
proof (elim disjE exE conjE)
  assume "looknode t rt = None" "\<forall>x \<in> cores t. \<not> sameas rt x"
  then show ?thesis using assms by (auto simp: delone_def tdel_def)
next
  fix l p m r assume c: "cut v4 t rt l p m r"
  let ?t0 = "lookset t rt Nilr" and ?p = "p\<lparr>rt_ref := rt_ref p - 1\<rparr>"
  have look: "looknode t rt = Some (Rnode l p m r)" "sameas rt p" and W: "wft v4 (Rnode l p m r)"
    and t0: "wft v4 ?t0" "cores t = cores ?t0 \<union> cores (Rnode l p m r)" "cores ?t0 \<inter> cores (Rnode l p m r) = {}"
    and f: "\<forall>y \<in> cores (Rnode l p m r). fits y (cores ?t0)"
    and set: "okr v4 ?p \<Longrightarrow> sameas ?p p \<Longrightarrow> wft v4 (lookset t rt (Rnode l ?p m r)) \<and>
        cores (lookset t rt (Rnode l ?p m r)) = cores ?t0 \<union> cores (Rnode l ?p m r)"
    using c unfolding cut_def by auto
  note D = wft_disjoint [OF W]
  have pin: "core p \<in> cores t" "sameas rt (core p)" using t0(2) look(2) by auto
  note rest = same_rest [OF assms(1) pin]
  have okp: "okr v4 ?p" "sameas ?p p" "core ?p = (core p)\<lparr>rt_ref := rt_ref (core p) - 1\<rparr>"
    using W by (auto simp: okr_def lo_def hi_def sameas_def core_def)
  have others: "cores t - {core p} = cores ?t0 \<union> cores l \<union> cores m \<union> cores r"
    using t0(2,3) D by auto
  show ?thesis
  proof (cases "rt_ref p = 1")
    case False
    have "delone t rt k = Some (Inr (lookset t rt (Rnode l ?p m r), k))" using look False by (simp add: delone_def)
    moreover have "cores (lookset t rt (Rnode l ?p m r)) = tdel rt (cores t)"
    proof -
      have "{q \<in> cores t. sameas rt q \<and> rt_ref q \<noteq> 1} = {core p}" using rest(2) False by (auto simp: core_def)
      then show ?thesis using set [OF okp(1,2)] rest(1) others okp(3) unfolding tdel_def by auto
    qed
    ultimately show ?thesis using set [OF okp(1,2)] assms by blast
  next
    case True
    obtain k1 t1 where q1: "addqueue l k = Inr ((), k1)" "rmem k1" "t_queue k1 = (if l = Nilr then [] else [(t1, l)])"
      using addqueue_any [OF assms(4), of l] assms(5) by auto
    obtain k2 t2 where q2: "addqueue m k1 = Inr ((), k2)" "rmem k2" "t_queue k2 = (if m = Nilr then [] else [(t2, m)]) @ t_queue k1"
      using addqueue_any [OF q1(2), of m] by auto
    obtain k3 t3 where q3: "addqueue r k2 = Inr ((), k3)" "rmem k3" "t_queue k3 = (if r = Nilr then [] else [(t3, r)]) @ t_queue k2"
      using addqueue_any [OF q2(2), of r] by auto
    let ?k = "freeroute (rt_type p) k3"
    have e: "delone t rt k = requeue ?t0 ?k" using look True q1(1) q2(1) q3(1) by (simp add: delone_def)
    have rel: "x \<in> cores l \<Longrightarrow> before x p" "x \<in> cores r \<Longrightarrow> before p x" "x \<in> cores m \<Longrightarrow> within x p" for x using W by simp_all
    have fm: "fits y (cores r)" if "y \<in> cores m" for y
      using rel that within_before(1) [of y p] by (auto simp: fits_def)
    have flr: "fits y (cores r)" "fits y (cores m)" if "y \<in> cores l" for y
      using rel that within_before(2) [of _ p y] before_trans [of y p v4] W by (auto simp: fits_def)
    have ff: "fits y (A \<union> B) = (fits y A \<and> fits y B)" "fits y {}" for y A B by (auto simp: fits_def)
    have p3: "pieces v4 (cores ?t0) (t_queue ?k)"
      using W f fm flr by (auto simp: q3(3) q2(3) q1(3) ff)
    obtain t' k' where r: "requeue ?t0 ?k = Some (Inr (t', k'))" "wft v4 t'" "rmem k'" "t_queue k' = []"
      "cores t' = cores ?t0 \<union> (\<Union>(ty, s) \<in> set (t_queue ?k). cores s)"
      using requeue_ok [OF t0(1) p3] q3(2) by auto
    have "(\<Union>(ty, s) \<in> set (t_queue ?k). cores s) = cores l \<union> cores m \<union> cores r"
      by (auto simp: q3(3) q2(3) q1(3) split: if_splits)
    moreover have "{q \<in> cores t. sameas rt q \<and> rt_ref q \<noteq> 1} = {}"
    proof -
      have "q = core p" if "q \<in> cores t" "sameas rt q" for q using that rest(2) by blast
      moreover have "rt_ref (core p) = 1" using True by (simp add: core_def)
      ultimately show ?thesis by auto
    qed
    ultimately have "cores t' = tdel rt (cores t)" using r(5) rest(1) others unfolding tdel_def by auto
    then show ?thesis using e r by auto
  qed
qed

section \<open>Lookup as most specific match\<close>

definition hits :: "nat \<Rightarrow> Route \<Rightarrow> bool" where "hits v x \<longleftrightarrow> lo x \<le> v \<and> v \<le> hi x"

text \<open>\<open>best v X r\<close>: \<open>r\<close> is the route of \<open>X\<close> for the address \<open>v\<close>, the most specific one that covers it.\<close>

definition best :: "nat \<Rightarrow> Route set \<Rightarrow> Route option \<Rightarrow> bool" where
  "best v X r \<longleftrightarrow> (case r of
       None \<Rightarrow> \<forall>x \<in> X. \<not> hits v x
     | Some r \<Rightarrow> core r \<in> X \<and> hits v r \<and> (\<forall>x \<in> X. hits v x \<longrightarrow> x = core r \<or> within r x))"

text \<open>The walk common to both families, on the values of the addresses.\<close>

fun rwalk :: "rtree \<Rightarrow> nat \<Rightarrow> Route option \<Rightarrow> Route option" where
  "rwalk Nilr v q = q"
| "rwalk (Rnode l p m r) v q =
     (if v < lo p then rwalk l v q else if hi p < v then rwalk r v q else rwalk m v (Some p))"

lemma rwalk_acc: "rwalk t v q = (case rwalk t v None of None \<Rightarrow> q | Some x \<Rightarrow> Some x)"
proof (induction t arbitrary: q)
  case (Rnode l p m r)
  obtain y where "rwalk m v (Some p) = Some y"
    using Rnode.IH(2) [of "Some p"] by (cases "rwalk m v None") simp_all
  then show ?case using Rnode.IH(1) [of q] Rnode.IH(3) [of q] by (cases "v < lo p"; cases "hi p < v"; simp)
qed simp

lemma rwalk_best:
  assumes "wft v4 t"
  shows "best v (cores t) (rwalk t v None)"
  using assms
proof (induction t)
  case (Rnode l p m r)
  have W: "wft v4 (Rnode l p m r)" by (rule Rnode.prems)
  have b: "lo p \<le> hi p" using W by (simp add: okr_def)
  have pl: "z \<in> cores l \<Longrightarrow> hi z < lo p" and pr: "z \<in> cores r \<Longrightarrow> hi p < lo z"
    and pm: "z \<in> cores m \<Longrightarrow> lo p \<le> lo z \<and> hi z \<le> hi p \<and> within z p" for z
    using W by (auto simp: before_def within_def)
  have IH: "best v (cores l) (rwalk l v None)" "best v (cores m) (rwalk m v None)" "best v (cores r) (rwalk r v None)"
    using Rnode.IH W by simp_all
  consider (left) "v < lo p" | (right) "hi p < v" | (hit) "lo p \<le> v" "v \<le> hi p" by linarith
  then show ?case
  proof cases
    case left
    have "\<not> hits v x" if "x = core p \<or> x \<in> cores m \<or> x \<in> cores r" for x
      using that left b pm [of x] pr [of x] by (auto simp: hits_def)
    then show ?thesis using IH(1) left by (auto simp: best_def split: option.splits)
  next
    case right
    have "\<not> hits v x" if "x = core p \<or> x \<in> cores m \<or> x \<in> cores l" for x
      using that right b pm [of x] pl [of x] by (auto simp: hits_def)
    then show ?thesis using IH(3) right b by (auto simp: best_def split: option.splits)
  next
    case hit
    have out: "\<not> hits v x" if "x \<in> cores l \<or> x \<in> cores r" for x
      using that hit pl [of x] pr [of x] by (auto simp: hits_def)
    have e: "rwalk (Rnode l p m r) v None = (case rwalk m v None of None \<Rightarrow> Some p | Some x \<Rightarrow> Some x)"
      using hit rwalk_acc [of m v "Some p"] by simp
    show ?thesis
    proof (cases "rwalk m v None")
      case None
      then show ?thesis using IH(2) out hit unfolding e by (auto simp: best_def hits_def)
    next
      case (Some x)
      have "within x p" using IH(2) Some pm [of "core x"] by (auto simp: best_def)
      then show ?thesis using IH(2) out Some unfolding e by (auto simp: best_def)
    qed
  qed
qed (simp add: best_def)

lemma v4walk_rwalk: "wft True t \<Longrightarrow> v4walk t la q = rwalk t (unat la) q"
proof (induction t arbitrary: q)
  case (Rnode l p m r)
  then have "lo p = unat (rt_a4 p)" "hi p = unat (rt_e4 p)" by (simp_all add: okr_def lo_def hi_def)
  then show ?case using Rnode by (auto simp: word_le_nat_alt)
qed simp

lemma v6less_val6: "length as = length bs \<Longrightarrow> v6less as bs \<longleftrightarrow> val6 as < val6 bs"
proof (induction as bs rule: list_induct2)
  case (Cons a as b bs)
  show ?case
  proof (cases "a = b")
    case False
    then have "unat a < unat b \<or> unat b < unat a" by (metis linorder_neqE_nat word_unat_eq_iff)
    then show ?thesis
      using val6_less [of a b as bs] val6_less [of b a bs as] Cons.hyps False by (auto simp: word_less_nat_alt)
  qed (use Cons in simp)
qed simp

lemma v6greater_less: "v6greater as bs = v6less bs as"
  by (induction as bs rule: v6greater.induct) auto

lemma v6walk_rwalk: "wft False t \<Longrightarrow> length la = IPllen \<Longrightarrow> v6walk t la q = rwalk t (val6 la) q"
proof (induction t arbitrary: q)
  case (Rnode l p m r)
  then have "lo p = val6 (rt_a6 p)" "hi p = val6 (rt_e6 p)" "length (rt_a6 p) = IPllen" "length (rt_e6 p) = IPllen"
    by (simp_all add: okr_def lo_def hi_def)
  then show ?case using Rnode by (simp add: v6greater_less v6less_val6)
qed simp

text \<open>Remembering the interface in the node found does not change the table.\<close>

lemma v4upd_keeps:
  assumes "\<And>r. core (g r) = core r"
  shows "cores (v4upd t la g) = cores t" "wft v4 (v4upd t la g) = wft v4 t"
proof -
  have g: "lo (g r) = lo r" "hi (g r) = hi r" "okr v4 (g r) = okr v4 r" for r
    using core_simps(1-3) assms by metis+
  have rel: "before (g a) b = before a b" "before a (g b) = before a b" "within a (g b) = within a b" for a b
    by (simp_all add: before_def within_def sameas_def g)
  show c: "cores (v4upd t la g) = cores t" for t by (induction t) (auto simp: assms)
  show "wft v4 (v4upd t la g) = wft v4 t" by (induction t) (auto simp: c g rel)
qed

section \<open>Buckets\<close>

text \<open>Both hash macros number the buckets by bits 17 to 26 of the address.\<close>

definition bidx :: "nat \<Rightarrow> nat" where "bidx v = v mod 2 ^ 27 div 2 ^ 17"

lemma hash_bits: "unat (drop_bit 17 (w AND 0x07ffffff)) = bidx (unat (w::ulong))"
proof -
  have m: "(0x07ffffff :: ulong) = mask 27" by (simp add: mask_eq_exp_minus_1)
  have "w AND 0x07ffffff = take_bit 27 w" unfolding m by (simp add: take_bit_eq_mask)
  then show ?thesis
    by (simp add: bidx_def unsigned_drop_bit_eq unsigned_take_bit_eq take_bit_eq_mod drop_bit_eq_div unat_div_distrib unat_mod_distrib)
qed

lemma V4H_bidx: "V4H a = bidx (unat a)"
  using hash_bits [of a] by (simp add: V4H_def Lroot_def)

lemma V6H_bidx:
  assumes "length a = IPllen"
  shows "V6H a = bidx (val6 a)"
proof -
  obtain w x y z where a: "a = [w, x, y, z]"
    using assms by (auto simp: IPllen_def length_Suc_conv numeral_eq_Suc)
  have "val6 a mod 2 ^ 27 = unat z mod 2 ^ 27"
  proof -
    have "val6 a = (unat w * 2 ^ 69 + unat x * 2 ^ 37 + unat y * 2 ^ 5) * 2 ^ 27 + unat z"
      by (simp add: a)
    then show ?thesis by (metis mod_mult_self3)
  qed
  then show ?thesis using hash_bits [of z] by (simp add: V6H_def a Lroot_def IPllen_def bidx_def)
qed

lemma bidx_less: "bidx v < 1024"
proof -
  have "v mod 2 ^ 27 < (2::nat) ^ 27" by simp
  then show ?thesis unfolding bidx_def by (simp add: div_less_iff_less_mult)
qed

text \<open>Ranges that are prefixes: blocks of a power of two, aligned to their size.\<close>

definition prefix :: "Route \<Rightarrow> bool" where
  "prefix r \<longleftrightarrow> (\<exists>n q. lo r = q * 2 ^ n \<and> hi r = q * 2 ^ n + 2 ^ n - 1)"

lemma blocks_nested:
  fixes q s :: nat
  assumes "n \<le> m"
  shows "q * 2 ^ n + 2 ^ n \<le> s * 2 ^ m \<or> s * 2 ^ m + 2 ^ m \<le> q * 2 ^ n \<or>
    s * 2 ^ m \<le> q * 2 ^ n \<and> q * 2 ^ n + 2 ^ n \<le> s * 2 ^ m + 2 ^ m"
proof -
  define d where "d = m - n"
  have m: "(2::nat) ^ m = 2 ^ d * 2 ^ n" using assms by (simp add: d_def power_add [symmetric])
  have mono: "a * 2 ^ n \<le> b * 2 ^ n \<longleftrightarrow> a \<le> b" for a b :: nat by simp
  have "q + 1 \<le> s * 2 ^ d \<or> s * 2 ^ d + 2 ^ d \<le> q \<or> s * 2 ^ d \<le> q \<and> q + 1 \<le> s * 2 ^ d + 2 ^ d" by linarith
  then have "(q + 1) * 2 ^ n \<le> (s * 2 ^ d) * 2 ^ n \<or> (s * 2 ^ d + 2 ^ d) * 2 ^ n \<le> q * 2 ^ n \<or>
    (s * 2 ^ d) * 2 ^ n \<le> q * 2 ^ n \<and> (q + 1) * 2 ^ n \<le> (s * 2 ^ d + 2 ^ d) * 2 ^ n" unfolding mono .
  then show ?thesis unfolding m by (simp only: add_mult_distrib mult_1 mult.assoc)
qed

lemma prefix_nested:
  assumes "prefix a" "prefix b"
  shows "nested a b"
proof -
  obtain n q where a: "lo a = q * 2 ^ n" "hi a = q * 2 ^ n + 2 ^ n - 1" using assms(1) by (auto simp: prefix_def)
  obtain m s where b: "lo b = s * 2 ^ m" "hi b = s * 2 ^ m + 2 ^ m - 1" using assms(2) by (auto simp: prefix_def)
  have p: "0 < (2::nat) ^ n" "0 < (2::nat) ^ m" by simp_all
  have h: "hi a + 1 = q * 2 ^ n + 2 ^ n" "hi b + 1 = s * 2 ^ m + 2 ^ m" using a b p by linarith+
  have "hi a + 1 \<le> lo b \<or> hi b + 1 \<le> lo a \<or> lo b \<le> lo a \<and> hi a + 1 \<le> hi b + 1 \<or> lo a \<le> lo b \<and> hi b + 1 \<le> hi a + 1"
    unfolding h a(1) b(1) using blocks_nested [of n m q s] blocks_nested [of m n s q] by linarith
  then show ?thesis by (auto simp: nested_def before_def within_def sameas_def)
qed

lemma bidx_mono_in_prefix:
  assumes "lo r = q * 2 ^ n" "hi r = q * 2 ^ n + 2 ^ n - 1" "lo r \<le> v" "v \<le> hi r"
  shows "bidx (lo r) \<le> bidx v \<and> bidx v \<le> bidx (hi r)"
proof (cases "n \<le> 27")
  case True
  define e :: nat where "e = 2 ^ (27 - n)"
  have en: "e * 2 ^ n = 2 ^ 27" using True by (simp add: e_def power_add [symmetric])
  have p: "0 < (2::nat) ^ n" by simp
  have m: "w mod 2 ^ 27 = (q mod e) * 2 ^ n + (w - q * 2 ^ n)" if "q * 2 ^ n \<le> w" "w < q * 2 ^ n + 2 ^ n" for w
  proof -
    define c where "c = w - q * 2 ^ n"
    have c: "c < 2 ^ n" "w = q * 2 ^ n + c" using that by (auto simp: c_def)
    have "w mod (e * 2 ^ n) = (q mod e) * 2 ^ n + c"
    proof -
      have "w = (q div e) * (e * 2 ^ n) + ((q mod e) * 2 ^ n + c)"
        unfolding c(2) by (metis add.assoc add_mult_distrib div_mult_mod_eq mult.assoc)
      moreover have "(q mod e) * 2 ^ n + c < e * 2 ^ n"
      proof -
        have "q mod e < e" by (simp add: e_def)
        then have "(q mod e + 1) * 2 ^ n \<le> e * 2 ^ n" by (intro mult_le_mono1) simp
        then show ?thesis using c(1) by simp
      qed
      ultimately show ?thesis by (metis mod_less mod_mult_self3)
    qed
    then show ?thesis by (simp add: en c_def)
  qed
  have hi: "hi r < q * 2 ^ n + 2 ^ n" "q * 2 ^ n \<le> hi r" using assms(1,2) p by linarith+
  have a: "w mod 2 ^ 27 + q * 2 ^ n = (q mod e) * 2 ^ n + w" if "q * 2 ^ n \<le> w" "w < q * 2 ^ n + 2 ^ n" for w
    using m [OF that] that(1) by linarith
  have "lo r mod 2 ^ 27 \<le> v mod 2 ^ 27" "v mod 2 ^ 27 \<le> hi r mod 2 ^ 27"
    using a [of "lo r"] a [of v] a [of "hi r"] assms(1,3,4) hi p by linarith+
  then show ?thesis by (simp add: bidx_def div_le_mono)
next
  case False
  then have d: "(2::nat) ^ 27 dvd 2 ^ n" by (intro le_imp_power_dvd) linarith
  then have "lo r mod 2 ^ 27 = 0" using assms(1) by simp
  moreover have "hi r mod 2 ^ 27 = 2 ^ 27 - 1"
  proof -
    have "(2::nat) ^ 27 dvd q * 2 ^ n + 2 ^ n" using d by simp
    then obtain j where j: "q * 2 ^ n + 2 ^ n = j * 2 ^ 27" by (auto elim: dvdE simp: mult.commute)
    have "0 < q * 2 ^ n + 2 ^ n" by simp
    then obtain i where "j = Suc i" using j by (cases j) auto
    then have "hi r = i * 2 ^ 27 + (2 ^ 27 - 1)" using assms(2) j by simp
    then show ?thesis by (simp only: mod_mult_self3) simp
  qed
  moreover have "v mod 2 ^ 27 \<le> 2 ^ 27 - 1" using mod_less_divisor [of "2 ^ 27" v] by simp
  ultimately show ?thesis unfolding bidx_def by (metis div_le_mono le0)
qed

section \<open>The forest as a set of routes\<close>

text \<open>
  \<open>table v4 root T\<close>: the forest \<open>root\<close> represents the set of routes \<open>T\<close>: every bucket
  that a route's range meets holds it.
\<close>

definition table :: "bool \<Rightarrow> (nat \<Rightarrow> rtree) \<Rightarrow> Route set \<Rightarrow> bool" where
  "table v4 root T \<longleftrightarrow> (\<forall>x \<in> T. okr v4 x \<and> prefix x \<and> core x = x) \<and>
     (\<forall>h. wft v4 (root h) \<and> cores (root h) = {x \<in> T. bidx (lo x) \<le> h \<and> h \<le> bidx (hi x)})"

lemma table_lookup:
  assumes "table v4 root T"
  shows "best v T (rwalk (root (bidx v)) v None)"
proof -
  have c: "cores (root (bidx v)) = {x \<in> T. bidx (lo x) \<le> bidx v \<and> bidx v \<le> bidx (hi x)}" and w: "wft v4 (root (bidx v))"
    using assms by (simp_all add: table_def)
  have "x \<in> cores (root (bidx v))" if "x \<in> T" "hits v x" for x
  proof -
    have "prefix x" using assms that(1) by (simp add: table_def)
    then obtain n q where x: "lo x = q * 2 ^ n" "hi x = q * 2 ^ n + 2 ^ n - 1" unfolding prefix_def by blast
    have "lo x \<le> v" "v \<le> hi x" using that(2) by (simp_all add: hits_def)
    then have "bidx (lo x) \<le> bidx v \<and> bidx v \<le> bidx (hi x)" by (rule bidx_mono_in_prefix [OF x])
    then show ?thesis using that(1) c by blast
  qed
  moreover have "cores (root (bidx v)) \<subseteq> T" using c by blast
  moreover have "best v X r \<Longrightarrow> X \<subseteq> Y \<Longrightarrow> (\<And>x. x \<in> Y \<Longrightarrow> hits v x \<Longrightarrow> x \<in> X) \<Longrightarrow> best v Y r" for X Y r
    by (cases r) (auto simp: best_def)
  ultimately show ?thesis using rwalk_best [OF w, of v] by blast
qed

lemma addloop_ok:
  assumes "distinct hs" "\<forall>h \<in> set hs. wft v4 (root h) \<and> (\<forall>x \<in> cores (root h). nested (mk (zeroroute ty)) x)"
    "okr v4 (mk (zeroroute ty))" "rmem k" "t_queue k = []"
  shows "\<exists>root' k'. addloop ty mk hs root k = Some (Inr (root', k')) \<and> rmem k' \<and> t_queue k' = [] \<and>
    (\<forall>h. if h \<in> set hs then wft v4 (root' h) \<and> cores (root' h) = tadd (mk (zeroroute ty)) (cores (root h)) else root' h = root h)"
  using assms
proof (induction hs arbitrary: root k)
  case (Cons h hs)
  let ?i = "mk (zeroroute ty)"
  obtain k1 where al: "allocroute ty k = Inr (zeroroute ty, k1)" "rmem k1" "t_queue k1 = []"
    using allocroute_ok [OF Cons.prems(4), of ty] Cons.prems(5) by auto
  obtain t' k2 where a: "addone (root h) ?i k1 = Some (Inr (t', k2))" "wft v4 t'" "rmem k2" "t_queue k2 = []"
    "cores t' = tadd ?i (cores (root h))"
    using addone_tadd [of v4 "root h" ?i k1] Cons.prems al by auto
  have "\<exists>root' k'. addloop ty mk hs (root(h := t')) k2 = Some (Inr (root', k')) \<and> rmem k' \<and> t_queue k' = [] \<and>
    (\<forall>g. if g \<in> set hs then wft v4 (root' g) \<and> cores (root' g) = tadd ?i (cores ((root(h := t')) g)) else root' g = (root(h := t')) g)"
    by (rule Cons.IH) (use Cons.prems a in auto)
  then show ?case using Cons.prems(1) al a by (auto split: if_splits)
qed simp

lemma delloop_ok:
  assumes "distinct hs" "\<forall>h \<in> set hs. wft v4 (root h) \<and> (\<forall>x \<in> cores (root h). nested rt x)"
    "okr v4 rt" "rmem k" "t_queue k = []"
  shows "\<exists>root' k'. delloop rt hs root k = Some (Inr (root', k')) \<and> rmem k' \<and> t_queue k' = [] \<and>
    (\<forall>h. if h \<in> set hs then wft v4 (root' h) \<and> cores (root' h) = tdel rt (cores (root h)) else root' h = root h)"
  using assms
proof (induction hs arbitrary: root k)
  case (Cons h hs)
  obtain t' k2 where a: "delone (root h) rt k = Some (Inr (t', k2))" "wft v4 t'" "rmem k2" "t_queue k2 = []"
    "cores t' = tdel rt (cores (root h))"
    using delone_tdel [of v4 "root h" rt k] Cons.prems by auto
  have "\<exists>root' k'. delloop rt hs (root(h := t')) k2 = Some (Inr (root', k')) \<and> rmem k' \<and> t_queue k' = [] \<and>
    (\<forall>g. if g \<in> set hs then wft v4 (root' g) \<and> cores (root' g) = tdel rt (cores ((root(h := t')) g)) else root' g = (root(h := t')) g)"
    by (rule Cons.IH) (use Cons.prems a in auto)
  then show ?case using Cons.prems(1) a by (auto split: if_splits)
qed simp

section \<open>Adding, removing and looking up in a forest\<close>

lemma sameas_bidx: "sameas a b \<Longrightarrow> bidx (lo a) = bidx (lo b) \<and> bidx (hi a) = bidx (hi b)"
  by (simp add: sameas_def)

lemma tadd_range:
  assumes "P (core i) \<longleftrightarrow> True" "\<And>a b. sameas a b \<Longrightarrow> P a = P b" "\<forall>x \<in> T. okr v4 x" "okr v4 i"
  shows "tadd i {x \<in> T. P x} = {x \<in> tadd i T. P x}"
proof -
  have P: "P p" if "sameas i p" for p using assms(1,2) that by (metis rel_core(5) sameas_def)
  have P': "P (core (supersede p i))" if "p \<in> T" "sameas i p" for p
    using assms(2) [of p "core (supersede p i)"] P [OF that(2)] okr_supersede assms(3,4) that by (auto simp: sameas_def)
  show ?thesis unfolding tadd_def using P P' assms(1) by auto
qed

lemma table_add:
  assumes "table v4 root T" "okr v4 i" "prefix i" "i = mk (zeroroute ty)" "rmem k" "t_queue k = []"
  shows "\<exists>root' k'. addloop ty mk [bidx (lo i)..<Suc (bidx (hi i))] root k = Some (Inr (root', k')) \<and> rmem k' \<and> t_queue k' = [] \<and>
    table v4 root' (tadd i T)"
proof -
  let ?hs = "[bidx (lo i)..<Suc (bidx (hi i))]"
  have T: "\<forall>x \<in> T. okr v4 x \<and> prefix x \<and> core x = x"
    and root: "\<And>h. wft v4 (root h)" "\<And>h. cores (root h) = {x \<in> T. bidx (lo x) \<le> h \<and> h \<le> bidx (hi x)}"
    using assms(1) by (simp_all add: table_def)
  have n: "\<forall>x \<in> cores (root h). nested i x" for h using T root(2) prefix_nested [OF assms(3)] by auto
  obtain root' k' where r: "addloop ty mk ?hs root k = Some (Inr (root', k'))" "rmem k'" "t_queue k' = []"
    "\<forall>h. if h \<in> set ?hs then wft v4 (root' h) \<and> cores (root' h) = tadd i (cores (root h)) else root' h = root h"
    using addloop_ok [OF distinct_upt, of _ _ v4 root mk ty k] n root(1) assms(2,4-6) by blast
  have c: "cores (root' h) = {x \<in> tadd i T. bidx (lo x) \<le> h \<and> h \<le> bidx (hi x)}" for h
  proof (cases "h \<in> set ?hs")
    case True
    then have "cores (root' h) = tadd i (cores (root h))" using r(4) by auto
    also have "\<dots> = tadd i {x \<in> T. bidx (lo x) \<le> h \<and> h \<le> bidx (hi x)}" by (simp add: root(2))
    also have "\<dots> = {x \<in> tadd i T. bidx (lo x) \<le> h \<and> h \<le> bidx (hi x)}"
      using True T assms(2) sameas_bidx by (intro tadd_range [where ?v4.0 = v4]) auto
    finally show ?thesis .
  next
    case False
    have ok: "okr v4 p" if "p \<in> T" for p using T that by blast
    have out: "\<not> (bidx (lo x) \<le> h \<and> h \<le> bidx (hi x))" if "sameas i x" for x
      using False sameas_bidx [OF that] by auto
    have "\<not> (bidx (lo (core (supersede p i))) \<le> h \<and> h \<le> bidx (hi (core (supersede p i))))" if "p \<in> T" "sameas i p" for p
      using out [OF that(2)] okr_supersede [OF ok [OF that(1)] assms(2)] by simp
    moreover have "\<not> (bidx (lo (core i)) \<le> h \<and> h \<le> bidx (hi (core i)))" using False by auto
    ultimately have "{x \<in> tadd i T. bidx (lo x) \<le> h \<and> h \<le> bidx (hi x)} = {x \<in> T. bidx (lo x) \<le> h \<and> h \<le> bidx (hi x)}"
      using out unfolding tadd_def by (auto split: if_splits)
    then show ?thesis using False r(4) root(2) by simp
  qed
  have "wft v4 (root' h)" for h using r(4) root(1) by (metis (mono_tags))
  moreover have "okr v4 x \<and> prefix x \<and> core x = x" if "x \<in> tadd i T" for x
  proof -
    have "okr v4 (core (supersede p i)) \<and> prefix (core (supersede p i))" if "p \<in> T" for p
      using T that okr_supersede [OF _ assms(2), of p] by (auto simp: prefix_def)
    moreover have "prefix (core i)" using assms(3) by (simp add: prefix_def)
    ultimately show ?thesis using that T assms(2) unfolding tadd_def by (auto split: if_splits)
  qed
  ultimately have "table v4 root' (tadd i T)" using c unfolding table_def by blast
  then show ?thesis using r(1-3) by blast
qed

lemma table_del:
  assumes "table v4 root T" "okr v4 rt" "prefix rt" "rmem k" "t_queue k = []"
  shows "\<exists>root' k'. delloop rt [bidx (lo rt)..<Suc (bidx (hi rt))] root k = Some (Inr (root', k')) \<and> rmem k' \<and> t_queue k' = [] \<and>
    table v4 root' (tdel rt T)"
proof -
  let ?hs = "[bidx (lo rt)..<Suc (bidx (hi rt))]"
  have T: "\<forall>x \<in> T. okr v4 x \<and> prefix x \<and> core x = x"
    and root: "\<And>h. wft v4 (root h)" "\<And>h. cores (root h) = {x \<in> T. bidx (lo x) \<le> h \<and> h \<le> bidx (hi x)}"
    using assms(1) by (simp_all add: table_def)
  have n: "\<forall>x \<in> cores (root h). nested rt x" for h using T root(2) prefix_nested [OF assms(3)] by auto
  obtain root' k' where r: "delloop rt ?hs root k = Some (Inr (root', k'))" "rmem k'" "t_queue k' = []"
    "\<forall>h. if h \<in> set ?hs then wft v4 (root' h) \<and> cores (root' h) = tdel rt (cores (root h)) else root' h = root h"
    using delloop_ok [OF distinct_upt, of _ _ v4 root rt k] n root(1) assms(2,4,5) by blast
  have ref: "lo (p\<lparr>rt_ref := c\<rparr>) = lo p" "hi (p\<lparr>rt_ref := c\<rparr>) = hi p" "okr v4 (p\<lparr>rt_ref := c\<rparr>) = okr v4 p"
    "prefix (p\<lparr>rt_ref := c\<rparr>) = prefix p" for p c
    by (simp_all add: lo_def hi_def okr_def prefix_def)
  have c: "cores (root' h) = {x \<in> tdel rt T. bidx (lo x) \<le> h \<and> h \<le> bidx (hi x)}" for h
  proof (cases "h \<in> set ?hs")
    case True
    have "bidx (lo x) \<le> h \<and> h \<le> bidx (hi x)" if "sameas rt x" for x using True sameas_bidx [OF that] by auto
    then show ?thesis using True r(4) root(2) unfolding tdel_def by (auto simp: ref)
  next
    case False
    have "\<not> (bidx (lo x) \<le> h \<and> h \<le> bidx (hi x))" if "sameas rt x" for x
      using False sameas_bidx [OF that] by auto
    then have "{x \<in> tdel rt T. bidx (lo x) \<le> h \<and> h \<le> bidx (hi x)} = {x \<in> T. bidx (lo x) \<le> h \<and> h \<le> bidx (hi x)}"
      unfolding tdel_def by (auto simp: ref)
    then show ?thesis using False r(4) root(2) by simp
  qed
  have "wft v4 (root' h)" for h using r(4) root(1) by (metis (mono_tags))
  moreover have "okr v4 x \<and> prefix x \<and> core x = x" if "x \<in> tdel rt T" for x
  proof -
    have "core (p\<lparr>rt_ref := c\<rparr>) = p\<lparr>rt_ref := c\<rparr>" if "core p = p" for p c
    proof -
      have "core (p\<lparr>rt_ref := c\<rparr>) = (core p)\<lparr>rt_ref := c\<rparr>" by (simp add: core_def)
      then show ?thesis using that by simp
    qed
    then show ?thesis using that T unfolding tdel_def by (auto simp: ref)
  qed
  ultimately have "table v4 root' (tdel rt T)" using c unfolding table_def by blast
  then show ?thesis using r(1-3) by blast
qed

end
