(* ===== verification/Forest.thy ===== *)
theory Forest
  imports Route_Table
begin

text \<open>
  The route commands at the level of addresses and masks (\<^verbatim>\<open>v4addroute\<close>, \<^verbatim>\<open>v6addroute\<close>,
  \<^verbatim>\<open>v4delroute\<close>, \<^verbatim>\<open>v6delroute\<close>, \<^verbatim>\<open>v4lookup\<close>, \<^verbatim>\<open>v6lookup\<close>). A routing table with
  its two commands and its lookup is stated once, as the locale \<open>route_table\<close>, and both address
  families implement it.
\<close>

section \<open>Prefix masks\<close>

lemma unat_and_not_mask: "unat (a AND NOT (mask n) :: ulong) = unat a div 2 ^ n * 2 ^ n"
proof -
  have "a = (a AND NOT (mask n)) + (a AND mask n)"
    by (subst disjunctive_add) (auto simp: bit_simps intro!: bit_word_eqI)
  then have e: "a AND NOT (mask n) = a - take_bit n a" by (metis add_diff_cancel_right' take_bit_eq_mask)
  have "unat (take_bit n a) = take_bit n (unat a)" by (rule unsigned_take_bit_eq)
  then have t: "unat (take_bit n a) = unat a mod 2 ^ n" by (simp only: take_bit_eq_mod)
  then have "take_bit n a \<le> a" by (simp add: word_le_nat_alt)
  then have "unat (a - take_bit n a) = unat a - unat a mod 2 ^ n" using t by (simp add: unat_sub)
  then show ?thesis by (simp add: e minus_mod_eq_div_mult)
qed

lemma block_bound:
  fixes x :: nat
  assumes "x < 2 ^ N" "n \<le> N"
  shows "x div 2 ^ n * 2 ^ n + 2 ^ n \<le> 2 ^ N"
proof -
  have "x div 2 ^ n < 2 ^ (N - n)"
    using assms by (simp add: div_less_iff_less_mult power_add [symmetric])
  then have "(x div 2 ^ n + 1) * 2 ^ n \<le> 2 ^ (N - n) * 2 ^ n" by (intro mult_le_mono1) simp
  then show ?thesis using assms(2) by (simp add: power_add [symmetric])
qed

lemma unat_less: "unat (a::ulong) < 2 ^ 32"
  using unsigned_less [where ?'a = nat, of a] by simp

lemma unat_or_mask:
  assumes "n \<le> 32"
  shows "unat (a OR mask n :: ulong) = unat a div 2 ^ n * 2 ^ n + 2 ^ n - 1"
proof -
  have "a OR mask n = (a AND NOT (mask n)) OR mask n" by (auto simp: bit_simps intro!: bit_word_eqI)
  also have "\<dots> = (a AND NOT (mask n)) + mask n"
    by (subst disjunctive_add) (auto simp: bit_simps)
  finally have e: "a OR mask n = (a AND NOT (mask n)) + mask n" .
  have m: "unat (mask n :: ulong) = 2 ^ n - 1"
    using assms arg_cong [OF uint_mask_eq [where ?'a = 32, of n], of nat]
    by (simp add: nat_mask_eq min_def) (simp add: mask_eq_exp_minus_1)
  have b: "unat a div 2 ^ n * 2 ^ n + (2 ^ n - 1) < 2 ^ 32"
    using block_bound [OF unat_less assms, of a] by (simp add: Suc_le_eq [symmetric])
  show ?thesis
    unfolding e unat_word_ariths(1) m unat_and_not_mask using b by simp
qed

text \<open>The words of a mask that leaves the last \<open>n\<close> bits of an address of \<open>L\<close> words open.\<close>

fun pmask :: "nat \<Rightarrow> nat \<Rightarrow> ulong list" where
  "pmask n 0 = []"
| "pmask n (Suc L) = NOT (mask (min 32 (n - 32 * L))) # pmask (min n (32 * L)) L"

lemma length_pmask [simp]: "length (pmask n L) = L"
  by (induction L arbitrary: n) simp_all

lemma div_block_high:
  fixes w v :: nat
  assumes "v < 2 ^ l" "n = l + k"
  shows "(w * 2 ^ l + v) div 2 ^ n * 2 ^ n = w div 2 ^ k * 2 ^ k * 2 ^ l"
proof -
  have "(w * 2 ^ l + v) div 2 ^ n = (w * 2 ^ l + v) div 2 ^ l div 2 ^ k"
    by (simp add: assms(2) power_add div_mult2_eq)
  also have "(w * 2 ^ l + v) div 2 ^ l = w" using assms(1) by simp
  finally show ?thesis by (simp add: assms(2) power_add)
qed

lemma div_block_low:
  fixes w v :: nat
  assumes "n \<le> l"
  shows "(w * 2 ^ l + v) div 2 ^ n * 2 ^ n = w * 2 ^ l + v div 2 ^ n * 2 ^ n"
proof -
  have e: "w * 2 ^ l = (w * 2 ^ (l - n)) * 2 ^ n" using assms by (simp add: power_add [symmetric])
  have "(w * 2 ^ l + v) div 2 ^ n = w * 2 ^ (l - n) + v div 2 ^ n" unfolding e by simp
  then show ?thesis unfolding e by (simp add: add_mult_distrib)
qed

lemma val6_start:
  assumes "n \<le> 32 * length ws"
  shows "val6 (map2 (AND) ws (pmask n (length ws))) = val6 ws div 2 ^ n * 2 ^ n"
  using assms
proof (induction ws arbitrary: n)
  case (Cons w ws)
  let ?l = "32 * length ws"
  have IH: "val6 (map2 (AND) ws (pmask (min n ?l) (length ws))) = val6 ws div 2 ^ min n ?l * 2 ^ min n ?l"
    by (rule Cons.IH) simp
  show ?case
  proof (cases "n \<le> ?l")
    case True
    then show ?thesis using IH by (simp add: div_block_low)
  next
    case False
    then obtain k where k: "n = ?l + k" "k \<le> 32" using Cons.prems that [of "n - 32 * length ws"] by simp
    have "val6 ws div 2 ^ ?l = 0" using val6_bound [of ws] by simp
    then show ?thesis
      using IH k False div_block_high [OF val6_bound k(1), of "unat w"] by (simp add: unat_and_not_mask min_def)
  qed
qed simp

lemma block_last:
  fixes a c x :: nat
  assumes "0 < c" "0 < x"
  shows "(a + c - 1) * x + (x - 1) = a * x + c * x - 1"
proof -
  obtain c' x' where "c = Suc c'" "x = Suc x'" using assms by (metis gr0_implies_Suc)
  then show ?thesis by (simp add: add_mult_distrib)
qed

lemma val6_end:
  assumes "n \<le> 32 * length ws"
  shows "val6 (map2 (\<lambda>x y. x OR NOT y) ws (pmask n (length ws))) = val6 ws div 2 ^ n * 2 ^ n + 2 ^ n - 1"
  using assms
proof (induction ws arbitrary: n)
  case (Cons w ws)
  let ?l = "32 * length ws"
  have IH: "val6 (map2 (\<lambda>x y. x OR NOT y) ws (pmask (min n ?l) (length ws))) =
      val6 ws div 2 ^ min n ?l * 2 ^ min n ?l + 2 ^ min n ?l - 1"
    by (rule Cons.IH) simp
  show ?case
  proof (cases "n \<le> ?l")
    case True
    have a: "x + (y + 2 ^ n - 1) = x + y + 2 ^ n - (1::nat)" for x y
    proof -
      have "1 \<le> (2::nat) ^ n" by simp
      then show ?thesis by linarith
    qed
    show ?thesis using True IH a by (simp add: div_block_low)
  next
    case False
    then obtain k where k: "n = ?l + k" "k \<le> 32" using Cons.prems that [of "n - 32 * length ws"] by simp
    let ?q = "unat w div 2 ^ k"
    have z: "val6 ws div 2 ^ ?l = 0" using val6_bound [of ws] by simp
    have "(?q * 2 ^ k + 2 ^ k - 1) * 2 ^ ?l + (2 ^ ?l - 1) = ?q * 2 ^ k * 2 ^ ?l + 2 ^ k * 2 ^ ?l - (1::nat)"
      by (rule block_last) simp_all
    then show ?thesis
      using IH k False z div_block_high [OF val6_bound k(1), of "unat w"]
      by (simp add: unat_or_mask min_def power_add ac_simps)
  qed
qed simp


section \<open>The ranges of routes\<close>

text \<open>The nodes that \<^verbatim>\<open>v4addroute\<close> and \<^verbatim>\<open>v6addroute\<close> build, and the ranges the removals look for.\<close>

definition r4 :: "string \<Rightarrow> byte list \<Rightarrow> byte list \<Rightarrow> byte list \<Rightarrow> byte \<Rightarrow> Route" where
  "r4 tag a msk gate ty = v4fill tag (nhgetl a AND nhgetl msk) (nhgetl a AND nhgetl msk OR NOT (nhgetl msk)) gate (zeroroute (setf Rv4 ty))"

definition r6 :: "string \<Rightarrow> byte list \<Rightarrow> byte list \<Rightarrow> byte list \<Rightarrow> byte \<Rightarrow> Route" where
  "r6 tag a msk gate ty = v6fill tag (v6start a msk) (v6end a msk) gate (zeroroute ty)"

definition v4mask :: "byte list \<Rightarrow> bool" where
  "v4mask msk \<longleftrightarrow> length msk = 4 \<and> (\<exists>n \<le> 32. nhgetl msk = NOT (mask n))"

definition v6mask :: "byte list \<Rightarrow> bool" where
  "v6mask msk \<longleftrightarrow> length msk = 16 \<and> (\<exists>n \<le> 128. v6words msk = pmask n IPllen)"

lemma range_ok:
  assumes "tst (rt_type r) Rv4 = v4" "lo r = q * 2 ^ n" "hi r = q * 2 ^ n + 2 ^ n - 1"
    "\<not> v4 \<Longrightarrow> length (rt_a6 r) = IPllen \<and> length (rt_e6 r) = IPllen"
  shows "okr v4 r" "prefix r"
proof -
  have "1 \<le> (2::nat) ^ n" by simp
  then have "lo r \<le> hi r" using assms(2,3) by linarith
  then show "okr v4 r" using assms(1,4) by (simp add: okr_def)
  show "prefix r" using assms(2,3) by (auto simp: prefix_def)
qed

lemma v4range:
  assumes "v4mask msk" "tst (rt_type r) Rv4" "rt_a4 r = nhgetl a AND nhgetl msk" "rt_e4 r = nhgetl a AND nhgetl msk OR NOT (nhgetl msk)"
  shows "okr True r" "prefix r"
proof -
  obtain n where n: "n \<le> 32" "nhgetl msk = NOT (mask n)" using assms(1) by (auto simp: v4mask_def)
  let ?q = "unat (nhgetl a) div 2 ^ n"
  have "lo r = ?q * 2 ^ n" using assms n by (simp add: lo_def unat_and_not_mask)
  moreover have "hi r = ?q * 2 ^ n + 2 ^ n - 1"
    using assms n by (simp add: hi_def unat_or_mask [OF n(1)] unat_and_not_mask)
  ultimately show "okr True r" "prefix r" using assms(2) range_ok [of r True ?q n] by simp_all
qed

lemma length_v6 [simp]: "length (v6words a) = IPllen" "length (v6start a msk) = IPllen" "length (v6end a msk) = IPllen"
  by (simp_all add: v6words_def v6start_def v6end_def)

lemma v6range:
  assumes "v6mask msk" "\<not> tst (rt_type r) Rv4" "rt_a6 r = v6start a msk" "rt_e6 r = v6end a msk"
  shows "okr False r" "prefix r"
proof -
  obtain n where n: "n \<le> 128" "v6words msk = pmask n IPllen" using assms(1) by (auto simp: v6mask_def)
  let ?w = "v6words a" and ?q = "val6 (v6words a) div 2 ^ n"
  have l: "n \<le> 32 * length ?w" using n(1) by (simp add: IPllen_def)
  have "lo r = ?q * 2 ^ n" using assms n(2) val6_start [OF l] by (simp add: lo_def v6start_def)
  moreover have "hi r = ?q * 2 ^ n + 2 ^ n - 1" using assms n(2) val6_end [OF l] by (simp add: hi_def v6end_def)
  ultimately show "okr False r" "prefix r" using assms(2-4) range_ok [of r False ?q n] by simp_all
qed

lemma tst_Rv4 [simp]: "tst Rv4 Rv4" "\<not> tst 0 f"
  by (simp_all add: tst_def Rv4_def)

text \<open>
  A route that no interface owns is never shared: its reference count is one.
\<close>

definition solo :: "Route set \<Rightarrow> bool" where
  "solo T \<longleftrightarrow> (\<forall>x \<in> T. \<not> tst (rt_type x) Rifc \<longrightarrow> rt_ref x = 1)"

lemma core_fields [simp]: "rt_type (core x) = rt_type x" "rt_ref (core x) = rt_ref x" "rt_tag (core x) = rt_tag x"
  "rt_a4 (core x) = rt_a4 x" "rt_e4 (core x) = rt_e4 x" "rt_a6 (core x) = rt_a6 x" "rt_e6 (core x) = rt_e6 x"
  by (simp_all add: core_def)

lemma solo_tadd: "solo T \<Longrightarrow> rt_ref i = 1 \<Longrightarrow> solo (tadd i T)"
  by (auto simp: solo_def tadd_def supersede_def copygate_def)

lemma solo_tdel: "solo T \<Longrightarrow> solo (tdel rt T)"
  by (auto simp: solo_def tdel_def)

section \<open>The table contract\<close>

text \<open>
  Commands on a routing table and their meaning on a set of routes; \<open>mkr\<close> builds the route of a
  command.
\<close>

datatype cmd = AddR string "byte list" "byte list" "byte list" byte | DelR "byte list" "byte list"

fun runcmd :: "(Fs \<Rightarrow> string \<Rightarrow> byte list \<Rightarrow> byte list \<Rightarrow> byte list \<Rightarrow> byte \<Rightarrow> fsres) \<Rightarrow> (Fs \<Rightarrow> byte list \<Rightarrow> byte list \<Rightarrow> fsres) \<Rightarrow>
    cmd \<Rightarrow> Fs \<Rightarrow> fsres" where
  "runcmd add del (AddR tag a msk gate ty) f = add f tag a msk gate ty"
| "runcmd add del (DelR a msk) f = del f a msk"

fun runcmds :: "(Fs \<Rightarrow> string \<Rightarrow> byte list \<Rightarrow> byte list \<Rightarrow> byte list \<Rightarrow> byte \<Rightarrow> fsres) \<Rightarrow> (Fs \<Rightarrow> byte list \<Rightarrow> byte list \<Rightarrow> fsres) \<Rightarrow>
    cmd list \<Rightarrow> Fs \<Rightarrow> fsres" where
  "runcmds add del [] f = Some (Inr f)"
| "runcmds add del (c # cs) f = (case runcmd add del c f of
       Some (Inr f) \<Rightarrow> runcmds add del cs f | e \<Rightarrow> e)"

fun speccmd :: "(string \<Rightarrow> byte list \<Rightarrow> byte list \<Rightarrow> byte list \<Rightarrow> byte \<Rightarrow> Route) \<Rightarrow> byte \<Rightarrow> cmd \<Rightarrow> Route set \<Rightarrow> Route set" where
  "speccmd mkr ty0 (AddR tag a msk gate ty) T = tadd (mkr tag a msk gate ty) T"
| "speccmd mkr ty0 (DelR a msk) T = tdel (mkr [] a msk [] ty0) T"

fun okcmd :: "nat \<Rightarrow> (byte list \<Rightarrow> bool) \<Rightarrow> (byte \<Rightarrow> bool) \<Rightarrow> cmd \<Rightarrow> bool" where
  "okcmd n okm okt (AddR tag a msk gate ty) \<longleftrightarrow> length a = n \<and> length gate = n \<and> okm msk \<and> okt ty"
| "okcmd n okm okt (DelR a msk) \<longleftrightarrow> length a = n \<and> okm msk"

locale route_table =
  fixes rel :: "Fs \<Rightarrow> Route set \<Rightarrow> bool"
    and add :: "Fs \<Rightarrow> string \<Rightarrow> byte list \<Rightarrow> byte list \<Rightarrow> byte list \<Rightarrow> byte \<Rightarrow> fsres"
    and del :: "Fs \<Rightarrow> byte list \<Rightarrow> byte list \<Rightarrow> fsres"
    and find :: "Fs \<Rightarrow> byte list \<Rightarrow> Route option"
    and val :: "byte list \<Rightarrow> nat"
    and mkr :: "string \<Rightarrow> byte list \<Rightarrow> byte list \<Rightarrow> byte list \<Rightarrow> byte \<Rightarrow> Route"
    and ty0 :: byte
    and n :: nat
    and okm :: "byte list \<Rightarrow> bool"
    and okt :: "byte \<Rightarrow> bool"
  assumes add_ok: "rel f T \<Longrightarrow> okm msk \<Longrightarrow> okt ty \<Longrightarrow> \<exists>f'. add f tag a msk gate ty = Some (Inr f') \<and> rel f' (tadd (mkr tag a msk gate ty) T)"
    and del_ok: "rel f T \<Longrightarrow> okm msk \<Longrightarrow> \<exists>f'. del f a msk = Some (Inr f') \<and> rel f' (tdel (mkr [] a msk [] ty0) T)"
    and find_ok: "rel f T \<Longrightarrow> best (val a) T (find f a)"
begin

lemma cmd_ok:
  assumes "rel f T" "okcmd n okm okt c"
  shows "\<exists>f'. runcmd add del c f = Some (Inr f') \<and> rel f' (speccmd mkr ty0 c T)"
  using assms add_ok del_ok by (cases c) auto

lemma cmds_ok:
  assumes "rel f T" "\<forall>c \<in> set cs. okcmd n okm okt c"
  shows "\<exists>f'. runcmds add del cs f = Some (Inr f') \<and> rel f' (fold (speccmd mkr ty0) cs T) \<and>
    (\<forall>a. best (val a) (fold (speccmd mkr ty0) cs T) (find f' a))"
  using assms
proof (induction cs arbitrary: f T)
  case (Cons c cs)
  then obtain f' where "runcmd add del c f = Some (Inr f')" "rel f' (speccmd mkr ty0 c T)" using cmd_ok by force
  then show ?case using Cons by auto
qed (auto intro: find_ok)

end

definition rel4 :: "Fs \<Rightarrow> Route set \<Rightarrow> bool" where
  "rel4 f T \<longleftrightarrow> table True (f_v4root f) T \<and> rmem (f_tab f) \<and> t_queue (f_tab f) = [] \<and> solo T"

definition rel6 :: "Fs \<Rightarrow> Route set \<Rightarrow> bool" where
  "rel6 f T \<longleftrightarrow> table False (f_v6root f) T \<and> rmem (f_tab f) \<and> t_queue (f_tab f) = [] \<and> solo T"

lemma v4addroute_ok:
  assumes "rel4 f T" "v4mask msk"
  shows "\<exists>f'. v4addroute f tag a msk gate ty = Some (Inr f') \<and> rel4 f' (tadd (r4 tag a msk gate ty) T) \<and>
    f_v6root f' = f_v6root f \<and> f_v4gen f' = f_v4gen f + 1"
proof -
  let ?i = "r4 tag a msk gate ty"
  have f: "rt_ref ?i = 1" "rt_type ?i = setf Rv4 ty" "rt_a4 ?i = nhgetl a AND nhgetl msk" "rt_e4 ?i = nhgetl a AND nhgetl msk OR NOT (nhgetl msk)"
    by (simp_all add: r4_def v4fill_def zeroroute_def)
  have ok: "okr True ?i" "prefix ?i" by (rule v4range [OF assms(2)]; simp add: f)+
  have h: "V4H (rt_a4 ?i) = bidx (lo ?i)" "V4H (rt_e4 ?i) = bidx (hi ?i)" using f(2) by (simp_all add: V4H_bidx lo_def hi_def)
  from table_add [OF _ ok, of "f_v4root f" T "v4fill tag (nhgetl a AND nhgetl msk) (nhgetl a AND nhgetl msk OR NOT (nhgetl msk)) gate" "setf Rv4 ty" "f_tab f"] assms(1)
  show ?thesis using h by (auto simp: rel4_def v4addroute_def Let_def f r4_def [symmetric] solo_tadd)
qed

lemma v6addroute_ok:
  assumes "rel6 f T" "v6mask msk" "\<not> tst ty Rv4"
  shows "\<exists>f'. v6addroute f tag a msk gate ty = Some (Inr f') \<and> rel6 f' (tadd (r6 tag a msk gate ty) T) \<and>
    f_v4root f' = f_v4root f \<and> f_v6gen f' = f_v6gen f + 1"
proof -
  let ?i = "r6 tag a msk gate ty"
  have f: "rt_ref ?i = 1" "rt_type ?i = ty" "rt_a6 ?i = v6start a msk" "rt_e6 ?i = v6end a msk"
    by (simp_all add: r6_def v6fill_def zeroroute_def)
  have ok: "okr False ?i" "prefix ?i" by (rule v6range [OF assms(2)]; simp add: f assms(3))+
  have h: "V6H (rt_a6 ?i) = bidx (lo ?i)" "V6H (rt_e6 ?i) = bidx (hi ?i)" using f assms(3) by (simp_all add: V6H_bidx lo_def hi_def)
  from table_add [OF _ ok, of "f_v6root f" T "v6fill tag (v6start a msk) (v6end a msk) gate" ty "f_tab f"] assms(1)
  show ?thesis using h by (auto simp: rel6_def v6addroute_def Let_def f r6_def [symmetric] solo_tadd)
qed

lemma v4delroute_ok:
  assumes "rel4 f T" "v4mask msk"
  shows "\<exists>f'. v4delroute f a msk = Some (Inr f') \<and> rel4 f' (tdel (r4 [] a msk [] 0) T) \<and>
    f_v6root f' = f_v6root f \<and> f_v4gen f' = f_v4gen f + 1"
proof -
  let ?i = "(zeroroute Rv4)\<lparr>rt_a4 := nhgetl a AND nhgetl msk, rt_e4 := nhgetl a AND nhgetl msk OR NOT (nhgetl msk)\<rparr>"
  have f: "rt_type ?i = Rv4" "tst Rv4 Rv4" by (simp_all add: zeroroute_def tst_def Rv4_def)
  have ok: "okr True ?i" "prefix ?i" by (rule v4range [OF assms(2)]; simp add: zeroroute_def f(2))+
  have h: "V4H (rt_a4 ?i) = bidx (lo ?i)" "V4H (rt_e4 ?i) = bidx (hi ?i)" using f by (simp_all add: V4H_bidx lo_def hi_def)
  have "lo (r4 [] a msk [] 0) = lo ?i" "hi (r4 [] a msk [] 0) = hi ?i"
    using f by (simp_all add: r4_def v4fill_def lo_def hi_def zeroroute_def)
  then have "tdel (r4 [] a msk [] 0) T = tdel ?i T" by (simp add: tdel_def sameas_def)
  then show ?thesis using h assms(1) table_del [OF _ ok, of "f_v4root f" T "f_tab f"] by (auto simp: rel4_def v4delroute_def Let_def solo_tdel)
qed

lemma v6delroute_ok:
  assumes "rel6 f T" "v6mask msk"
  shows "\<exists>f'. v6delroute f a msk = Some (Inr f') \<and> rel6 f' (tdel (r6 [] a msk [] 0) T) \<and>
    f_v4root f' = f_v4root f \<and> f_v6gen f' = f_v6gen f + 1"
proof -
  let ?i = "(zeroroute 0)\<lparr>rt_a6 := v6start a msk, rt_e6 := v6end a msk\<rparr>"
  have f: "rt_type ?i = 0" "\<not> tst 0 Rv4" by (simp_all add: zeroroute_def tst_def Rv4_def)
  have ok: "okr False ?i" "prefix ?i" by (rule v6range [OF assms(2)]; simp add: zeroroute_def f(2))+
  have h: "V6H (rt_a6 ?i) = bidx (lo ?i)" "V6H (rt_e6 ?i) = bidx (hi ?i)" using f by (simp_all add: V6H_bidx lo_def hi_def)
  have "lo (r6 [] a msk [] 0) = lo ?i" "hi (r6 [] a msk [] 0) = hi ?i"
    using f by (simp_all add: r6_def v6fill_def lo_def hi_def zeroroute_def)
  then have "tdel (r6 [] a msk [] 0) T = tdel ?i T" by (simp add: tdel_def sameas_def)
  then show ?thesis using h assms(1) table_del [OF _ ok, of "f_v6root f" T "f_tab f"] by (auto simp: rel6_def v6delroute_def Let_def solo_tdel)
qed

definition find4 :: "Fs \<Rightarrow> byte list \<Rightarrow> Route option" where
  "find4 f a = v4walk (f_v4root f (V4H (nhgetl a))) (nhgetl a) None"

definition find6 :: "Fs \<Rightarrow> byte list \<Rightarrow> Route option" where
  "find6 f a = v6walk (f_v6root f (V6H (v6words a))) (v6words a) None"

lemma find4_ok: "rel4 f T \<Longrightarrow> best (unat (nhgetl a)) T (find4 f a)"
  using table_lookup [of True "f_v4root f" T "unat (nhgetl a)"]
  by (simp add: rel4_def find4_def v4walk_rwalk V4H_bidx table_def)

lemma find6_ok: "rel6 f T \<Longrightarrow> best (val6 (v6words a)) T (find6 f a)"
  using table_lookup [of False "f_v6root f" T "val6 (v6words a)"]
  by (simp add: rel6_def find6_def v6walk_rwalk V6H_bidx table_def)

interpretation ip4: route_table rel4 v4addroute v4delroute find4 "\<lambda>a. unat (nhgetl a)" r4 0 4 v4mask "\<lambda>_. True"
  by unfold_locales (use v4addroute_ok v4delroute_ok find4_ok in blast)+

interpretation ip6: route_table rel6 v6addroute v6delroute find6 "\<lambda>a. val6 (v6words a)" r6 0 16 v6mask "\<lambda>ty. \<not> tst ty Rv4"
  by unfold_locales (use v6addroute_ok v6delroute_ok find6_ok in blast)+

end
