(* ===== verification/Flush.thy ===== *)
theory Flush
  imports Forest
begin

text \<open>
  Lookup through the caches of conversations and nodes, the printed form of a route, and the
  commands written to the route file (\<^verbatim>\<open>routewrite\<close>, \<^verbatim>\<open>routeflush\<close>, \<^verbatim>\<open>delroute\<close>).
\<close>

section \<open>Lookup with the caches\<close>

text \<open>
  \<open>coherent gen v T c\<close>: the route remembered by the conversation \<open>c\<close>, when it is still
  valid at the generation \<open>gen\<close>, is the route of its destination \<open>v\<close>.
\<close>

definition coherent :: "ulong \<Rightarrow> nat \<Rightarrow> Route set \<Rightarrow> Conv option \<Rightarrow> bool" where
  "coherent gen v T c \<longleftrightarrow> (case cached gen c of None \<Rightarrow> True | Some r \<Rightarrow> best v T (Some r))"

lemma best_core: "core p = core q \<Longrightarrow> best v T (Some p) = best v T (Some q)"
proof -
  assume c: "core p = core q"
  have "lo p = lo q" "hi p = hi q" using core_simps(1,2) c by metis+
  then show ?thesis by (simp add: best_def hits_def within_def sameas_def c)
qed

lemma coherent_keep:
  "best v T q \<Longrightarrow> coherent gen v T (map_option (\<lambda>cv. cv\<lparr>c_r := q, c_rgen := gen\<rparr>) c)"
  by (auto simp: coherent_def cached_def split: option.splits)

lemma v6upd_keeps:
  assumes "\<And>r. core (g r) = core r"
  shows "cores (v6upd t la g) = cores t" "wft v4 (v6upd t la g) = wft v4 t"
proof -
  have g: "lo (g r) = lo r" "hi (g r) = hi r" "okr v4 (g r) = okr v4 r" for r
    using core_simps(1-3) assms by metis+
  have rel: "before (g a) b = before a b" "before a (g b) = before a b" "within a (g b) = within a b" for a b
    by (simp_all add: before_def within_def sameas_def g)
  show c: "cores (v6upd t la g) = cores t" for t by (induction t) (auto simp: assms)
  show "wft v4 (v6upd t la g) = wft v4 t" by (induction t) (auto simp: c g rel)
qed

lemma core_ifc: "core (r\<lparr>rt_ifc := i, rt_ifcid := d\<rparr>) = core r"
  by (simp add: core_def)

lemma table_upd:
  assumes "table v4 root T" "cores t = cores (root h)" "wft v4 t = wft v4 (root h)"
  shows "table v4 (root(h := t)) T"
  using assms by (auto simp: table_def)

definition gate4 :: "byte list \<Rightarrow> (byte list \<Rightarrow> byte list) \<Rightarrow> Route \<Rightarrow> byte list" where
  "gate4 v4prefix v4tov6 p = (if tst (rt_type p) Rifc then take 12 v4prefix @ hnputl (rt_a4 p) else v4tov6 (rt_g4 p))"

definition gate6 :: "Route \<Rightarrow> byte list" where
  "gate6 p = (if tst (rt_type p) Rifc then concat (map hnputl (rt_a6 p)) else rt_g6 p)"

lemma v4lookup_ok:
  assumes "rel4 f T" "coherent (f_v4gen f) (unat (nhgetl a)) T c"
    "v4lookup findipifc ifcidof v4prefix v4tov6 f a c = (q, f', c')"
  shows "(best (unat (nhgetl a)) T q \<or>
      q = None \<and> (\<exists>p. find4 f a = Some p \<and> findipifc (gate4 v4prefix v4tov6 p) (rt_type p) = None)) \<and>
    rel4 f' T \<and> coherent (f_v4gen f') (unat (nhgetl a)) T c' \<and> f_v4gen f' = f_v4gen f"
proof (cases "cached (f_v4gen f) c")
  case (Some r)
  then have "q = Some r" "f' = f" "c' = c" using assms(3) by (auto simp: v4lookup_def)
  then show ?thesis using assms(1,2) Some by (simp add: coherent_def)
next
  case None
  note B = find4_ok [OF assms(1), of a]
  note walk = find4_def [of f a, symmetric]
  show ?thesis
  proof (cases "find4 f a")
    case N: None
    then show ?thesis
      using assms B coherent_keep [of "unat (nhgetl a)" T None "f_v4gen f" c] None by (auto simp: v4lookup_def Let_def walk)
  next
    case (Some p)
    define g where "g i = (\<lambda>r::Route. r\<lparr>rt_ifc := Some i, rt_ifcid := ifcidof i\<rparr>)" for i
    have gc: "core (g i r) = core r" for i r by (simp add: g_def core_ifc)
    have bg: "best (unat (nhgetl a)) T (Some (g i p))" for i using B Some best_core [OF gc] by metis
    let ?h = "V4H (nhgetl a)"
    have t: "rel4 (f\<lparr>f_v4root := (f_v4root f)(?h := v4upd (f_v4root f ?h) (nhgetl a) (g i))\<rparr>) T" for i
      using assms(1) v4upd_keeps [of "g i", OF gc] by (simp add: rel4_def table_upd)
    show ?thesis
    proof (cases "stale ifcidof p")
      case False
      then show ?thesis
        using assms None Some B coherent_keep [of "unat (nhgetl a)" T "Some p" "f_v4gen f" c] by (auto simp: v4lookup_def Let_def walk)
    next
      case True
      show ?thesis
      proof (cases "findipifc (gate4 v4prefix v4tov6 p) (rt_type p)")
        case fi: None
        then show ?thesis using assms None Some True by (auto simp: v4lookup_def Let_def walk gate4_def)
      next
        case fi: (Some i)
        have "(q, f', c') = (Some (g i p), f\<lparr>f_v4root := (f_v4root f)(?h := v4upd (f_v4root f ?h) (nhgetl a) (g i))\<rparr>,
            map_option (\<lambda>cv. cv\<lparr>c_r := Some (g i p), c_rgen := f_v4gen f\<rparr>) c)"
          using assms(3) None Some True fi by (auto simp: v4lookup_def Let_def walk gate4_def g_def)
        then show ?thesis using t bg [of i] coherent_keep [OF bg, of "f_v4gen f" i c] by simp
      qed
    qed
  qed
qed

lemma v6lookup_ok:
  assumes "rel6 f T" "take 12 a \<noteq> take 12 v4prefix" "coherent (f_v6gen f) (val6 (v6words a)) T c"
    "v6lookup findipifc ifcidof v4prefix v4tov6 f a c = (q, f', c')"
  shows "(best (val6 (v6words a)) T q \<or>
      q = None \<and> (\<exists>p. find6 f a = Some p \<and> findipifc (gate6 p) (rt_type p) = None)) \<and>
    rel6 f' T \<and> coherent (f_v6gen f') (val6 (v6words a)) T c' \<and> f_v6gen f' = f_v6gen f"
proof (cases "cached (f_v6gen f) c")
  case (Some r)
  then have "q = Some r" "f' = f" "c' = c" using assms(2,4) by (auto simp: v6lookup_def)
  then show ?thesis using assms(1,3) Some by (simp add: coherent_def)
next
  case None
  note B = find6_ok [OF assms(1), of a]
  note walk = find6_def [of f a, symmetric]
  show ?thesis
  proof (cases "find6 f a")
    case N: None
    then show ?thesis
      using assms B coherent_keep [of "val6 (v6words a)" T None "f_v6gen f" c] None by (auto simp: v6lookup_def Let_def walk)
  next
    case (Some p)
    define g where "g i = (\<lambda>r::Route. r\<lparr>rt_ifc := Some i, rt_ifcid := ifcidof i\<rparr>)" for i
    have gc: "core (g i r) = core r" for i r by (simp add: g_def core_ifc)
    have bg: "best (val6 (v6words a)) T (Some (g i p))" for i using B Some best_core [OF gc] by metis
    let ?h = "V6H (v6words a)"
    have t: "rel6 (f\<lparr>f_v6root := (f_v6root f)(?h := v6upd (f_v6root f ?h) (v6words a) (g i))\<rparr>) T" for i
      using assms(1) v6upd_keeps [of "g i", OF gc] by (simp add: rel6_def table_upd)
    show ?thesis
    proof (cases "stale ifcidof p")
      case False
      then show ?thesis
        using assms None Some B coherent_keep [of "val6 (v6words a)" T "Some p" "f_v6gen f" c] by (auto simp: v6lookup_def Let_def walk)
    next
      case True
      show ?thesis
      proof (cases "findipifc (gate6 p) (rt_type p)")
        case fi: None
        then show ?thesis using assms None Some True by (auto simp: v6lookup_def Let_def walk gate6_def)
      next
        case fi: (Some i)
        have "(q, f', c') = (Some (g i p), f\<lparr>f_v6root := (f_v6root f)(?h := v6upd (f_v6root f ?h) (v6words a) (g i))\<rparr>,
            map_option (\<lambda>cv. cv\<lparr>c_r := Some (g i p), c_rgen := f_v6gen f\<rparr>) c)"
          using assms(2,4) None Some True fi by (auto simp: v6lookup_def Let_def walk gate6_def g_def)
        then show ?thesis using t bg [of i] coherent_keep [OF bg, of "f_v6gen f" i c] by simp
      qed
    qed
  qed
qed

text \<open>
  An IPv4 address enters \<^verbatim>\<open>v6lookup\<close> in its v4-mapped form. It is tried in the v4 table first
  and falls through to the v6 table when that has no route for it, or no interface for the route
  found: \<open>unreached4\<close>. \<open>route_of\<close> says which route \<open>q\<close> is the right answer for an address.
\<close>

definition unreached4 :: "(byte list \<Rightarrow> byte \<Rightarrow> nat option) \<Rightarrow> (nat \<Rightarrow> byte) \<Rightarrow> byte list \<Rightarrow> (byte list \<Rightarrow> byte list) \<Rightarrow>
    Fs \<Rightarrow> byte list \<Rightarrow> bool" where
  "unreached4 findipifc ifcidof v4prefix v4tov6 f a \<longleftrightarrow> (case find4 f a of
       None \<Rightarrow> True
     | Some p \<Rightarrow> stale ifcidof p \<and> findipifc (gate4 v4prefix v4tov6 p) (rt_type p) = None)"

definition unreached6 :: "(byte list \<Rightarrow> byte \<Rightarrow> nat option) \<Rightarrow> Fs \<Rightarrow> byte list \<Rightarrow> bool" where
  "unreached6 findipifc f a \<longleftrightarrow> (\<exists>p. find6 f a = Some p \<and> findipifc (gate6 p) (rt_type p) = None)"

definition route_of :: "bool \<Rightarrow> bool \<Rightarrow> byte list \<Rightarrow> Route set \<Rightarrow> Route set \<Rightarrow> Route option \<Rightarrow> bool" where
  "route_of v4 un a T U q \<longleftrightarrow>
     v4 \<and> q \<noteq> None \<and> best (unat (nhgetl (drop 12 a))) T q \<or> (v4 \<longrightarrow> un) \<and> best (val6 (v6words a)) U q"

text \<open>
  The one cache of a conversation is checked against two generations: the v4 one first, for an
  address in mapped form, then the v6 one. It is coherent when a route it would answer with is the
  right one.
\<close>

definition coherent6 :: "bool \<Rightarrow> bool \<Rightarrow> Fs \<Rightarrow> byte list \<Rightarrow> Route set \<Rightarrow> Route set \<Rightarrow> Conv option \<Rightarrow> bool" where
  "coherent6 v4 un f a T U c \<longleftrightarrow>
     (\<forall>r. v4 \<and> cached (f_v4gen f) c = Some r \<longrightarrow> route_of v4 un a T U (Some r)) \<and>
     (\<forall>r. cached (f_v6gen f) c = Some r \<and> (v4 \<longrightarrow> cached (f_v4gen f) c = None) \<longrightarrow> best (val6 (v6words a)) U (Some r))"

lemma v4lookup_none:
  assumes "v4lookup findipifc ifcidof v4prefix v4tov6 f a c = (None, f1, c1)"
  shows "f1 = f \<and> unreached4 findipifc ifcidof v4prefix v4tov6 f a \<and>
    (c1 = c \<or> c1 = map_option (\<lambda>cv. cv\<lparr>c_r := None, c_rgen := f_v4gen f\<rparr>) c)"
  using assms
  by (auto simp: v4lookup_def Let_def find4_def [of f a, symmetric] unreached4_def gate4_def split: option.splits if_splits)

lemma v4lookup_frame:
  assumes "v4lookup findipifc ifcidof v4prefix v4tov6 f a c = (q, f1, c1)"
  shows "\<exists>g. f1 = f\<lparr>f_v4root := g\<rparr>"
proof -
  have "\<exists>g. f = f\<lparr>f_v4root := g\<rparr>" by (rule exI [of _ "f_v4root f"]) simp
  then show ?thesis using assms
    by (auto simp: v4lookup_def Let_def split: option.splits if_splits)
qed

lemma v6lookup_frame:
  assumes "v6lookup findipifc ifcidof v4prefix v4tov6 f a c = (q, f1, c1)" "take 12 a \<noteq> take 12 v4prefix"
  shows "\<exists>g. f1 = f\<lparr>f_v6root := g\<rparr>"
proof -
  have "\<exists>g. f = f\<lparr>f_v6root := g\<rparr>" by (rule exI [of _ "f_v6root f"]) simp
  then show ?thesis using assms
    by (auto simp: v6lookup_def Let_def split: option.splits if_splits)
qed

text \<open>The v6 half of the lookup does not look at the prefix.\<close>

lemma v6lookup_falls:
  assumes "take 12 a \<noteq> take 12 p"
  shows "v6lookup findipifc ifcidof v4prefix v4tov6 f a c =
    (if take 12 a = take 12 v4prefix then case v4lookup findipifc ifcidof v4prefix v4tov6 f (drop 12 a) c of
         (Some r, f1, c1) \<Rightarrow> (Some r, f1, c1) | (None, f1, c1) \<Rightarrow> v6lookup findipifc ifcidof p v4tov6 f1 a c1
     else v6lookup findipifc ifcidof p v4tov6 f a c)"
  using assms by (simp add: v6lookup_def Let_def split: prod.split option.split)

lemma other_prefix: "\<exists>p::byte list. take 12 a \<noteq> take 12 p"
  by (rule exI [of _ "if take 12 a = [] then [0] else []"]) simp

lemma v6lookup_any:
  fixes findipifc ifcidof v4prefix v4tov6 f a
  defines "un \<equiv> unreached4 findipifc ifcidof v4prefix v4tov6 f (drop 12 a)" and "v4 \<equiv> take 12 a = take 12 v4prefix"
  assumes "rel4 f T" "rel6 f U" "coherent6 v4 un f a T U c"
    "v6lookup findipifc ifcidof v4prefix v4tov6 f a c = (q, f', c')"
  shows "(route_of v4 un a T U q \<or> q = None \<and> (v4 \<longrightarrow> un) \<and> unreached6 findipifc f a) \<and>
    rel4 f' T \<and> rel6 f' U \<and> coherent6 v4 un f' a T U c' \<and> f_v4gen f' = f_v4gen f \<and> f_v6gen f' = f_v6gen f"
proof -
  obtain p where p: "take 12 a \<noteq> take 12 p" using other_prefix by blast
  have six: ?thesis if u: "v4 \<longrightarrow> un" and l: "v6lookup findipifc ifcidof p v4tov6 f a c1 = (q, f', c')"
    and c1: "c1 = c \<and> (v4 \<longrightarrow> cached (f_v4gen f) c = None) \<or> cached (f_v6gen f) c1 = None \<and> cached (f_v4gen f) c1 = None" for c1
  proof -
    have co: "coherent (f_v6gen f) (val6 (v6words a)) U c1"
      using assms(5) c1 by (auto simp: coherent6_def coherent_def split: option.splits)
    note L = v6lookup_ok [OF assms(4) p co l]
    obtain g where f': "f' = f\<lparr>f_v6root := g\<rparr>" using v6lookup_frame [OF l p] by blast
    have "q = Some r" if "v4 \<and> cached (f_v4gen f) c' = Some r \<or> cached (f_v6gen f) c' = Some r" for r
      using l p c1 that
      by (auto simp: v6lookup_def Let_def cached_def split: option.splits if_splits)
    moreover have "rel4 f' T" using assms(3) by (simp add: f' rel4_def)
    ultimately show ?thesis using L u
      by (auto simp: route_of_def unreached6_def coherent6_def coherent_def f' split: option.splits)
  qed
  show ?thesis
  proof (cases v4)
    case False
    then show ?thesis using six [of c] assms(6) v6lookup_falls [OF p] by (simp add: v4_def)
  next
    case True
    obtain q4 f1 c1 where l4: "v4lookup findipifc ifcidof v4prefix v4tov6 f (drop 12 a) c = (q4, f1, c1)" by (metis prod_cases3)
    obtain g where f1: "f1 = f\<lparr>f_v4root := g\<rparr>" using v4lookup_frame [OF l4] by blast
    show ?thesis
    proof (cases "cached (f_v4gen f) c")
      case (Some r)
      then have "q = Some r \<and> f' = f \<and> c' = c"
        using assms(6) v6lookup_falls [OF p] True by (auto simp: v4_def v4lookup_def)
      then show ?thesis using assms(3-5) Some True by (auto simp: coherent6_def)
    next
      case none: None
      then have "coherent (f_v4gen f) (unat (nhgetl (drop 12 a))) T c" by (simp add: coherent_def)
      note L = v4lookup_ok [OF assms(3) this l4]
      show ?thesis
      proof (cases q4)
        case None
        note N = v4lookup_none [OF l4 [unfolded None]]
        have "v6lookup findipifc ifcidof p v4tov6 f a c1 = (q, f', c')"
          using assms(6) v6lookup_falls [OF p] True l4 None N by (simp add: v4_def)
        then show ?thesis using six [of c1] N none by (auto simp: un_def cached_def split: option.splits)
      next
        case (Some r)
        then have e: "q = Some r" "f' = f1" "c' = c1"
          using assms(6) v6lookup_falls [OF p] True l4 by (simp_all add: v4_def)
        have b: "best (unat (nhgetl (drop 12 a))) T (Some r)" using L Some by simp
        have c1: "s = r" if "cached (f_v4gen f) c1 = Some s" for s
          using l4 none Some that by (auto simp: v4lookup_def Let_def cached_def split: option.splits if_splits)
        have c2: "cached (f_v4gen f) c1 = Some s" if "cached (f_v6gen f) c1 = Some s" for s
          using l4 none Some that by (auto simp: v4lookup_def Let_def cached_def split: option.splits if_splits)
        have "rel6 f' U" using assms(4) by (simp add: e f1 rel6_def)
        moreover have "coherent6 v4 un f' a T U c'"
          using c1 c2 b True by (auto simp: coherent6_def e f1 route_of_def)
        ultimately show ?thesis using L b True by (simp add: e f1 route_of_def)
      qed
    qed
  qed
qed

lemma iproute_keeps:
  assumes "rel4 f T" "rel6 f U"
  shows "rel4 (snd (iproute isv4 findipifc ifcidof v4prefix v4tov6 f a)) T \<and>
    rel6 (snd (iproute isv4 findipifc ifcidof v4prefix v4tov6 f a)) U"
proof (cases "isv4 a")
  case True
  obtain q f1 c1 where l: "v4lookup findipifc ifcidof v4prefix v4tov6 f (drop 12 a) None = (q, f1, c1)" by (metis prod_cases3)
  then show ?thesis using v4lookup_ok [OF assms(1) _ l] v4lookup_frame [OF l] assms(2) True
    by (auto simp: iproute_def coherent_def cached_def rel6_def)
next
  case False
  obtain q f1 c1 where l: "v6lookup findipifc ifcidof v4prefix v4tov6 f a None = (q, f1, c1)" by (metis prod_cases3)
  then show ?thesis using v6lookup_any [OF assms _ l] False
    by (auto simp: iproute_def coherent6_def cached_def)
qed

section \<open>Printing and flushing\<close>

lemma nhgetl_hnputl [simp]: "nhgetl (hnputl v @ x) = v" "nhgetl (hnputl v) = v"
proof -
  have "nhgetl [ucast (drop_bit 24 v), ucast (drop_bit 16 v), ucast (drop_bit 8 v), ucast v] = v"
  proof (rule bit_word_eqI)
    fix n :: nat assume "n < LENGTH(32)"
    then consider "n < 8" | "8 \<le> n" "n < 16" | "16 \<le> n" "n < 24" | "24 \<le> n" "n < 32" by force
    then show "bit (nhgetl [ucast (drop_bit 24 v), ucast (drop_bit 16 v), ucast (drop_bit 8 v), ucast v]) n = bit v n"
      by cases (auto simp: nhgetl_def bit_simps)
  qed
  then show "nhgetl (hnputl v @ x) = v" "nhgetl (hnputl v) = v" by (simp_all add: nhgetl_def hnputl_def)
qed

lemma hnputl_nhgetl:
  assumes "length m = 4"
  shows "hnputl (nhgetl m) = m"
proof -
  obtain a b c d where m: "m = [a, b, c, d]" using assms by (auto simp: length_Suc_conv numeral_eq_Suc)
  show ?thesis unfolding m hnputl_def nhgetl_def
    by (simp add: m) (intro conjI bit_word_eqI; auto simp: bit_simps dest: bit_imp_le_length)
qed

lemma length_hnputl [simp]: "length (hnputl v) = 4"
  by (simp add: hnputl_def)


lemma xor_range: "NOT ((s AND m OR NOT m) XOR (s AND m)) = (m :: ulong)"
  by (rule bit_word_eqI) (auto simp: bit_simps)

lemma length_v4mask: "v4mask m \<Longrightarrow> length m = 4" by (simp add: v4mask_def)

text \<open>The mask and the address that are printed for a route are those it was added with.\<close>

lemma convroute_r4:
  assumes "length msk = 4" "length v4prefix = 16"
  shows "convroute v4prefix xof (r4 tag a msk gate ty) =
    (take 12 v4prefix @ hnputl (nhgetl a AND nhgetl msk), replicate 12 0xff @ msk, take 12 v4prefix @ take 4 gate,
     routetype (setf Rv4 ty), -1)"
  using assms by (simp add: convroute_def r4_def v4fill_def zeroroute_def xor_range hnputl_nhgetl)

lemma v6words_concat:
  assumes "length ws = IPllen"
  shows "v6words (concat (map hnputl ws)) = ws"
proof -
  obtain w x y z where "ws = [w, x, y, z]" using assms by (auto simp: IPllen_def length_Suc_conv numeral_eq_Suc)
  then show ?thesis by (simp add: v6words_def IPllen_def upt_rec)
qed

lemma concat_v6words:
  assumes "length a = 16"
  shows "concat (map hnputl (v6words a)) = a"
proof -
  have s: "take 4 (drop n a) @ drop (n + 4) a = drop n a" for n by (metis append_take_drop_id drop_drop add.commute)
  have "take 4 (drop 12 a) = drop 12 a" using assms by simp
  then have "take 4 a @ take 4 (drop 4 a) @ take 4 (drop 8 a) @ take 4 (drop 12 a) = a"
    using s [of 8] s [of 4] s [of 0] by simp
  moreover have h: "hnputl (nhgetl (drop n a)) = take 4 (drop n a)" if "n \<le> 12" for n
    using hnputl_nhgetl [of "take 4 (drop n a)"] assms that by (simp add: nhgetl_def)
  from h [of 0] h [of 4] h [of 8] h [of 12] calculation
  show ?thesis by (simp add: v6words_def IPllen_def upt_rec)
qed

lemma xor_start: "length a = length m \<Longrightarrow>
    map2 (\<lambda>e a. NOT (e XOR a)) (map2 (\<lambda>x y. x OR NOT y) a m) (map2 (AND) a m) = (m :: ulong list)"
proof (induction a m rule: list_induct2)
  case (Cons x a y m)
  have "NOT ((x OR NOT y) XOR (x AND y)) = y" by (rule bit_word_eqI) (auto simp: bit_simps)
  then show ?case using Cons by simp
qed simp

lemma concat_map2: "concat (map2 (\<lambda>x y. f (g x y)) xs ys) = concat (map f (map2 g xs ys))"
  by (simp add: case_prod_unfold comp_def)

lemma convroute_r6:
  assumes "length msk = 16" "\<not> tst ty Rv4"
  shows "convroute v4prefix xof (r6 tag a msk gate ty) = (concat (map hnputl (v6start a msk)), msk, take 16 gate, routetype ty, -1)"
proof -
  have "map2 (\<lambda>e a. NOT (e XOR a)) (v6end a msk) (v6start a msk) = v6words msk" by (simp add: v6end_def v6start_def xor_start)
  then have "concat (map2 (\<lambda>e a. hnputl (NOT (e XOR a))) (v6end a msk) (v6start a msk)) = msk"
    using concat_map2 [of hnputl "\<lambda>e a. NOT (e XOR a)"] concat_v6words [OF assms(1)] by metis
  then show ?thesis using assms(2) by (simp add: convroute_def r6_def v6fill_def zeroroute_def)
qed

lemma map2_again:
  "length a = length m \<Longrightarrow> map2 (AND) (map2 (AND) a m) m = map2 (AND) a (m :: ulong list)"
  "length a = length m \<Longrightarrow> map2 (\<lambda>x y. x OR NOT y) (map2 (AND) a m) m = map2 (\<lambda>x y. x OR NOT y) a (m :: ulong list)"
proof -
  have b: "x AND y OR NOT y = x OR NOT y" for x y :: ulong by (rule bit_word_eqI) (auto simp: bit_simps)
  show "length a = length m \<Longrightarrow> map2 (AND) (map2 (AND) a m) m = map2 (AND) a m"
    by (induction a m rule: list_induct2) (simp_all add: and.assoc)
  show "length a = length m \<Longrightarrow> map2 (\<lambda>x y. x OR NOT y) (map2 (AND) a m) m = map2 (\<lambda>x y. x OR NOT y) a m"
    by (induction a m rule: list_induct2) (simp_all add: b)
qed

lemma v6_again:
  "v6start (concat (map hnputl (v6start a msk))) msk = v6start a msk"
  "v6end (concat (map hnputl (v6start a msk))) msk = v6end a msk"
  unfolding v6start_def [of "concat _"] v6end_def [of "concat _"]
  by (simp_all add: v6words_concat) (simp_all add: v6start_def v6end_def map2_again)

lemma v4prefix_range:
  assumes "okr True p" "prefix p"
  shows "\<exists>n \<le> 32. rt_a4 p = rt_a4 p AND NOT (mask n) \<and> rt_e4 p = rt_a4 p OR mask n"
proof -
  obtain n q where n: "lo p = q * 2 ^ n" "hi p = q * 2 ^ n + 2 ^ n - 1" using assms(2) by (auto simp: prefix_def)
  have l: "lo p = unat (rt_a4 p)" "hi p = unat (rt_e4 p)" using assms(1) by (simp_all add: okr_def lo_def hi_def)
  have "2 ^ n - 1 < (2::nat) ^ 32" using n(2) l(2) unat_less [of "rt_e4 p"] by linarith
  then have "(2::nat) ^ n \<le> 2 ^ 32" by linarith
  then have le: "n \<le> 32" by (rule power_le_imp_le_exp [rotated]) simp
  have "unat (rt_a4 p) = unat (rt_a4 p AND NOT (mask n))" using n(1) l(1) by (simp add: unat_and_not_mask)
  moreover have "unat (rt_e4 p) = unat (rt_a4 p OR mask n)" using n l by (simp add: unat_or_mask [OF le])
  ultimately show ?thesis using le by (auto simp: word_unat_eq_iff)
qed


lemma v6prefix_range:
  assumes "okr False p" "prefix p"
  shows "\<exists>n \<le> 128. rt_a6 p = map2 (AND) (rt_a6 p) (pmask n IPllen) \<and> rt_e6 p = map2 (\<lambda>x y. x OR NOT y) (rt_a6 p) (pmask n IPllen)"
proof -
  obtain n q where n: "lo p = q * 2 ^ n" "hi p = q * 2 ^ n + 2 ^ n - 1" using assms(2) by (auto simp: prefix_def)
  have l: "lo p = val6 (rt_a6 p)" "hi p = val6 (rt_e6 p)" "length (rt_a6 p) = IPllen" "length (rt_e6 p) = IPllen"
    using assms(1) by (simp_all add: okr_def lo_def hi_def)
  have "2 ^ n - 1 < (2::nat) ^ 128" using n(2) l(2,4) val6_bound [of "rt_e6 p"] by (simp add: IPllen_def)
  then have "(2::nat) ^ n \<le> 2 ^ 128" by linarith
  then have le: "n \<le> 128" by (rule power_le_imp_le_exp [rotated]) simp
  then have n': "n \<le> 32 * length (rt_a6 p)" using l(3) by (simp add: IPllen_def)
  have "val6 (rt_a6 p) = val6 (map2 (AND) (rt_a6 p) (pmask n IPllen))" using val6_start [OF n'] n(1) l(1,3) by simp
  moreover have "val6 (rt_e6 p) = val6 (map2 (\<lambda>x y. x OR NOT y) (rt_a6 p) (pmask n IPllen))"
    using val6_end [OF n'] n l by simp
  ultimately show ?thesis
    using le l(3,4) val6_inj [of "rt_a6 p" "map2 (AND) (rt_a6 p) (pmask n IPllen)"]
      val6_inj [of "rt_e6 p" "map2 (\<lambda>x y. x OR NOT y) (rt_a6 p) (pmask n IPllen)"] by auto
qed

lemma xor_words:
  "length a = length m \<Longrightarrow> a = map2 (AND) a m \<Longrightarrow>
    map2 (\<lambda>e a. NOT (e XOR a)) (map2 (\<lambda>x y. x OR NOT y) a m) a = (m :: ulong list)"
proof (induction a m rule: list_induct2)
  case (Cons x a y m)
  then have "x = x AND y" by simp
  then have "NOT ((x OR NOT y) XOR x) = y" using xor_range [of x y] by simp
  then show ?case using Cons by simp
qed simp

lemma sameas_in_table:
  assumes "table v4 root T" "x \<in> T" "y \<in> T" "sameas x y"
  shows "x = y"
proof -
  have w: "wft v4 (root (bidx (lo x)))" and c: "cores (root (bidx (lo x))) = {z \<in> T. bidx (lo z) \<le> bidx (lo x) \<and> bidx (lo x) \<le> bidx (hi z)}"
    using assms(1) by (simp_all add: table_def)
  have "bidx (lo x) \<le> bidx (hi x)" if "x \<in> T" for x
  proof -
    have "prefix x" "okr v4 x" using assms(1) that by (simp_all add: table_def)
    then obtain n q where q: "lo x = q * 2 ^ n" "hi x = q * 2 ^ n + 2 ^ n - 1" "lo x \<le> hi x" by (auto simp: prefix_def okr_def)
    show ?thesis using bidx_mono_in_prefix [OF q(1,2), of "hi x"] q(3) by simp
  qed
  then have "x \<in> cores (root (bidx (lo x)))" "y \<in> cores (root (bidx (lo x)))"
    using assms(2,3) sameas_bidx [OF assms(4)] unfolding c by auto
  then show ?thesis using sameas_unique [OF w] assms(4) by blast
qed

lemma tdel_solo:
  assumes "table v4 root T" "core p \<in> T" "sameas p q" "rt_ref p = 1"
  shows "tdel q T = T - {core p}"
proof -
  have u: "sameas q x \<longleftrightarrow> x = core p" if "x \<in> T" for x
  proof
    assume "sameas q x"
    then have "sameas x (core p)" using assms(3) by (simp add: sameas_def)
    then show "x = core p" by (rule sameas_in_table [OF assms(1) that assms(2)])
  qed (use assms(3) in \<open>simp add: sameas_def\<close>)
  have "{x \<in> T. \<not> sameas q x} = T - {core p}" using u by blast
  moreover have "{x \<in> T. sameas q x \<and> rt_ref x \<noteq> 1} = {}" using u assms(4) by auto
  ultimately show ?thesis unfolding tdel_def by (simp only: image_empty Un_empty_right)
qed

lemma table_core:
  assumes "table v4 root T" "solo T" "core p \<in> T"
  shows "okr v4 p" "prefix p" "\<not> tst (rt_type p) Rifc \<Longrightarrow> rt_ref p = 1"
proof -
  have "okr v4 (core p)" "prefix (core p)" using assms(1,3) unfolding table_def by blast+
  then show "okr v4 p" "prefix p" by (simp_all add: prefix_def)
  show "\<not> tst (rt_type p) Rifc \<Longrightarrow> rt_ref p = 1" using assms(2,3) by (auto simp: solo_def)
qed

lemma delroute4:
  assumes "rel4 f T" "core p \<in> T" "\<not> tst (rt_type p) Rifc" "length v4prefix = 16"
  shows "\<exists>f'. delroute v4prefix f p = Some (Inr f') \<and> rel4 f' (T - {core p}) \<and> f_v6root f' = f_v6root f"
proof -
  have ok: "okr True p" "prefix p" and ref: "rt_ref p = 1"
    using table_core assms(1-3) unfolding rel4_def by blast+
  then have ty: "tst (rt_type p) Rv4" by (simp add: okr_def)
  obtain n where n: "n \<le> 32" "rt_a4 p = rt_a4 p AND NOT (mask n)" "rt_e4 p = rt_a4 p OR mask n"
    using v4prefix_range [OF ok] by blast
  let ?m = "hnputl (NOT (mask n))"
  have m: "NOT (rt_e4 p XOR rt_a4 p) = NOT (mask n)" using xor_range [of "rt_a4 p" "NOT (mask n)"] n by simp
  have "v4mask ?m" using n(1) by (auto simp: v4mask_def)
  then obtain f' where f': "v4delroute f (hnputl (rt_a4 p)) ?m = Some (Inr f')" "rel4 f' (tdel (r4 [] (hnputl (rt_a4 p)) ?m [] 0) T)"
    "f_v6root f' = f_v6root f"
    using v4delroute_ok [OF assms(1), of ?m "hnputl (rt_a4 p)"] by blast
  have "sameas p (r4 [] (hnputl (rt_a4 p)) ?m [] 0)"
    using n ty by (simp add: sameas_def lo_def hi_def r4_def v4fill_def zeroroute_def)
  then have "tdel (r4 [] (hnputl (rt_a4 p)) ?m [] 0) T = T - {core p}"
    using tdel_solo assms(1,2) ref unfolding rel4_def by blast
  then show ?thesis using f' ty m assms(4) by (simp add: delroute_def convroute_def)
qed

lemma delroute6:
  assumes "rel6 f T" "core p \<in> T" "\<not> tst (rt_type p) Rifc"
  shows "\<exists>f'. delroute v4prefix f p = Some (Inr f') \<and> rel6 f' (T - {core p}) \<and> f_v4root f' = f_v4root f"
proof -
  have ok: "okr False p" "prefix p" and ref: "rt_ref p = 1"
    using table_core assms(1-3) unfolding rel6_def by blast+
  then have ty: "\<not> tst (rt_type p) Rv4" and l: "length (rt_a6 p) = IPllen" by (simp_all add: okr_def)
  obtain n where n: "n \<le> 128" "rt_a6 p = map2 (AND) (rt_a6 p) (pmask n IPllen)" "rt_e6 p = map2 (\<lambda>x y. x OR NOT y) (rt_a6 p) (pmask n IPllen)"
    using v6prefix_range [OF ok] by blast
  let ?a = "concat (map hnputl (rt_a6 p))" and ?m = "concat (map hnputl (pmask n IPllen))"
  have m: "concat (map2 (\<lambda>e a. hnputl (NOT (e XOR a))) (rt_e6 p) (rt_a6 p)) = ?m"
  proof -
    have "map2 (\<lambda>e a. NOT (e XOR a)) (rt_e6 p) (rt_a6 p) = pmask n IPllen"
      using xor_words [of "rt_a6 p" "pmask n IPllen"] l n(2,3) by simp
    then show ?thesis by (metis (no_types, lifting) case_prod_beta' map_map comp_def map_eq_conv)
  qed
  have w: "v6words ?a = rt_a6 p" "v6words ?m = pmask n IPllen" using l by (simp_all add: v6words_concat)
  have "length (concat (map hnputl ws)) = 4 * length ws" for ws by (induction ws) simp_all
  then have "v6mask ?m" using n(1) w(2) by (auto simp: v6mask_def IPllen_def)
  then obtain f' where f': "v6delroute f ?a ?m = Some (Inr f')" "rel6 f' (tdel (r6 [] ?a ?m [] 0) T)"
    "f_v4root f' = f_v4root f"
    using v6delroute_ok [OF assms(1), of ?m ?a] by blast
  have "sameas p (r6 [] ?a ?m [] 0)"
    using n ty by (simp add: sameas_def lo_def hi_def r6_def v6fill_def zeroroute_def v6start_def v6end_def w)
  then have "tdel (r6 [] ?a ?m [] 0) T = T - {core p}"
    using tdel_solo assms(1,2) ref unfolding rel6_def by blast
  then show ?thesis using f' ty m by (simp add: delroute_def convroute_def)
qed

text \<open>
  The flush command of \<^verbatim>\<open>routewrite\<close>: every bucket of both forests is flushed until a call of
  \<^verbatim>\<open>routeflush\<close> finds nothing to delete. None if the inner loop never ends.
\<close>

partial_function (option) flushloop :: "byte list \<Rightarrow> (Fs \<Rightarrow> rtree) \<Rightarrow> string option \<Rightarrow> Fs \<Rightarrow> fsres" where
  "flushloop v4prefix root tag f = (case routeflush v4prefix f (root f) tag of
       None \<Rightarrow> None
     | Some (Inl e) \<Rightarrow> Some (Inl e)
     | Some (Inr (changed, f)) \<Rightarrow> if changed then flushloop v4prefix root tag f else Some (Inr f))"

fun flushall :: "byte list \<Rightarrow> (Fs \<Rightarrow> nat \<Rightarrow> rtree) \<Rightarrow> string option \<Rightarrow> nat list \<Rightarrow> Fs \<Rightarrow> fsres" where
  "flushall v4prefix root tag [] f = Some (Inr f)"
| "flushall v4prefix root tag (h # hs) f = (case flushloop v4prefix (\<lambda>f. root f h) tag f of
       Some (Inr f) \<Rightarrow> flushall v4prefix root tag hs f | e \<Rightarrow> e)"

definition routewrite_flush :: "byte list \<Rightarrow> Fs \<Rightarrow> string option \<Rightarrow> fsres" where
  "routewrite_flush v4prefix f tag = (case flushall v4prefix f_v4root tag [0..<2 ^ Lroot] f of
       Some (Inr f) \<Rightarrow> flushall v4prefix f_v6root tag [0..<2 ^ Lroot] f | e \<Rightarrow> e)"

definition flushes :: "string option \<Rightarrow> Route \<Rightarrow> bool" where
  "flushes tag p \<longleftrightarrow> \<not> tst (rt_type p) Rifc \<and> (case tag of None \<Rightarrow> True | Some t \<Rightarrow> take 4 t = take 4 (rt_tag p))"

lemma flushes_core [simp]: "flushes tag (core p) = flushes tag p"
  by (cases tag) (simp_all add: flushes_def)

lemma flushpick_ok:
  "case flushpick t tag of None \<Rightarrow> (\<forall>x \<in> cores t. \<not> flushes tag x) | Some p \<Rightarrow> core p \<in> cores t \<and> flushes tag p"
  by (induction t) (auto simp: flushes_def split: option.splits)

text \<open>
  What the loops need of a forest: a relation to its set of routes, under which the routes of a
  bucket belong to the set and a route that is not of an interface can be deleted.
\<close>

locale flushing =
  fixes R :: "Fs \<Rightarrow> Route set \<Rightarrow> bool" and root :: "Fs \<Rightarrow> nat \<Rightarrow> rtree" and v4prefix :: "byte list"
    and meets :: "nat \<Rightarrow> Route \<Rightarrow> bool"
  assumes bucket: "R f T \<Longrightarrow> cores (root f h) = {x \<in> T. meets h x}"
    and filled: "R f T \<Longrightarrow> x \<in> T \<Longrightarrow> \<exists>h < 2 ^ Lroot. meets h x"
    and delete: "R f T \<Longrightarrow> core p \<in> T \<Longrightarrow> \<not> tst (rt_type p) Rifc \<Longrightarrow>
      \<exists>f'. delroute v4prefix f p = Some (Inr f') \<and> R f' (T - {core p})"
begin

lemma finite_routes: "R f T \<Longrightarrow> finite T"
proof -
  assume R: "R f T"
  have c: "finite (cores t)" for t by (induction t) simp_all
  have "T \<subseteq> (\<Union>h \<in> {..<2 ^ Lroot}. cores (root f h))" using filled [OF R] bucket [OF R] by blast
  then show ?thesis by (rule finite_subset) (simp add: c)
qed

lemma flushloop_ok:
  assumes "R f T"
  shows "\<exists>f' D. flushloop v4prefix (\<lambda>f. root f h) tag f = Some (Inr f') \<and> R f' (T - D) \<and>
    (\<forall>x \<in> D. flushes tag x) \<and> (\<forall>x \<in> T - D. meets h x \<longrightarrow> \<not> flushes tag x)"
  using assms
proof (induction "card T" arbitrary: f T rule: less_induct)
  case less
  show ?case
  proof (cases "flushpick (root f h) tag")
    case None
    then have "flushloop v4prefix (\<lambda>f. root f h) tag f = Some (Inr f)" by (simp add: flushloop.simps routeflush_def)
    moreover have "\<forall>x \<in> T. meets h x \<longrightarrow> \<not> flushes tag x"
      using flushpick_ok [of "root f h" tag] None bucket [OF less.prems] by simp
    ultimately show ?thesis using less.prems by (intro exI [of _ f] exI [of _ "{}"]) simp
  next
    case (Some p)
    then have p: "core p \<in> T" "flushes tag p" using flushpick_ok [of "root f h" tag] bucket [OF less.prems] by auto
    then obtain f1 where f1: "delroute v4prefix f p = Some (Inr f1)" "R f1 (T - {core p})"
      using delete [OF less.prems] by (auto simp: flushes_def)
    have "card (T - {core p}) < card T" using finite_routes [OF less.prems] p(1) by (rule card_Diff1_less)
    from less.hyps [OF this f1(2)] obtain f' D where f': "flushloop v4prefix (\<lambda>f. root f h) tag f1 = Some (Inr f')"
      "R f' (T - {core p} - D)" "\<forall>x \<in> D. flushes tag x" "\<forall>x \<in> T - {core p} - D. meets h x \<longrightarrow> \<not> flushes tag x" by blast
    have "flushloop v4prefix (\<lambda>f. root f h) tag f = Some (Inr f')"
      using Some f1(1) f'(1) by (simp add: flushloop.simps [of _ _ _ f] routeflush_def)
    moreover have "T - {core p} - D = T - insert (core p) D" by blast
    moreover have "\<forall>x \<in> insert (core p) D. flushes tag x" using f'(3) p(2) by simp
    ultimately show ?thesis using f'(2,4) by metis
  qed
qed

lemma flushall_buckets:
  assumes "R f T"
  shows "\<exists>f' D. flushall v4prefix root tag hs f = Some (Inr f') \<and> R f' (T - D) \<and> (\<forall>x \<in> D. flushes tag x) \<and>
    (\<forall>h \<in> set hs. \<forall>x \<in> T - D. meets h x \<longrightarrow> \<not> flushes tag x)"
  using assms
proof (induction hs arbitrary: f T)
  case Nil
  then show ?case by (intro exI [of _ f] exI [of _ "{}"]) simp
next
  case (Cons h hs)
  obtain f1 D1 where f1: "flushloop v4prefix (\<lambda>f. root f h) tag f = Some (Inr f1)" "R f1 (T - D1)"
    "\<forall>x \<in> D1. flushes tag x" "\<forall>x \<in> T - D1. meets h x \<longrightarrow> \<not> flushes tag x"
    using flushloop_ok [OF Cons.prems] by blast
  obtain f' D where f': "flushall v4prefix root tag hs f1 = Some (Inr f')" "R f' (T - D1 - D)" "\<forall>x \<in> D. flushes tag x"
    "\<forall>h \<in> set hs. \<forall>x \<in> T - D1 - D. meets h x \<longrightarrow> \<not> flushes tag x"
    using Cons.IH [OF f1(2)] by blast
  have "T - D1 - D = T - (D1 \<union> D)" by blast
  then show ?case using f1 f' by (intro exI [of _ f'] exI [of _ "D1 \<union> D"]) auto
qed

lemma flushall_ok:
  assumes "R f T"
  shows "\<exists>f'. flushall v4prefix root tag [0..<2 ^ Lroot] f = Some (Inr f') \<and> R f' {x \<in> T. \<not> flushes tag x}"
proof -
  obtain f' D where f': "flushall v4prefix root tag [0..<2 ^ Lroot] f = Some (Inr f')" "R f' (T - D)" "\<forall>x \<in> D. flushes tag x"
    "\<forall>h \<in> set [0..<2 ^ Lroot]. \<forall>x \<in> T - D. meets h x \<longrightarrow> \<not> flushes tag x"
    using flushall_buckets [OF assms] by blast
  then have "\<not> flushes tag x" if "x \<in> T - D" for x using that filled [OF assms, of x] by fastforce
  then have "T - D = {x \<in> T. \<not> flushes tag x}" using f'(3) by blast
  then show ?thesis using f'(1,2) by auto
qed

end

definition meets :: "nat \<Rightarrow> Route \<Rightarrow> bool" where
  "meets h x \<longleftrightarrow> bidx (lo x) \<le> h \<and> h \<le> bidx (hi x)"

lemma table_meets:
  assumes "table v4 root T"
  shows "cores (root h) = {x \<in> T. meets h x}" "x \<in> T \<Longrightarrow> \<exists>h < 2 ^ Lroot. meets h x"
proof -
  show "cores (root h) = {x \<in> T. meets h x}" using assms by (simp add: table_def meets_def)
  assume x: "x \<in> T"
  then have "prefix x" "okr v4 x" using assms by (simp_all add: table_def)
  then obtain n q where q: "lo x = q * 2 ^ n" "hi x = q * 2 ^ n + 2 ^ n - 1" "lo x \<le> hi x" by (auto simp: prefix_def okr_def)
  then have "meets (bidx (lo x)) x" using bidx_mono_in_prefix [OF q(1,2), of "hi x"] by (simp add: meets_def)
  then show "\<exists>h < 2 ^ Lroot. meets h x" using bidx_less [of "lo x"] by (intro exI [of _ "bidx (lo x)"]) (simp add: Lroot_def)
qed

text \<open>The prefix of the v4-mapped addresses, in libip.\<close>

definition mapped :: "byte list" where
  "mapped = replicate 10 0 @ [0xff, 0xff] @ replicate 4 0"

interpretation fl4: flushing "\<lambda>f T. rel4 f T \<and> rel6 f U" f_v4root mapped meets for U
proof
  fix f T p assume "rel4 f T \<and> rel6 f U" "core p \<in> T" "\<not> tst (rt_type p) Rifc"
  then show "\<exists>f'. delroute mapped f p = Some (Inr f') \<and> (rel4 f' (T - {core p}) \<and> rel6 f' U)"
    using delroute4 [of f T p mapped] by (fastforce simp: rel4_def rel6_def mapped_def)
qed (use table_meets in \<open>auto simp: rel4_def\<close>)

interpretation fl6: flushing "\<lambda>f T. rel4 f U \<and> rel6 f T" f_v6root mapped meets for U
proof
  fix f T p assume "rel4 f U \<and> rel6 f T" "core p \<in> T" "\<not> tst (rt_type p) Rifc"
  then show "\<exists>f'. delroute mapped f p = Some (Inr f') \<and> (rel4 f' U \<and> rel6 f' (T - {core p}))"
    using delroute6 [of f T p mapped] by (fastforce simp: rel4_def rel6_def)
qed (use table_meets in \<open>auto simp: rel6_def\<close>)

lemma routewrite_flush_ok:
  assumes "rel4 f T" "rel6 f U"
  shows "\<exists>f'. routewrite_flush mapped f tag = Some (Inr f') \<and> rel4 f' {x \<in> T. \<not> flushes tag x} \<and> rel6 f' {x \<in> U. \<not> flushes tag x}"
proof -
  obtain f1 where f1: "flushall mapped f_v4root tag [0..<2 ^ Lroot] f = Some (Inr f1)"
    "rel4 f1 {x \<in> T. \<not> flushes tag x}" "rel6 f1 U"
    using fl4.flushall_ok assms by blast
  then show ?thesis using fl6.flushall_ok [of f1 "{x \<in> T. \<not> flushes tag x}" U tag] by (simp add: routewrite_flush_def)
qed

section \<open>The commands of the route file\<close>

text \<open>
  \<^verbatim>\<open>routewrite\<close> on the fields of the command; \<open>parseip\<close> and \<open>parseipmask\<close> are of libip
  (None is the result -1); the parameters after them are those of \<^verbatim>\<open>iproute\<close>. \<open>aux\<close> is the
  channel's IPaux, None when there is no channel. The field after the last is nil.
\<close>

datatype rwerror = Ebadarg | Ebadip

record IPaux =
  x_owner :: string
  x_tag :: string

definition newipaux :: "string \<Rightarrow> string \<Rightarrow> IPaux" where
  "newipaux owner tag = \<lparr>x_owner = owner, x_tag = take 4 tag @ replicate (4 - length tag) (CHR '' '')\<rparr>"

definition routewrite :: "byte list \<Rightarrow> (string \<Rightarrow> byte list option) \<Rightarrow> (string \<Rightarrow> byte list) \<Rightarrow>
    (byte list \<Rightarrow> bool) \<Rightarrow> (byte list \<Rightarrow> byte \<Rightarrow> nat option) \<Rightarrow> (nat \<Rightarrow> byte) \<Rightarrow> (byte list \<Rightarrow> byte list) \<Rightarrow>
    Fs \<Rightarrow> IPaux option \<Rightarrow> string list \<Rightarrow> (fault + (rwerror + Fs \<times> IPaux option)) option" where
  "routewrite v4prefix parseip parseipmask isv4 findipifc ifcidof v4tov6 f aux cb =
     (let ret = map_option (map_sum id (\<lambda>f. Inr (f, aux))); err = (\<lambda>e. Some (Inr (Inl e))) in
      if cb = [] then Some (Inl Fault)
      else if hd cb = ''flush'' then ret (routewrite_flush v4prefix f (if length cb < 2 then None else Some (cb ! 1)))
      else if hd cb = ''remove'' then
        if length cb < 3 then err Ebadarg
        else (case parseip (cb ! 1) of
            None \<Rightarrow> err Ebadip
          | Some addr \<Rightarrow>
              let msk = parseipmask (cb ! 2) in
              if take 12 addr = take 12 v4prefix then ret (v4delroute f (drop 12 addr) (drop 12 msk))
              else ret (v6delroute f addr msk))
      else if hd cb = ''add'' then
        if length cb < 4 then err Ebadarg
        else (case (parseip (cb ! 1), parseip (cb ! 3)) of
            (Some addr, Some gate) \<Rightarrow>
              let msk = parseipmask (cb ! 2); tag = (case aux of None \<Rightarrow> ''none'' | Some a \<Rightarrow> x_tag a) in
              if take 12 addr = take 12 v4prefix then ret (v4addroute f tag (drop 12 addr) (drop 12 msk) (drop 12 gate) 0)
              else ret (v6addroute f tag addr msk gate 0)
          | _ \<Rightarrow> err Ebadip)
      else if hd cb = ''tag'' then
        if length cb < 2 then err Ebadarg
        else (case aux of
            None \<Rightarrow> Some (Inl Fault)
          | Some a \<Rightarrow> Some (Inr (Inr (f, Some (newipaux (x_owner a) (cb ! 1))))))
      else if hd cb = ''route'' then
        if length cb < 2 then err Ebadarg
        else (case parseip (cb ! 1) of
            None \<Rightarrow> err Ebadip
          | Some addr \<Rightarrow> Some (Inr (Inr (snd (iproute isv4 findipifc ifcidof v4prefix v4tov6 f addr), aux))))
      else Some (Inr (Inr (f, aux))))"

end
