(* ===== verification/Route_Properties.thy ===== *)
theory Route_Properties
  imports Flush
begin

text \<open>
  The properties of the routing tables, with witnesses on a small table.
\<close>

section \<open>A small table\<close>

definition empty_fs :: Fs where
  "empty_fs = \<lparr>f_v4root = \<lambda>_. Nilr, f_v6root = \<lambda>_. Nilr,
     f_tab = \<lparr>t_v4free = 0, t_v6free = 0, t_mallocs = \<lambda>_. True, t_mnext = 0, t_queue = []\<rparr>,
     f_v4gen = 0, f_v6gen = 0, f_media = []\<rparr>"

definition net10 :: cmd where "net10 = AddR ''none'' [10, 0, 0, 0] [255, 0, 0, 0] [10, 0, 0, 1] 0"
definition net101 :: cmd where "net101 = AddR ''none'' [10, 1, 0, 0] [255, 255, 0, 0] [10, 1, 0, 1] 0"
definition del10 :: cmd where "del10 = DelR [10, 0, 0, 0] [255, 0, 0, 0]"

definition mask64 :: "byte list" where "mask64 = [255, 255, 255, 255, 255, 255, 255, 255, 0, 0, 0, 0, 0, 0, 0, 0]"
definition site :: "byte list" where "site = [0x20, 1, 0xd, 0xb8, 0, 0, 0, 0, 0, 0, 0, 0, 0, 0, 0, 0]"
definition net6 :: cmd where "net6 = AddR ''none'' site mask64 site 0"

lemma empty_rel: "rel4 empty_fs {}" "rel6 empty_fs {}"
  by (simp_all add: rel4_def rel6_def table_def rmem_def solo_def empty_fs_def)

lemma mask_words:
  "nhgetl [255, 0, 0, 0] = NOT (mask 24)" "nhgetl [255, 255, 0, 0] = NOT (mask 16)"
  "v6words mask64 = pmask 64 IPllen"
proof -
  show "nhgetl [255, 0, 0, 0] = NOT (mask 24)" "nhgetl [255, 255, 0, 0] = NOT (mask 16)"
    by (simp_all add: nhgetl_def mask_eq_exp_minus_1)
  have i: "IPllen = Suc (Suc (Suc (Suc 0)))" by (simp add: IPllen_def)
  show "v6words mask64 = pmask 64 IPllen"
    unfolding v6words_def i by (simp add: v6words_def mask64_def nhgetl_def mask_eq_exp_minus_1)
qed

lemma sample_masks: "v4mask [255, 0, 0, 0]" "v4mask [255, 255, 0, 0]" "v6mask mask64"
proof -
  show "v4mask [255, 0, 0, 0]" unfolding v4mask_def mask_words by (auto intro: exI [of _ 24])
  show "v4mask [255, 255, 0, 0]" unfolding v4mask_def mask_words by (auto intro: exI [of _ 16])
  show "v6mask mask64" unfolding v6mask_def mask_words by (auto simp: mask64_def intro: exI [of _ 64])
qed


definition route10 :: Route where "route10 = core (r4 ''none'' [10, 0, 0, 0] [255, 0, 0, 0] [10, 0, 0, 1] 0)"
definition route6 :: Route where "route6 = core (r6 ''none'' site mask64 site 0)"

lemma one_route4: "\<exists>f. v4addroute empty_fs ''none'' [10, 0, 0, 0] [255, 0, 0, 0] [10, 0, 0, 1] 0 = Some (Inr f) \<and> rel4 f {route10} \<and> rel6 f {}"
proof -
  have t: "tadd (r4 ''none'' [10, 0, 0, 0] [255, 0, 0, 0] [10, 0, 0, 1] 0) {} = {route10}" by (simp add: tadd_def route10_def)
  show ?thesis
    using v4addroute_ok [OF empty_rel(1) sample_masks(1), of "''none''" "[10, 0, 0, 0]" "[10, 0, 0, 1]" 0, unfolded t] empty_rel(2)
    by (auto simp: rel4_def rel6_def)
qed

lemma one_route6: "\<exists>f. v6addroute empty_fs ''none'' site mask64 site 0 = Some (Inr f) \<and> rel6 f {route6}"
proof -
  have t: "tadd (r6 ''none'' site mask64 site 0) {} = {route6}" by (simp add: tadd_def route6_def)
  show ?thesis
    using v6addroute_ok [OF empty_rel(2) sample_masks(3), of 0 "''none''" site site, unfolded t] by auto
qed

text \<open>The outcome of a write: it returned or raised an error, and the tables are well formed.\<close>

definition rwsafe :: "(fault + (rwerror + Fs \<times> IPaux option)) option \<Rightarrow> bool" where
  "rwsafe m \<longleftrightarrow> (case m of
       Some (Inr (Inl e)) \<Rightarrow> True
     | Some (Inr (Inr (f, _))) \<Rightarrow> (\<exists>T U. rel4 f T \<and> rel6 f U)
     | _ \<Rightarrow> False)"

text \<open>The range of a route covers the address it was made for.\<close>

lemma r4_hits:
  assumes "v4mask msk"
  shows "hits (unat (nhgetl a)) (core (r4 tag a msk gate ty))"
proof -
  let ?a = "nhgetl a" and ?m = "nhgetl msk"
  have "?a AND ?m \<le> ?a" by (simp add: word_and_le2)
  moreover have "?a \<le> ?a AND ?m OR NOT ?m"
  proof -
    have "?a AND ?m OR NOT ?m = ?a OR NOT ?m" by (rule bit_word_eqI) (auto simp: bit_simps)
    then show ?thesis by (simp add: le_word_or2)
  qed
  ultimately show ?thesis
    by (simp add: hits_def lo_def hi_def core_def r4_def v4fill_def zeroroute_def tst_def setf_def Rv4_def word_le_nat_alt)
qed

section \<open>Properties\<close>

text \<open>C2: Any sequence of additions and removals of v4 prefix routes runs to its end without a panic,
  and what a lookup of any address then finds is the most specific route of the set of routes that the
  commands describe.\<close>

theorem v4_routes:
  assumes "rel4 f T" "\<forall>c \<in> set cs. okcmd 4 v4mask (\<lambda>_. True) c"
  shows "\<exists>f'. runcmds v4addroute v4delroute cs f = Some (Inr f') \<and> rel4 f' (fold (speccmd r4 0) cs T) \<and>
    (\<forall>a. best (unat (nhgetl a)) (fold (speccmd r4 0) cs T) (find4 f' a))"
  by (rule ip4.cmds_ok [OF assms])

theorem v4_routes_witness:
  "\<exists>f'. runcmds v4addroute v4delroute [net10, net101, del10] empty_fs = Some (Inr f') \<and>
    rel4 f' (fold (speccmd r4 0) [net10, net101, del10] {}) \<and>
    (\<forall>a. best (unat (nhgetl a)) (fold (speccmd r4 0) [net10, net101, del10] {}) (find4 f' a))"
  using sample_masks by (intro v4_routes empty_rel) (simp add: net10_def net101_def del10_def)

text \<open>C3: The same for v6 routes.\<close>

theorem v6_routes:
  assumes "rel6 f T" "\<forall>c \<in> set cs. okcmd 16 v6mask (\<lambda>ty. \<not> tst ty Rv4) c"
  shows "\<exists>f'. runcmds v6addroute v6delroute cs f = Some (Inr f') \<and> rel6 f' (fold (speccmd r6 0) cs T) \<and>
    (\<forall>a. best (val6 (v6words a)) (fold (speccmd r6 0) cs T) (find6 f' a))"
  by (rule ip6.cmds_ok [OF assms])

theorem v6_routes_witness:
  "\<exists>f'. runcmds v6addroute v6delroute [net6] empty_fs = Some (Inr f') \<and> rel6 f' (fold (speccmd r6 0) [net6] {}) \<and>
    (\<forall>a. best (val6 (v6words a)) (fold (speccmd r6 0) [net6] {}) (find6 f' a))"
  using sample_masks by (intro v6_routes empty_rel) (simp add: net6_def site_def)





text \<open>C15: The flush command ends, and removes exactly the routes that carry the tag and are not an
  interface's, from both forests.\<close>

theorem flush_routes:
  assumes "rel4 f T" "rel6 f U"
  shows "\<exists>f'. routewrite_flush mapped f tag = Some (Inr f') \<and> rel4 f' {x \<in> T. \<not> flushes tag x} \<and> rel6 f' {x \<in> U. \<not> flushes tag x}"
  by (rule routewrite_flush_ok [OF assms])

theorem flush_routes_witness:
  "\<exists>f f'. rel4 f {route10} \<and> routewrite_flush mapped f (Some ''none'') = Some (Inr f') \<and> rel4 f' {}"
proof -
  obtain f where f: "rel4 f {route10}" "rel6 f {}" using one_route4 by blast
  have "{x \<in> {route10}. \<not> flushes (Some ''none'') x} = {}"
    by (auto simp: route10_def flushes_def r4_def v4fill_def zeroroute_def Rifc_def Rv4_def tst_def setf_def)
  with flush_routes [OF f, of "Some ''none''"] f show ?thesis by metis
qed

text \<open>C32: Printing a v4 route and adding what was printed gives the route back: address, mask and
  gateway survive the conversion.\<close>

theorem convroute_v4:
  assumes "length msk = 4" "length v4prefix = 16" "convroute v4prefix xof (r4 tag a msk gate ty) = (addr, m, g, t, n)"
  shows "r4 tag (drop 12 addr) (drop 12 m) (drop 12 g) ty = r4 tag a msk gate ty \<and> length addr = 16 \<and> drop 12 m = msk \<and> n = -1"
proof -
  have e: "addr = take 12 v4prefix @ hnputl (nhgetl a AND nhgetl msk)" "m = replicate 12 0xff @ msk"
    "g = take 12 v4prefix @ take 4 gate" "n = -1"
    using assms(3) unfolding convroute_r4 [OF assms(1,2)] by simp_all
  show ?thesis using assms(2) by (simp add: e r4_def and.assoc v4fill_def)
qed

theorem convroute_v4_witness:
  "r4 ''none'' (hnputl (nhgetl [10, 9, 9, 9] AND nhgetl [255, 0, 0, 0])) [255, 0, 0, 0] [10, 0, 0, 1] 0 = r4 ''none'' [10, 9, 9, 9] [255, 0, 0, 0] [10, 0, 0, 1] 0"
  using convroute_v4 [where msk = "[255, 0, 0, 0]" and a = "[10, 9, 9, 9]" and v4prefix = mapped and gate = "[10, 0, 0, 1]" and tag = "''none''" and ty = 0, OF _ _ convroute_r4]
  by (simp add: mapped_def)

text \<open>C33: The same for v6 routes.\<close>

theorem convroute_v6:
  assumes "length msk = 16" "\<not> tst ty Rv4" "convroute v4prefix xof (r6 tag a msk gate ty) = (addr, m, g, t, n)"
  shows "r6 tag addr m g ty = r6 tag a msk gate ty \<and> m = msk \<and> n = -1"
proof -
  have e: "addr = concat (map hnputl (v6start a msk))" "m = msk" "g = take 16 gate" "n = -1"
    using assms(3) by (auto simp: convroute_r6 [OF assms(1,2)])
  show ?thesis by (simp add: e r6_def v6_again v6fill_def)
qed

theorem convroute_v6_witness:
  "r6 ''none'' (concat (map hnputl (v6start site mask64))) mask64 (take 16 site) 0 = r6 ''none'' site mask64 site 0"
  using convroute_v6 [where msk = mask64 and a = site and v4prefix = mapped and gate = site and tag = "''none''" and ty = 0, OF _ _ convroute_r6]
  by (simp add: mask64_def)

text \<open>C38: The tag of a channel is padded with blanks to four characters, and a flush compares four
  characters with the tag as it was typed. So, after a channel has written \<^verbatim>\<open>tag t\<close> with a tag of less
  than four characters and added a route, \<^verbatim>\<open>flush t\<close> leaves that route in the table and the addresses it
  covers routed.\<close>

theorem flush_short_tag:
  fixes parseip parseipmask isv4 findipifc ifcidof v4tov6
  defines "rw \<equiv> routewrite mapped parseip parseipmask isv4 findipifc ifcidof v4tov6"
  assumes "rel4 f T" "rel6 f U" "length t < 4" "parseip a = Some addr" "parseip g = Some gate"
    "take 12 addr = take 12 mapped" "v4mask (drop 12 (parseipmask m))"
    "\<And>tag. \<forall>x \<in> T. \<not> sameas (r4 tag (drop 12 addr) (drop 12 (parseipmask m)) (drop 12 gate) 0) x"
  shows "\<exists>(aux1::IPaux) f2 f3 T3. rw f (Some aux) [''tag'', t] = Some (Inr (Inr (f, Some aux1))) \<and>
    rw f (Some aux1) [''add'', a, m, g] = Some (Inr (Inr (f2, Some aux1))) \<and>
    rw f2 (Some aux1) [''flush'', t] = Some (Inr (Inr (f3, Some aux1))) \<and>
    rel4 f3 T3 \<and> core (r4 (x_tag aux1) (drop 12 addr) (drop 12 (parseipmask m)) (drop 12 gate) 0) \<in> T3 \<and>
    find4 f3 (drop 12 addr) \<noteq> None"
proof -
  define aux1 where "aux1 = newipaux (x_owner aux) t"
  let ?r = "r4 (x_tag aux1) (drop 12 addr) (drop 12 (parseipmask m)) (drop 12 gate) 0"
  have "tadd ?r T = insert (core ?r) T" using assms(9) [of "x_tag aux1"] by (auto simp: tadd_def)
  then obtain f2 where f2: "v4addroute f (x_tag aux1) (drop 12 addr) (drop 12 (parseipmask m)) (drop 12 gate) 0 = Some (Inr f2)"
    "rel4 f2 (insert (core ?r) T)" "rel6 f2 U"
    using v4addroute_ok [OF assms(2,8), of "x_tag aux1" "drop 12 addr" "drop 12 gate" 0] assms(3)
    by (fastforce simp: rel4_def rel6_def)
  obtain f3 where f3: "routewrite_flush mapped f2 (Some t) = Some (Inr f3)"
    "rel4 f3 {x \<in> insert (core ?r) T. \<not> flushes (Some t) x}"
    using routewrite_flush_ok [OF f2(2,3)] by blast
  have "x_tag aux1 = t @ replicate (4 - length t) (CHR '' '')" using assms(4) by (simp add: aux1_def newipaux_def)
  moreover have "length (t @ replicate (4 - length t) (CHR '' '')) \<noteq> length t" using assms(4) by simp
  ultimately have "take 4 t \<noteq> take 4 (take 4 (x_tag aux1))"
    using assms(4) by (metis append_take_drop_id length_append length_replicate le_add_diff_inverse less_imp_le_nat order_refl take_all)
  then have "\<not> flushes (Some t) ?r" by (simp add: flushes_def r4_def v4fill_def)
  then have m: "core ?r \<in> {x \<in> insert (core ?r) T. \<not> flushes (Some t) x}" by simp
  moreover have "hits (unat (nhgetl (drop 12 addr))) (core ?r)" by (rule r4_hits [OF assms(8)])
  ultimately have "find4 f3 (drop 12 addr) \<noteq> None"
    using find4_ok [OF f3(2), of "drop 12 addr"] by (cases "find4 f3 (drop 12 addr)") (auto simp: best_def)
  then show ?thesis
    using f2(1) f3 m assms(5-7)
    by (intro exI [of _ aux1] exI [of _ f2] exI [of _ f3]) (auto simp: rw_def routewrite_def Let_def aux1_def)
qed

theorem flush_short_tag_witness:
  "\<exists>aux1 f2 f3 T3. let rw = routewrite mapped (\<lambda>_. Some mapped) (\<lambda>_. mask64) (\<lambda>_. True) (\<lambda>_ _. None) (\<lambda>_. 0) id in
    rw empty_fs (Some (newipaux ''glenda'' ''none'')) [''tag'', ''ab''] = Some (Inr (Inr (empty_fs, Some aux1))) \<and>
    rw empty_fs (Some aux1) [''add'', ''0'', ''/64'', ''0''] = Some (Inr (Inr (f2, Some aux1))) \<and>
    rw f2 (Some aux1) [''flush'', ''ab''] = Some (Inr (Inr (f3, Some aux1))) \<and> rel4 f3 T3 \<and> find4 f3 (drop 12 mapped) \<noteq> None"
proof -
  have m: "v4mask (drop 12 mask64)" by (auto simp: v4mask_def mask64_def nhgetl_def mask_eq_exp_minus_1 intro: exI [of _ 32])
  show ?thesis
    unfolding Let_def
    using flush_short_tag [OF empty_rel, of "''ab''" "\<lambda>_. Some mapped" "''0''" mapped "''0''" mapped "\<lambda>_. mask64" "''/64''"] m
    by simp blast
qed

text \<open>C16: A command line with at least one field, written through an attached channel, never faults
  and never loops, and leaves two well-formed tables; it fails only with the errors of the code. The one
  restriction is that a route is added or removed with a mask that is a prefix of ones; no other field is
  restricted, and nothing is assumed of the interfaces that a lookup finds.\<close>

theorem routewrite_safe:
  assumes "rel4 f T" "rel6 f U" "cb \<noteq> []"
    "hd cb \<in> {''add'', ''remove''} \<and> 3 \<le> length cb \<longrightarrow> (case parseip (cb ! 1) of
       None \<Rightarrow> True
     | Some addr \<Rightarrow> if take 12 addr = take 12 mapped then v4mask (drop 12 (parseipmask (cb ! 2)))
                    else v6mask (parseipmask (cb ! 2)))"
  shows "rwsafe (routewrite mapped parseip parseipmask isv4 findipifc ifcidof v4tov6 f (Some aux) cb)"
proof -
  let ?ret = "\<lambda>m. rwsafe (map_option (map_sum id (\<lambda>f. Inr (f, Some aux))) m)"
  have r: "?ret m" if "m = Some (Inr f')" "rel4 f' T'" "rel6 f' U'" for m f' T' U'
    using that by (auto simp: rwsafe_def)
  have d4: "?ret (v4delroute f a msk)" if "v4mask msk" for a msk
    using v4delroute_ok [OF assms(1) that, of a] assms(2) r by (fastforce simp: rel4_def rel6_def)
  have d6: "?ret (v6delroute f a msk)" if "v6mask msk" for a msk
    using v6delroute_ok [OF assms(2) that, of a] assms(1) r by (fastforce simp: rel4_def rel6_def)
  have a4: "?ret (v4addroute f tag a msk g 0)" if "v4mask msk" for tag a msk g
    using v4addroute_ok [OF assms(1) that, of tag a g 0] assms(2) r by (fastforce simp: rel4_def rel6_def)
  have a6: "?ret (v6addroute f tag a msk g 0)" if "v6mask msk" for tag a msk g
    using v6addroute_ok [OF assms(2) that, of 0 tag a g] assms(1) r by (fastforce simp: rel4_def rel6_def)
  have fl: "?ret (routewrite_flush mapped f tag)" for tag
    using routewrite_flush_ok [OF assms(1,2), of tag] r by blast
  have e: "rwsafe (Some (Inr (Inl e)))" "rwsafe (Some (Inr (Inr (f, x))))"
    "rwsafe (Some (Inr (Inr (snd (iproute isv4 findipifc ifcidof mapped v4tov6 f a), x))))" for e x a
    using assms(1,2) iproute_keeps [OF assms(1,2), of isv4 findipifc ifcidof mapped v4tov6 a] by (simp_all add: rwsafe_def) blast+
  have add: "hd cb = ''add'' \<Longrightarrow> ?thesis"
    using assms(3,4) unfolding routewrite_def Let_def by (auto simp: a4 a6 e split: option.split)
  have rem: "hd cb = ''remove'' \<Longrightarrow> ?thesis"
    using assms(3,4) unfolding routewrite_def Let_def by (auto simp: d4 d6 e split: option.split)
  have "hd cb \<noteq> ''add'' \<Longrightarrow> hd cb \<noteq> ''remove'' \<Longrightarrow> ?thesis"
    using assms(3) unfolding routewrite_def Let_def by (simp add: fl e split: option.split)
  then show ?thesis using add rem by blast
qed

theorem routewrite_safe_witness:
  "\<exists>f. rel4 f {route10} \<and> rwsafe (routewrite mapped (\<lambda>_. Some site) (\<lambda>_. mask64) (\<lambda>_. False) (\<lambda>_ _. None) (\<lambda>_. 0) id f
    (Some (newipaux ''glenda'' ''none'')) [''add'', ''2001:db8::'', ''/64'', ''2001:db8::''])"
proof -
  obtain f where f: "rel4 f {route10}" "rel6 f {}" using one_route4 by blast
  then show ?thesis using sample_masks(3)
    by (intro exI [of _ f] conjI routewrite_safe [OF f]) (simp_all add: site_def mapped_def)
qed

text \<open>An empty command line passes a nil string to \<^verbatim>\<open>strcmp\<close>.\<close>

lemma routewrite_empty:
  "routewrite v4prefix parseip parseipmask isv4 findipifc ifcidof v4tov6 f aux [] = Some (Inl Fault)"
  by (simp add: routewrite_def)

end
