(* ===== verification/Ipv4.thy ===== *)
theory Ipv4
  imports Blocklist Qlock Route
begin

text \<open>
  IPv4 (\<^verbatim>\<open>ip/ip.c\<close>): output with fragmentation, input with reassembly and forwarding, the header checksum.

  The reassembly state lives in the blocks themselves: a \<^verbatim>\<open>struct Ipfrag\<close> lies at the base of the buffer of
  each queued fragment, below its data, and is read and written there in the byte order of the amd64.
  \<open>IP\<close> is \<^verbatim>\<open>struct IP\<close> for version 4, its two lists of \<^verbatim>\<open>Fragment4\<close> in the order of the links. \<open>Ips\<close> is what the
  routines share: the routing tables, the reassembly queues, the locks of the interfaces, the
  allocator of blocks, and \<open>s_out\<close>, the calls that leave this file, in order.
\<close>

section \<open>Bytes\<close>

definition nhgets :: "byte list \<Rightarrow> ushort" where
  "nhgets p = push_bit 8 (ucast (p ! 0)) OR ucast (p ! 1)"

definition hnputs :: "ushort \<Rightarrow> byte list" where
  "hnputs v = [ucast (drop_bit 8 v), ucast v]"

definition IP4HDR :: int where "IP4HDR = 20"
definition IP_MF :: ushort where "IP_MF = 0x2000"
definition IP_DF :: ushort where "IP_DF = 0x4000"
definition IP_VER4 :: byte where "IP_VER4 = 0x40"
definition IP_HLEN4 :: byte where "IP_HLEN4 = 5"
definition IP_MAX :: int where "IP_MAX = 65536"
definition IPFRAGSZ :: int where "IPFRAGSZ = 4"

text \<open>Loads and stores relative to \<^verbatim>\<open>rp\<close>; outside of the buffer they fault.\<close>

definition hget :: "Block \<Rightarrow> int \<Rightarrow> int \<Rightarrow> 'k \<Rightarrow> (byte list, 'k) kres" where
  "hget b i n k = memmove_out b (b_rp b + i) n k"

definition hput :: "Block \<Rightarrow> int \<Rightarrow> byte list \<Rightarrow> 'k \<Rightarrow> (Block, 'k) kres" where
  "hput b i bs k = memmove_in b (b_rp b + i) bs k"

text \<open>The Ipfrag of a block.\<close>

definition le16 :: "byte list \<Rightarrow> ushort" where
  "le16 p = push_bit 8 (ucast (p ! 1)) OR ucast (p ! 0)"

definition st16 :: "ushort \<Rightarrow> byte list" where
  "st16 v = [ucast v, ucast (drop_bit 8 v)]"

definition foff :: "Block \<Rightarrow> ushort" where "foff b = le16 (bslice 0 2 (b_data b))"
definition flen :: "Block \<Rightarrow> ushort" where "flen b = le16 (bslice 2 2 (b_data b))"
definition setfoff :: "ushort \<Rightarrow> Block \<Rightarrow> Block" where "setfoff v b = b\<lparr>b_data := bsplice 0 (st16 v) (b_data b)\<rparr>"
definition setflen :: "ushort \<Rightarrow> Block \<Rightarrow> Block" where "setflen v b = b\<lparr>b_data := bsplice 2 (st16 v) (b_data b)\<rparr>"

section \<open>State\<close>

datatype Ipstat = Forwarding | DefaultTTL | InReceives | InHdrErrors | InAddrErrors | ForwDatagrams | InUnknownProtos
  | InDiscards | InDelivers | OutRequests | OutDiscards | OutNoRoutes | ReasmTimeout | ReasmReqds | ReasmOKs
  | ReasmFails | FragOKs | FragFails | FragCreates

record Fragment4 =
  g_blist :: "Block list"
  g_src :: ulong
  g_dst :: ulong
  g_id :: ushort
  g_age :: ulong

record IP =
  ip_stats :: "Ipstat \<Rightarrow> 64 word"
  ip_flist :: "Fragment4 list"
  ip_ffree :: "Fragment4 list"
  ip_id4 :: int
  ip_routing :: int

definition stat :: "Ipstat \<Rightarrow> IP \<Rightarrow> IP" where
  "stat c ip = ip\<lparr>ip_stats := (ip_stats ip)(c := ip_stats ip c + 1)\<rparr>"

text \<open>
  \<open>initfrag\<close> for version 4; \<open>mem\<close> says whether \<^verbatim>\<open>malloc\<close>, which clears the memory, succeeds. The structure itself comes
  cleared from \<^verbatim>\<open>smalloc\<close>, which waits for memory.
\<close>

definition initfrag :: "bool \<Rightarrow> nat \<Rightarrow> IP \<Rightarrow> fault + IP" where
  "initfrag mem sz ip =
     (if \<not> mem then Inl (Panic ''initfrag'')
      else Inr (ip\<lparr>ip_ffree := replicate sz \<lparr>g_blist = [], g_src = 0, g_dst = 0, g_id = 0, g_age = 0\<rparr>\<rparr>))"

definition ip_zero :: IP where
  "ip_zero = \<lparr>ip_stats = \<lambda>_. 0, ip_flist = [], ip_ffree = [], ip_id4 = 0, ip_routing = 0\<rparr>"

definition ip_init :: "bool \<Rightarrow> fault + IP" where "ip_init mem = initfrag mem 100 ip_zero"

definition iprouting :: "int \<Rightarrow> IP \<Rightarrow> IP" where
  "iprouting on ip =
     (let ip = ip\<lparr>ip_routing := on\<rparr> in
      ip\<lparr>ip_stats := (ip_stats ip)(Forwarding := if on = 0 then 2 else 1)\<rparr>)"

section \<open>The header checksum\<close>

text \<open>The loop over the \<open>len\<close> bytes at \<open>addr\<close>; it reads whole words.\<close>

function cksum_loop :: "byte list \<Rightarrow> int \<Rightarrow> ulong \<Rightarrow> ulong" where
  "cksum_loop addr len acc =
     (if len > 0 then cksum_loop (drop 2 addr) (len - 2) (acc + (push_bit 8 (ucast (addr ! 0)) OR ucast (addr ! 1))) else acc)"
  by pat_completeness auto
termination by (relation "measure (\<lambda>(addr, len, acc). nat len)") auto

declare cksum_loop.simps [simp del]

definition hdrlen :: "byte \<Rightarrow> int" where
  "hdrlen vihl = int (unat (push_bit 2 (vihl AND 0xf)))"

definition ipcsum :: "byte list \<Rightarrow> ushort" where
  "ipcsum addr =
     (let sum = cksum_loop addr (hdrlen (addr ! 0)) 0;
          sum = (sum AND 0xffff) + drop_bit 16 sum;
          sum = (sum AND 0xffff) + drop_bit 16 sum
      in ucast (sum XOR 0xffff))"

text \<open>\<^verbatim>\<open>ipcsum(&eh->vihl)\<close> on the header in a block.\<close>

definition blkcsum :: "Block \<Rightarrow> 'k \<Rightarrow> (ushort, 'k) kres" where
  "blkcsum b k = kbind (hget b 0 1 k) (\<lambda>v k. kbind (hget b 0 (if v ! 0 AND 0xf = 0 then 1 else hdrlen (v ! 0)) k) (\<lambda>h k. Inr (ipcsum h, k)))"

section \<open>Reassembly\<close>

text \<open>\<^verbatim>\<open>ipfragfree4\<close> on the queue at place \<open>i\<close> of the list, and its part without the unlinking.\<close>

definition recycle :: "Fragment4 \<Rightarrow> IP \<Rightarrow> Kern \<Rightarrow> IP \<times> Kern" where
  "recycle frag ip k =
     (ip\<lparr>ip_ffree := frag\<lparr>g_src := 0, g_id := 0, g_blist := []\<rparr> # ip_ffree ip\<rparr>, freeblist (g_blist frag) k)"

definition ipfragfree4 :: "nat \<Rightarrow> IP \<Rightarrow> Kern \<Rightarrow> IP \<times> Kern" where
  "ipfragfree4 i ip k =
     recycle (ip_flist ip ! i) (ip\<lparr>ip_flist := take i (ip_flist ip) @ drop (Suc i) (ip_flist ip)\<rparr>) k"

definition ipfragallo4 :: "ulong \<Rightarrow> IP \<Rightarrow> Kern \<Rightarrow> (Fragment4 \<times> IP, Kern) kres" where
  "ipfragallo4 now ip k =
     (if ip_ffree ip = [] \<and> ip_flist ip = [] then Inl Fault
      else
        let (ip, k) = (if ip_ffree ip = [] then ipfragfree4 (length (ip_flist ip) - 1) ip k else (ip, k));
            f = (hd (ip_ffree ip))\<lparr>g_age := now + 30000\<rparr>
        in Inr ((f, ip\<lparr>ip_ffree := tl (ip_ffree ip), ip_flist := f # ip_flist ip\<rparr>), k))"

text \<open>The search for the queue of a fragment, which frees the old queues before it; \<open>pre\<close> is what it passed, reversed.\<close>

fun findq :: "ulong \<Rightarrow> ulong \<Rightarrow> ulong \<Rightarrow> ushort \<Rightarrow> Fragment4 list \<Rightarrow> Fragment4 list \<Rightarrow> IP \<Rightarrow> Kern \<Rightarrow> nat option \<times> IP \<times> Kern" where
  "findq now src dst ident pre [] ip k = (None, ip\<lparr>ip_flist := rev pre\<rparr>, k)"
| "findq now src dst ident pre (f # fs) ip k =
     (if g_src f = src \<and> g_dst f = dst \<and> g_id f = ident then (Some (length pre), ip\<lparr>ip_flist := rev pre @ f # fs\<rparr>, k)
      else if g_age f < now then
        (let (ip, k) = recycle f (stat ReasmTimeout ip) k in findq now src dst ident pre fs ip k)
      else findq now src dst ident (f # pre) fs ip k)"

text \<open>The place of a fragment in its queue, and the trimming of the fragments after it up to byte \<open>fend\<close>.\<close>

fun splitq :: "ushort \<Rightarrow> Block list \<Rightarrow> Block list \<times> Block list" where
  "splitq ofs [] = ([], [])"
| "splitq ofs (bl # bs) = (if ofs > foff bl then (let (pre, post) = splitq ofs bs in (bl # pre, post)) else ([], bl # bs))"

fun trimq :: "int \<Rightarrow> Block list \<Rightarrow> Kern \<Rightarrow> (Block list, Kern) kres" where
  "trimq fend [] k = Inr ([], k)"
| "trimq fend (l # ls) k =
     (let ovlap = fend - int (unat (foff l)) in
      if ovlap \<le> 0 then Inr (l # ls, k)
      else if ovlap < int (unat (flen l)) then
        let l = setfoff (foff l + of_int ovlap) (setflen (flen l - of_int ovlap) l) in
        kbind (memmove_bb l (b_rp l + ovlap) l (b_rp l) IP4HDR k) (\<lambda>l k.
        Inr (l\<lparr>b_rp := b_rp l + ovlap\<rparr> # ls, k))
      else trimq fend ls (freeb l k))"

text \<open>Is the packet complete: no gap up to a fragment without \<^verbatim>\<open>IP_MF\<close>.\<close>

fun complete :: "Block list \<Rightarrow> int \<Rightarrow> 'k \<Rightarrow> (bool, 'k) kres" where
  "complete [] pktposn k = Inr (False, k)"
| "complete (bl # bs) pktposn k =
     (if int (unat (foff bl)) \<noteq> pktposn then Inr (False, k)
      else kbind (hget bl 6 1 k) (\<lambda>fr k.
        if fr ! 0 AND ucast (drop_bit 8 IP_MF) = 0 then Inr (True, k)
        else complete bs (pktposn + int (unat (flen bl))) k))"

text \<open>Pulling up the headers of all but the first fragment.\<close>

fun striphdrs :: "Block list \<Rightarrow> int \<Rightarrow> Block list \<times> int" where
  "striphdrs [] len = ([], len)"
| "striphdrs (bl # bs) len =
     (let fragsize = int (unat (flen bl)); (bs, len) = striphdrs bs (len + fragsize);
          rp = b_rp bl + IP4HDR
      in (bl\<lparr>b_rp := rp, b_wp := rp + fragsize\<rparr> # bs, len))"

definition assemble :: "Block list \<Rightarrow> 'k \<Rightarrow> (Block list, 'k) kres" where
  "assemble bl k = (case bl of
     [] \<Rightarrow> Inl Fault
   | b # bs \<Rightarrow>
       kbind (hget b 2 2 k) (\<lambda>l k.
       let len = int (unat (nhgets l)); b = b\<lparr>b_wp := b_rp b + len\<rparr>; (bs, len) = striphdrs bs len in
       kbind (hput b 2 (hnputs (of_int len)) k) (\<lambda>b k. Inr (b # bs, k))))"

text \<open>
  The second half of \<^verbatim>\<open>ip4reassemble\<close>: the fragment \<open>bp\<close> goes into the queue \<open>q\<close>. The result is the packet, if it is
  complete, and the queue that is left.
\<close>

definition enqfrag :: "Block \<Rightarrow> Block list \<Rightarrow> Kern \<Rightarrow> (Block list option \<times> Block list, Kern) kres" where
  "enqfrag bp q k =
     (let (pre, post) = splitq (foff bp) q;
          ovlap = (if pre = [] then 0 else int (unat (foff (last pre))) + int (unat (flen (last pre))) - int (unat (foff bp)))
      in if ovlap > 0 \<and> ovlap \<ge> int (unat (flen bp)) then Inr ((None, q), freeb bp k)
         else
           let pre = (if ovlap > 0 then butlast pre @ [setflen (flen (last pre) - of_int ovlap) (last pre)] else pre) in
           kbind (trimq (int (unat (foff bp)) + int (unat (flen bp))) post k) (\<lambda>post k.
           let q = pre @ bp # post in
           kbind (complete q 0 k) (\<lambda>fin k.
           if fin then kbind (assemble q k) (\<lambda>r k. Inr ((Some r, []), k)) else Inr ((None, q), k))))"

text \<open>
  \<^verbatim>\<open>ip4reassemble\<close> of a chain, with the flags and offset of its header; the result is nil (\<open>[]\<close>) or a packet.
  After a \<^verbatim>\<open>padblock\<close> that had to copy the block, \<^verbatim>\<open>ih\<close> points into the freed one, and reading the
  length through it is a fault.
\<close>

definition ip4reassemble :: "ulong \<Rightarrow> ushort \<Rightarrow> Block list \<Rightarrow> IP \<Rightarrow> Kern \<Rightarrow> (Block list \<times> IP, Kern) kres" where
  "ip4reassemble now offset bp ip k = (case bp of [] \<Rightarrow> Inl Fault | b # _ \<Rightarrow>
     kbind (hget b 0 IP4HDR k) (\<lambda>ih k.
     let src = nhgetl (drop 12 ih); dst = nhgetl (drop 16 ih); id = nhgets (drop 4 ih) in
     kbind (if tl bp \<noteq> [] then pullupblock bp (blocklen bp) k else Inr (bp, k)) (\<lambda>bp k.
     case bp of [] \<Rightarrow> Inl Fault | b # _ \<Rightarrow>
     kbind (hget b 0 IP4HDR k) (\<lambda>ih k.
     let (f, ip, k) = findq now src dst id [] (ip_flist ip) ip k in
     if ih ! 1 = 0 \<and> offset AND NOT (IP_MF OR IP_DF) = 0 then
       (case f of
          Some i \<Rightarrow> let (ip, k) = ipfragfree4 i ip k in Inr ((bp, stat ReasmFails ip), k)
        | None \<Rightarrow> Inr ((bp, ip), k))
     else
       let pad = b_base b + IPFRAGSZ \<ge> b_rp b; freed = (pad \<and> b_rp b - b_base b < IPFRAGSZ) in
       kbind (if pad then padblock bp IPFRAGSZ k else Inr (bp, k)) (\<lambda>bp k.
       case bp of [] \<Rightarrow> Inl Fault | b # _ \<Rightarrow>
       if freed then Inl Fault
       else
         let b = (if pad then b\<lparr>b_rp := b_rp b + IPFRAGSZ\<rparr> else b);
             b = setflen (nhgets (drop 2 ih) - of_int IP4HDR) (setfoff (push_bit 3 offset) b)
         in case f of
              None \<Rightarrow>
                kbind (ipfragallo4 now ip k) (\<lambda>(f, ip) k.
                let f = f\<lparr>g_id := id, g_src := src, g_dst := dst, g_blist := [b]\<rparr>
                in Inr (([], stat ReasmReqds (ip\<lparr>ip_flist := f # tl (ip_flist ip)\<rparr>)), k))
            | Some i \<Rightarrow>
                kbind (enqfrag b (g_blist (ip_flist ip ! i)) k) (\<lambda>(r, q) k.
                let ip = ip\<lparr>ip_flist := (ip_flist ip)[i := (ip_flist ip ! i)\<lparr>g_blist := q\<rparr>]\<rparr> in
                case r of
                  None \<Rightarrow> Inr (([], ip), k)
                | Some bl \<Rightarrow> let (ip, k) = ipfragfree4 i ip k in Inr ((bl, stat ReasmOKs ip), k)))))))"


section \<open>Output\<close>

text \<open>
  An interface: its medium's header size (None without a medium), its unit, whether it reassembles what it forwards. The
  environment has the interfaces and what \<^verbatim>\<open>v4lookup\<close> needs; \<open>e_forme\<close> is \<^verbatim>\<open>ipforme\<close> of an IPv4 address and
  \<open>e_rcv\<close> says which protocols have a receiver.
\<close>

record Ipifc =
  i_hsize :: "int option"
  i_maxtu :: int
  i_reassemble :: bool

record Ienv =
  e_ifc :: "nat \<Rightarrow> Ipifc"
  e_find :: "byte list \<Rightarrow> byte \<Rightarrow> nat option"
  e_ifcid :: "nat \<Rightarrow> byte"
  e_v4prefix :: "byte list"
  e_v4tov6 :: "byte list \<Rightarrow> byte list"
  e_forme :: "byte list \<Rightarrow> bool"
  e_rcv :: "byte \<Rightarrow> bool"
  e_now :: ulong

datatype ipout = Bwrite nat "Block list" "byte list" | Cantfrag "Block list" int | Ttlexceeded nat "Block list"
  | Deliver byte nat "Block list" | V6input nat "Block list"

record Ips =
  s_fs :: Fs
  s_ip :: IP
  s_kern :: Kern
  s_locks :: "nat \<Rightarrow> RWlock"
  s_procs :: Procs
  s_out :: "ipout list"

definition inkern :: "(Kern \<Rightarrow> ('a, Kern) kres) \<Rightarrow> Ips \<Rightarrow> ('a, Ips) kres" where
  "inkern m s = (case m (s_kern s) of Inl e \<Rightarrow> Inl e | Inr (x, k) \<Rightarrow> Inr (x, s\<lparr>s_kern := k\<rparr>))"

definition ipstat :: "Ipstat \<Rightarrow> Ips \<Rightarrow> Ips" where "ipstat c s = s\<lparr>s_ip := stat c (s_ip s)\<rparr>"
definition emit :: "ipout \<Rightarrow> Ips \<Rightarrow> Ips" where "emit x s = s\<lparr>s_out := s_out s @ [x]\<rparr>"
definition dropb :: "Block list \<Rightarrow> Ips \<Rightarrow> Ips" where "dropb bp s = s\<lparr>s_kern := freeblist bp (s_kern s)\<rparr>"

definition ifcanrlock :: "nat \<Rightarrow> Ips \<Rightarrow> bool \<times> Ips" where
  "ifcanrlock i s = (let ((ok, q), ps) = canrlock (s_locks s i) (s_procs s) in (ok, s\<lparr>s_locks := (s_locks s)(i := q), s_procs := ps\<rparr>))"

definition ifrunlock :: "nat \<Rightarrow> Ips \<Rightarrow> (unit, Ips) kres" where
  "ifrunlock i s = (case runlock (s_locks s i) (s_procs s) of
     Inl e \<Rightarrow> Inl e
   | Inr (q, ps) \<Rightarrow> Inr ((), s\<lparr>s_locks := (s_locks s)(i := q), s_procs := ps\<rparr>))"

text \<open>The inner loop of the fragmentation: \<open>chunk\<close> bytes into \<open>nb\<close>; the chunk that is left is not zero if the data end early.\<close>

fun fragcopy :: "Block \<Rightarrow> Block list \<Rightarrow> int \<Rightarrow> 'k \<Rightarrow> (Block \<times> Block list \<times> int, 'k) kres" where
  "fragcopy nb [] chunk k = Inr ((nb, [], chunk), k)"
| "fragcopy nb (x # xs) chunk k =
     (if chunk = 0 then Inr ((nb, x # xs, 0), k)
      else
        let blklen = (if BLEN x < chunk then BLEN x else chunk) in
        kbind (memmove_bb nb (b_wp nb) x (b_rp x) blklen k) (\<lambda>nb k.
        let nb = nb\<lparr>b_wp := b_wp nb + blklen\<rparr>; x = x\<lparr>b_rp := b_rp x + blklen\<rparr> in
        if b_rp x = b_wp x then fragcopy nb xs (chunk - blklen) k else Inr ((nb, x # xs, chunk - blklen), k)))"

text \<open>One fragment: the header \<open>eh\<close> of the packet and \<open>seglen\<close> bytes of data, in a block of room \<open>room\<close>.\<close>

definition mkfrag :: "byte list \<Rightarrow> ushort \<Rightarrow> int \<Rightarrow> int \<Rightarrow> ushort \<Rightarrow> Block list \<Rightarrow> Ips \<Rightarrow> (Block \<times> Block list \<times> int, Ips) kres" where
  "mkfrag eh lid room seglen fr xp s =
     kbind (inkern (allocb (IP4HDR + room)) s) (\<lambda>nb s.
     kbind (memmove_in nb (b_wp nb) eh s) (\<lambda>nb s.
     let nb = nb\<lparr>b_wp := b_wp nb + IP4HDR\<rparr> in
     kbind (hput nb 6 (hnputs fr) s) (\<lambda>nb s.
     kbind (hput nb 2 (hnputs (of_int (seglen + IP4HDR))) s) (\<lambda>nb s.
     kbind (hput nb 4 (hnputs lid) s) (\<lambda>nb s.
     fragcopy nb xp seglen s)))))"

text \<open>
  The outer loop. The segment length is positive where it is called. The result says whether all the data were sent.
\<close>

function fragloop :: "byte list \<Rightarrow> ushort \<Rightarrow> int \<Rightarrow> int \<Rightarrow> int \<Rightarrow> Block list \<Rightarrow> nat \<Rightarrow> byte list \<Rightarrow> Ips \<Rightarrow> (bool, Ips) kres" where
  "fragloop eh lid seglen fragoff dlen xp ifc gate s =
     (if fragoff < dlen \<and> 0 < seglen then
        let lastf = (fragoff + seglen \<ge> dlen); n = (if lastf then dlen - fragoff else seglen);
            fr = (if lastf then of_int (fragoff div 8) else of_int (fragoff div 8) OR IP_MF) in
        kbind (mkfrag eh lid seglen n fr xp s) (\<lambda>(nb, xp, chunk) s.
        if chunk \<noteq> 0 then Inr (False, dropb [nb] (ipstat FragFails (ipstat OutDiscards s)))
        else
          kbind (hput nb 10 [0, 0] s) (\<lambda>nb s.
          kbind (blkcsum nb s) (\<lambda>c s.
          kbind (hput nb 10 (hnputs c) s) (\<lambda>nb s.
          fragloop eh lid n (fragoff + n) dlen xp ifc gate (ipstat FragCreates (emit (Bwrite ifc [nb] gate) s))))))
      else Inr (True, s))"
  by pat_completeness auto
termination
  by (relation "measure (\<lambda>(eh, lid, seglen, fragoff, dlen, xp, ifc, gate, s). nat (dlen - fragoff))") (auto split: if_splits)

declare fragloop.simps [simp del]

text \<open>Skipping the header at the front of the chain.\<close>

fun skiphdr :: "Block list \<Rightarrow> int \<Rightarrow> 'k \<Rightarrow> (Block list, 'k) kres" where
  "skiphdr [] offset k = Inl Fault"
| "skiphdr (x # xs) offset k =
     (if offset \<noteq> 0 \<and> offset \<ge> BLEN x then skiphdr xs (offset - BLEN x) k else Inr (x\<lparr>b_rp := b_rp x + offset\<rparr> # xs, k))"

text \<open>Sending through the locked interface: whole, or in fragments; False leaves the block to be freed.\<close>

definition ipsend :: "Block \<Rightarrow> Block list \<Rightarrow> int \<Rightarrow> int \<Rightarrow> bool \<Rightarrow> nat \<Rightarrow> byte list \<Rightarrow> Ips \<Rightarrow> (bool \<times> Block, Ips) kres" where
  "ipsend b nxt len medialen gating ifc gate s =
     (if len \<le> medialen then
        kbind (if gating then Inr (b, s)
               else let s = s\<lparr>s_ip := (s_ip s)\<lparr>ip_id4 := ip_id4 (s_ip s) + 1\<rparr>\<rparr> in hput b 4 (hnputs (of_int (ip_id4 (s_ip s)))) s) (\<lambda>b s.
        kbind (hput b 2 (hnputs (of_int len)) s) (\<lambda>b s.
        kbind (if gating then Inr (b, s) else hput b 6 [0, 0] s) (\<lambda>b s.
        kbind (hput b 10 [0, 0] s) (\<lambda>b s.
        kbind (blkcsum b s) (\<lambda>c s.
        kbind (hput b 10 (hnputs c) s) (\<lambda>b s.
        if nxt \<noteq> [] then Inl (Panic ''assert'')
        else Inr ((True, b), emit (Bwrite ifc [b] gate) s)))))))
      else
        kbind (hget b 6 1 s) (\<lambda>fr s.
        if fr ! 0 AND ucast (drop_bit 8 IP_DF) \<noteq> 0 then
          Inr ((False, b), emit (Cantfrag (b # nxt) medialen) (ipstat OutDiscards (ipstat FragFails s)))
        else
          let seglen = (medialen - IP4HDR) AND NOT 7 in
          if seglen < 8 then Inr ((False, b), ipstat OutDiscards (ipstat FragFails s))
          else
            kbind (if gating then kbind (hget b 4 2 s) (\<lambda>l s. Inr (nhgets l, s))
                   else let s = s\<lparr>s_ip := (s_ip s)\<lparr>ip_id4 := ip_id4 (s_ip s) + 1\<rparr>\<rparr> in Inr (of_int (ip_id4 (s_ip s)), s)) (\<lambda>lid s.
            kbind (hget b 0 IP4HDR s) (\<lambda>eh s.
            kbind (skiphdr (b # nxt) IP4HDR s) (\<lambda>xp s.
            let fragoff = (if gating then int (unat (nhgets (drop 6 eh))) * 8 else 0) in
            kbind (fragloop eh lid seglen fragoff (len - IP4HDR + fragoff) xp ifc gate s) (\<lambda>fin s.
            Inr ((False, b), if fin then ipstat FragOKs s else s)))))))"

text \<open>Where to send: the interface, and the address to resolve.\<close>

definition ipgate :: "Ienv \<Rightarrow> Block \<Rightarrow> byte list \<Rightarrow> Route \<Rightarrow> Ips \<Rightarrow> (nat \<times> byte list, Ips) kres" where
  "ipgate e b dst r s = (case rt_ifc r of
     None \<Rightarrow> Inl Fault
   | Some ifc \<Rightarrow>
       if tst (rt_type r) (Rifc OR Runi) then Inr ((ifc, dst), s)
       else if tst (rt_type r) (Rbcast OR Rmulti) then
         kbind (hget b 12 4 s) (\<lambda>src s.
         let (sr, fs, _) = v4lookup (e_find e) (e_ifcid e) (e_v4prefix e) (e_v4tov6 e) (s_fs s) src None;
             ifc = (case sr of Some sr \<Rightarrow> (if tst (rt_type sr) Runi then (case rt_ifc sr of Some i \<Rightarrow> i | None \<Rightarrow> ifc) else ifc) | None \<Rightarrow> ifc)
         in Inr ((ifc, dst), s\<lparr>s_fs := fs\<rparr>))
       else Inr ((ifc, rt_g4 r), s))"

definition ipoput4 :: "Ienv \<Rightarrow> Block list \<Rightarrow> bool \<Rightarrow> byte \<Rightarrow> byte \<Rightarrow> Conv option \<Rightarrow> int \<Rightarrow> Ips \<Rightarrow> (int, Ips) kres" where
  "ipoput4 e bp gating ttl tos c maxfrag s = (case bp of [] \<Rightarrow> Inl Fault | b # nxt \<Rightarrow>
     let s = ipstat OutRequests s; len = blocklen bp in
     kbind (if gating then kbind (hget b 2 2 s) (\<lambda>l s. Inr (int (unat (nhgets l)), s)) else Inr (len, s)) (\<lambda>chunk s.
     if chunk > len then Inr (0, dropb bp (ipstat OutDiscards s))
     else let len = chunk in
     if len \<ge> IP_MAX then Inr (0, dropb bp (ipstat OutDiscards s))
     else
       kbind (hget b 16 4 s) (\<lambda>dst s.
       let (r, fs, c) = v4lookup (e_find e) (e_ifcid e) (e_v4prefix e) (e_v4tov6 e) (s_fs s) dst c; s = s\<lparr>s_fs := fs\<rparr> in
       case r of
         None \<Rightarrow> Inr (-1, dropb bp (ipstat OutNoRoutes s))
       | Some r \<Rightarrow>
           kbind (ipgate e b dst r s) (\<lambda>(ifc, gate) s.
           kbind (if gating then Inr (b, s) else hput b 0 [IP_VER4 OR IP_HLEN4] s) (\<lambda>b s.
           kbind (hput b 8 [ttl] s) (\<lambda>b s.
           kbind (if gating then Inr (b, s) else hput b 1 [tos] s) (\<lambda>b s.
           let (ok, s) = ifcanrlock ifc s in
           if \<not> ok then Inr (0, dropb (b # nxt) s)
           else case i_hsize (e_ifc e ifc) of
             None \<Rightarrow> kbind (ifrunlock ifc s) (\<lambda>_ s. Inr (0, dropb (b # nxt) s))
           | Some hsize \<Rightarrow>
               let mtu = i_maxtu (e_ifc e ifc);
                   medialen = (if c \<noteq> None \<and> maxfrag \<noteq> 0 \<and> maxfrag < mtu then maxfrag else mtu) - hsize in
               kbind (ipsend b nxt len medialen gating ifc gate s) (\<lambda>(sent, b) s.
               kbind (ifrunlock ifc s) (\<lambda>_ s.
               Inr (0, if sent then s else dropb (b # nxt) s))))))))))"

section \<open>Input\<close>

text \<open>Reassembly from the IP input routine: the flag for more fragments goes into the field \<^verbatim>\<open>tos\<close>.\<close>

definition reassem :: "Ienv \<Rightarrow> Block list \<Rightarrow> Ips \<Rightarrow> (Block list, Ips) kres" where
  "reassem e bp s = (case bp of [] \<Rightarrow> Inl Fault | b # nxt \<Rightarrow>
     kbind (hget b 6 2 s) (\<lambda>fr s. let frag = nhgets fr in
     if frag = 0 then Inr (bp, s)
     else
       kbind (hput b 1 [if frag AND IP_MF \<noteq> 0 then 1 else 0] s) (\<lambda>b s.
       case ip4reassemble (e_now e) frag (b # nxt) (s_ip s) (s_kern s) of
         Inl f \<Rightarrow> Inl f
       | Inr ((bp, ip), k) \<Rightarrow> Inr (bp, s\<lparr>s_ip := ip, s_kern := k\<rparr>))))"

text \<open>A packet for another host.\<close>

definition ipforward :: "Ienv \<Rightarrow> nat \<Rightarrow> Block list \<Rightarrow> Ips \<Rightarrow> (unit, Ips) kres" where
  "ipforward e ifc bp s = (case bp of [] \<Rightarrow> Inl Fault | b # nxt \<Rightarrow>
     if ip_routing (s_ip s) = 0 then Inr ((), dropb bp s)
     else
       kbind (hget b 16 4 s) (\<lambda>dst s.
       let (r, fs, c) = v4lookup (e_find e) (e_ifcid e) (e_v4prefix e) (e_v4tov6 e) (s_fs s) dst (Some \<lparr>c_r = None, c_rgen = 0\<rparr>);
           s = s\<lparr>s_fs := fs\<rparr> in
       case r of
         None \<Rightarrow> Inr ((), dropb bp (ipstat OutDiscards s))
       | Some r \<Rightarrow>
           if rt_ifc r = Some ifc then Inr ((), dropb bp (ipstat OutDiscards s))
           else
             kbind (hget b 8 1 s) (\<lambda>hop s.
             if hop ! 0 < 1 then Inr ((), dropb bp (emit (Ttlexceeded ifc bp) (ipstat InHdrErrors s)))
             else case rt_ifc r of
               None \<Rightarrow> Inl (Panic ''nil route rfc'')
             | Some rifc \<Rightarrow>
                 kbind (if i_reassemble (e_ifc e rifc) then reassem e bp s else Inr (bp, s)) (\<lambda>bp s.
                 case bp of [] \<Rightarrow> Inr ((), s) | b # _ \<Rightarrow>
                 let s = ipstat ForwDatagrams s in
                 kbind (hget b 1 1 s) (\<lambda>tos s.
                 kbind (hget b 8 1 s) (\<lambda>hop s.
                 kbind (ipoput4 e bp True (hop ! 0 - 1) (tos ! 0) c 0 s) (\<lambda>_ s. Inr ((), s))))))))"

text \<open>A packet for this host.\<close>

definition iplocal :: "Ienv \<Rightarrow> nat \<Rightarrow> Block list \<Rightarrow> Ips \<Rightarrow> (unit, Ips) kres" where
  "iplocal e ifc bp s =
     kbind (reassem e bp s) (\<lambda>bp s.
     case bp of [] \<Rightarrow> Inr ((), s) | b # nxt \<Rightarrow>
     kbind (hput b 6 [0, 0] s) (\<lambda>b s.
     kbind (hget b 9 1 s) (\<lambda>proto s.
     if e_rcv e (proto ! 0) then Inr ((), emit (Deliver (proto ! 0) ifc (b # nxt)) (ipstat InDelivers s))
     else Inr ((), dropb (b # nxt) (ipstat InUnknownProtos (ipstat InDiscards s))))))"

text \<open>\<^verbatim>\<open>ipiput4\<close>; \<open>ck\<close> says that the medium has checked the header (\<^verbatim>\<open>Bipck\<close>).\<close>

definition ipiput4 :: "Ienv \<Rightarrow> bool \<Rightarrow> nat \<Rightarrow> Block list \<Rightarrow> Ips \<Rightarrow> (unit, Ips) kres" where
  "ipiput4 e ck ifc bp s = (case bp of [] \<Rightarrow> Inl Fault | b # _ \<Rightarrow>
     kbind (hget b 0 1 s) (\<lambda>v s.
     if v ! 0 AND 0xF0 \<noteq> IP_VER4 then Inr ((), emit (V6input ifc bp) s)
     else let s = ipstat InReceives s in
     kbind (if BLEN b < 64 then
              let hl = blocklen bp; hl = (if hl < IP4HDR then IP4HDR else hl); hl = (if hl > 64 then 64 else hl)
              in inkern (pullupblock bp hl) s
            else Inr (bp, s)) (\<lambda>bp s.
     case bp of [] \<Rightarrow> Inr ((), s) | b # nxt \<Rightarrow>
     kbind (if ck then Inr (0, s) else blkcsum b s) (\<lambda>sum s.
     if sum \<noteq> 0 then Inr ((), dropb bp (ipstat InHdrErrors s))
     else
       kbind (hget b 16 4 s) (\<lambda>dst s.
       let notforme = (\<not> e_forme e dst) in
       kbind (hget b 0 1 s) (\<lambda>v s.
       if v ! 0 AND 0x0F \<noteq> IP_HLEN4 then
         let hl = hdrlen (v ! 0) in
         if hl < IP4HDR then Inr ((), dropb bp (ipstat InHdrErrors s))
         else if notforme then ipforward e ifc bp s
         else
           kbind (hget b 2 2 s) (\<lambda>l s.
           let olen = int (unat (nhgets l)); dp = b_rp b + (hl - IP4HDR) in
           kbind (memmove_bb b dp b (b_rp b) IP4HDR s) (\<lambda>b s.
           let b = b\<lparr>b_rp := dp\<rparr> in
           kbind (hput b 0 [IP_VER4 OR IP_HLEN4] s) (\<lambda>b s.
           kbind (hput b 2 (hnputs (of_int (olen - hl + IP4HDR))) s) (\<lambda>b s.
           iplocal e ifc (b # nxt) s))))
       else if notforme then ipforward e ifc bp s else iplocal e ifc bp s)))))) "

end
