(* ===== verification/Reasm.thy ===== *)
theory Reasm
  imports Ipv4
begin

text \<open>
  Reassembly of IPv4 fragments against its specification: the queue of a datagram whose payload is \<open>P\<close> stands for the set of
  the byte positions received, and the datagram is delivered exactly when that set is all of them.
\<close>

declare of_nat_unat [simp del]

section \<open>Fields of a fragment\<close>

lemma length_st16 [simp]: "length (st16 v) = 2" by (simp add: st16_def)
lemma length_hnputs [simp]: "length (hnputs v) = 2" by (simp add: hnputs_def)

lemma two_bytes: "push_bit 8 (ucast (ucast (drop_bit 8 v) :: byte)) OR ucast (ucast v :: byte) = (v :: ushort)"
  by (rule bit_word_eqI) (auto simp: bit_simps)

lemma le16_st16 [simp]: "le16 (st16 v) = v"
  by (simp add: le16_def st16_def two_bytes)

lemma nhgets_hnputs [simp]: "nhgets (hnputs v) = v" "nhgets (hnputs v @ p) = v"
  by (simp_all add: nhgets_def hnputs_def two_bytes)

lemma bslice_bsplice_same [simp]: "length bs = n \<Longrightarrow> i + n \<le> length xs \<Longrightarrow> bslice i n (bsplice i bs xs) = bs"
  by (simp add: bslice_def bsplice_def)

lemma bslice_append: "bslice i m xs @ bslice (i + m) n xs = bslice i (m + n) xs"
  by (simp add: bslice_def take_add drop_drop add.commute)

lemma bslice_drop: "bslice i n xs @ drop (i + n) xs = drop i xs"
  unfolding bslice_def by (metis add.commute append_take_drop_id drop_drop)

lemma bslice_bsplice_in:
  assumes "j + length bs \<le> n" "i + n \<le> length xs"
  shows "bslice i n (bsplice (i + j) bs xs) = bsplice j bs (bslice i n xs)"
proof -
  have "drop i (bsplice (i + j) bs xs) = bsplice j bs (drop i xs)"
    using assms by (simp add: bsplice_def drop_take ac_simps)
  moreover have "take n (bsplice j bs ys) = bsplice j bs (take n ys)" if "n \<le> length ys" for ys
  proof -
    have "min n j = j" "j - n = 0" "take (n - j) bs = bs" using assms(1) by auto
    then show ?thesis using assms(1) that by (simp add: bsplice_def drop_take min.commute)
  qed
  ultimately show ?thesis using assms by (simp add: bslice_def)
qed

lemma bslice_bsplice_after:
  assumes "i + length bs \<le> j"
  shows "bslice j m (bsplice i bs xs) = (if i \<le> length xs then bslice j m xs else bslice j m (bsplice i bs xs))"
  using assms by (auto simp: bslice_def bsplice_def)

lemma setfrag_simps [simp]:
  "b_rp (setfoff v b) = b_rp b" "b_wp (setfoff v b) = b_wp b" "b_base (setfoff v b) = b_base b" "b_lim (setfoff v b) = b_lim b"
  "b_rp (setflen v b) = b_rp b" "b_wp (setflen v b) = b_wp b" "b_base (setflen v b) = b_base b" "b_lim (setflen v b) = b_lim b"
  "intr (setfoff v b) = intr b" "drv (setfoff v b) = drv b" "intr (setflen v b) = intr b" "drv (setflen v b) = drv b"
  by (simp_all add: setfoff_def setflen_def intr_def drv_def BALLOC_def)

lemma setfrag_len:
  assumes "4 \<le> length (b_data b)"
  shows "length (b_data (setfoff v b)) = length (b_data b)" "length (b_data (setflen v b)) = length (b_data b)"
  using assms by (simp_all add: setfoff_def setflen_def)

lemma setfrag_get:
  assumes "4 \<le> length (b_data b)"
  shows "foff (setfoff v b) = v" "flen (setfoff v b) = flen b" "flen (setflen v b) = v" "foff (setflen v b) = foff b"
proof -
  show "foff (setfoff v b) = v" "flen (setflen v b) = v" using assms by (simp_all add: foff_def flen_def setfoff_def setflen_def)
  show "flen (setfoff v b) = flen b" using assms by (simp add: flen_def setfoff_def bslice_bsplice_after)
  show "foff (setflen v b) = foff b" using assms by (simp add: foff_def setflen_def bslice_bsplice_before)
qed

lemma setfrag_above:
  assumes "4 \<le> length (b_data b)" "4 \<le> j"
  shows "bslice j m (b_data (setfoff v b)) = bslice j m (b_data b)" "bslice j m (b_data (setflen v b)) = bslice j m (b_data b)"
  using assms by (simp_all add: setfoff_def setflen_def bslice_bsplice_after)

section \<open>Fragments of a payload\<close>

abbreviation ofs :: "Block \<Rightarrow> nat" where "ofs b \<equiv> unat (foff b)"
abbreviation len :: "Block \<Rightarrow> nat" where "len b \<equiv> unat (flen b)"

text \<open>The header and the data a queued fragment holds; a fragment cut at its end keeps its old \<^verbatim>\<open>wp\<close>.\<close>

definition pos :: "Block \<Rightarrow> nat" where "pos b = nat (b_rp b - b_base b)"
definition hdr :: "Block \<Rightarrow> byte list" where "hdr b = bslice (pos b) 20 (b_data b)"
definition body :: "Block \<Rightarrow> byte list" where "body b = bslice (pos b + 20) (len b) (b_data b)"

definition mfset :: "byte list \<Rightarrow> bool" where "mfset h \<longleftrightarrow> h ! 6 AND ucast (drop_bit 8 IP_MF) \<noteq> 0"

text \<open>A slice of the payload \<open>P\<close>, with its flag right; the headers of first fragments satisfy \<open>H\<close> and hold their length.\<close>

definition okfr :: "(byte list \<Rightarrow> bool) \<Rightarrow> byte list \<Rightarrow> Block \<Rightarrow> bool" where
  "okfr H P b \<longleftrightarrow> b_base b + 4 \<le> b_rp b \<and> pos b + 20 + len b \<le> length (b_data b) \<and>
     b_lim b = b_base b + int (length (b_data b)) \<and> 0 < len b \<and> ofs b + len b \<le> length P \<and>
     body b = bslice (ofs b) (len b) P \<and> (mfset (hdr b) \<longleftrightarrow> ofs b + len b < length P) \<and>
     (ofs b = 0 \<longrightarrow> H (hdr b) \<and> unat (nhgets (drop 2 (hdr b))) = 20 + len b)"

definition fbefore :: "Block \<Rightarrow> Block \<Rightarrow> bool" where "fbefore b c \<longleftrightarrow> ofs b + len b \<le> ofs c"

definition fqinv :: "(byte list \<Rightarrow> bool) \<Rightarrow> byte list \<Rightarrow> Block list \<Rightarrow> bool" where
  "fqinv H P q \<longleftrightarrow> sorted_wrt fbefore q \<and> (\<forall>b \<in> set q. okfr H P b)"

definition span :: "Block \<Rightarrow> nat set" where "span b = {ofs b..<ofs b + len b}"

definition cov :: "Block list \<Rightarrow> nat set" where "cov q = (\<Union>b \<in> set q. span b)"

lemma cov_simps [simp]: "cov [] = {}" "cov (b # q) = span b \<union> cov q" "cov (p @ q) = cov p \<union> cov q"
  by (auto simp: cov_def)

lemma fqinv_simps: "fqinv H P []" "fqinv H P (b # q) \<longleftrightarrow> okfr H P b \<and> fqinv H P q \<and> (\<forall>c \<in> set q. fbefore b c)"
  "fqinv H P (p @ q) \<longleftrightarrow> fqinv H P p \<and> fqinv H P q \<and> (\<forall>b \<in> set p. \<forall>c \<in> set q. fbefore b c)"
  by (auto simp: fqinv_def sorted_wrt_append)

lemma okfr_room: "okfr H P b \<Longrightarrow> 24 \<le> length (b_data b)" "okfr H P b \<Longrightarrow> 4 \<le> pos b"
  by (auto simp: okfr_def pos_def)

lemma hdr_length: "okfr H P b \<Longrightarrow> length (hdr b) = 20"
  unfolding hdr_def by (rule length_bslice) (auto simp: okfr_def)

lemma bread_pos:
  assumes "b_base b \<le> b_rp b" "b_lim b = b_base b + int (length (b_data b))" "pos b + i + n \<le> length (b_data b)"
  shows "bread b (b_rp b + int i) (int n) = Some (bslice (pos b + i) n (b_data b))"
proof -
  have "b_rp b = b_base b + int (pos b)" using assms(1) by (simp add: pos_def)
  then show ?thesis using assms(2,3) by (auto simp: bread_def nat_add_distrib)
qed

lemma bwrite_pos:
  assumes "b_base b \<le> b_rp b" "b_lim b = b_base b + int (length (b_data b))" "pos b + i + length bs \<le> length (b_data b)"
  shows "bwrite b (b_rp b + int i) bs = Some (b\<lparr>b_data := bsplice (pos b + i) bs (b_data b)\<rparr>)"
proof -
  have "b_rp b = b_base b + int (pos b)" using assms(1) by (simp add: pos_def)
  then show ?thesis using assms(2,3) by (auto simp: bwrite_def nat_add_distrib)
qed

lemma hget_hdr:
  assumes "okfr H P b" "i + n \<le> 20"
  shows "hget b (int i) (int n) k = Inr (bslice i n (hdr b), k)"
  using assms by (simp add: hget_def memmove_out_def bread_pos okfr_def hdr_def bslice_bslice)

lemma fbefore_trans: "fbefore a b \<Longrightarrow> fbefore b c \<Longrightarrow> fbefore a c"
  by (simp add: fbefore_def)

section \<open>The search\<close>

lemma splitq_ok:
  assumes "splitq o' q = (pre, post)" "fqinv H P q"
  shows "q = pre @ post \<and> (\<forall>b \<in> set pre. ofs b < unat o') \<and> (\<forall>b \<in> set post. unat o' \<le> ofs b)"
  using assms
proof (induction q arbitrary: pre)
  case (Cons b q)
  show ?case
  proof (cases "o' > foff b")
    case True
    then show ?thesis using Cons by (auto simp: fqinv_simps word_less_nat_alt split: prod.splits)
  next
    case False
    then have "pre = []" "post = b # q" "unat o' \<le> ofs b" using Cons.prems(1) by (auto simp: word_less_nat_alt not_less)
    moreover have "\<forall>c \<in> set q. ofs b \<le> ofs c" using Cons.prems(2) by (auto simp: fqinv_simps fbefore_def)
    ultimately show ?thesis by force
  qed
qed simp

section \<open>Trimming\<close>

lemma trim_tail:
  assumes "okfr H P b" "unat v < len b" "0 < unat v" "ofs b \<noteq> 0" "ofs b + len b < length P"
  shows "okfr H P (setflen v b)" "span (setflen v b) = {ofs b..<ofs b + unat v}" "ofs (setflen v b) = ofs b"
proof -
  let ?b = "setflen v b"
  have d: "4 \<le> length (b_data b)" using okfr_room [OF assms(1)] by simp
  note g = setfrag_get(3,4) [OF d, of v] and l = setfrag_len(2) [OF d, of v]
  have p: "4 \<le> pos b" "pos ?b = pos b" using okfr_room [OF assms(1)] by (simp_all add: pos_def)
  then have h: "hdr ?b = hdr b" and bo: "body ?b = take (unat v) (body b)"
    using setfrag_above(2) [OF d] assms(2) g by (simp_all add: hdr_def body_def take_bslice min_def)
  have "body ?b = bslice (ofs b) (unat v) P" unfolding bo using assms(1,2) by (simp add: okfr_def take_bslice min_def)
  moreover have "mfset (hdr b)" using assms(1,5) by (simp add: okfr_def)
  ultimately show "okfr H P ?b" using assms g l h p by (auto simp: okfr_def)
  show "span ?b = {ofs b..<ofs b + unat v}" "ofs ?b = ofs b" using g by (simp_all add: span_def)
qed

lemma trim_head:
  assumes "okfr H P b" "n < len b" "0 < n" "length P < 65536"
  defines "c \<equiv> setfoff (foff b + of_nat n) (setflen (flen b - of_nat n) b)"
  defines "d \<equiv> c\<lparr>b_data := bsplice (pos b + n) (hdr b) (b_data c)\<rparr>"
  shows "memmove_bb c (b_rp c + int n) c (b_rp c) IP4HDR k = Inr (d, k)"
    "okfr H P (d\<lparr>b_rp := b_rp c + int n\<rparr>)" "span (d\<lparr>b_rp := b_rp c + int n\<rparr>) = {ofs b + n..<ofs b + len b}"
    "intr (d\<lparr>b_rp := x\<rparr>) = intr b" "drv (d\<lparr>b_rp := x\<rparr>) = drv b"
proof -
  let ?d = "d\<lparr>b_rp := b_rp c + int n\<rparr>"
  have d: "4 \<le> length (b_data b)" and p: "4 \<le> pos b" using okfr_room [OF assms(1)] by simp_all
  have b: "ofs b + len b < 65536" "pos b + 20 + len b \<le> length (b_data b)" using assms(1,4) by (auto simp: okfr_def)
  have l: "length (b_data c) = length (b_data b)" "4 \<le> length (b_data (setflen (flen b - of_nat n) b))"
    using d by (simp_all add: c_def setfrag_len)
  have g: "foff c = foff b + of_nat n" "flen c = flen b - of_nat n"
    using d l by (simp_all add: c_def setfrag_get setfrag_len)
  have v: "bslice j m (b_data c) = bslice j m (b_data b)" if "4 \<le> j" for j m
    using d l that by (simp add: c_def setfrag_above)
  have r [simp]: "b_rp c = b_rp b" "b_base c = b_base b" "b_lim c = b_lim b" "pos c = pos b" by (simp_all add: c_def pos_def)
  have hc: "bslice (pos b) 20 (b_data c) = hdr b" using v p by (simp add: hdr_def)
  have geo: "b_base b \<le> b_rp b" "b_lim b = b_base b + int (length (b_data b))" using assms(1) by (auto simp: okfr_def)
  have "bread c (b_rp c + int 0) (int 20) = Some (hdr b)"
    unfolding hc [symmetric] using bread_pos [of c 0 20] geo b l by simp
  moreover have "bwrite c (b_rp c + int n) (hdr b) = Some d"
    unfolding d_def using bwrite_pos [of c n "hdr b"] geo b l assms(2) hdr_length [OF assms(1)] by simp
  ultimately show "memmove_bb c (b_rp c + int n) c (b_rp c) IP4HDR k = Inr (d, k)"
    by (simp add: memmove_bb_def memmove_out_def memmove_in_def IP4HDR_def)
  have pd: "pos ?d = pos b + n" using geo by (simp add: pos_def d_def nat_add_distrib)
  have hd': "hdr ?d = hdr b" unfolding hdr_def pd using b l assms(2) hdr_length [OF assms(1)]
    by (simp add: d_def hdr_def)
  have fd: "foff ?d = foff c" "flen ?d = flen c"
    using p l b assms(2) by (simp_all add: foff_def flen_def d_def bslice_bsplice_before)
  have on: "ofs ?d = ofs b + n" "len ?d = len b - n"
    unfolding fd g using b assms(2) by (simp_all add: unat_plus_if' unat_sub word_le_nat_alt unat_of_nat)
  have "body ?d = drop n (body b)"
    unfolding body_def pd on using b l assms(2) p hdr_length [OF assms(1)]
    by (simp add: d_def drop_bslice bslice_bsplice_after v add.commute [of n 20] add.assoc)
  then have "body ?d = bslice (ofs b + n) (len b - n) P" using assms(1) by (simp add: okfr_def drop_bslice)
  then show "okfr H P ?d"
    using assms(1-3) geo b l hdr_length [OF assms(1)] unfolding okfr_def pd on hd' by (auto simp: d_def)
  show "span ?d = {ofs b + n..<ofs b + len b}" using assms(2) unfolding span_def on by simp
  show "intr (d\<lparr>b_rp := x\<rparr>) = intr b" "drv (d\<lparr>b_rp := x\<rparr>) = drv b" by (simp_all add: d_def c_def)
qed

lemma freeb_mem [simp]: "mem_avail (freeb b k) = mem_avail k"
  using freeblist_simps(2) [of "[b]" k] by simp

lemma trimq_ok:
  assumes "fqinv H P q" "length P < 65536"
  shows "kok (trimq (int e) q k) (\<lambda>q' k'. fqinv H P q' \<and> (\<forall>b \<in> set q'. e \<le> ofs b) \<and> cov q' = cov q - {..<e} \<and>
    acct k' q' = acct k q \<and> mem_avail k' = mem_avail k \<and> length q' \<le> length q)"
  using assms
proof (induction q arbitrary: k)
  case (Cons b q)
  have b: "okfr H P b" and q: "fqinv H P q" and bq: "\<forall>c \<in> set q. ofs b + len b \<le> ofs c"
    using Cons.prems by (auto simp: fqinv_simps fbefore_def)
  have cq: "x \<in> cov q \<Longrightarrow> ofs b + len b \<le> x" for x using bq by (force simp: cov_def span_def)
  consider "e \<le> ofs b" | "ofs b < e" "e < ofs b + len b" | "ofs b + len b \<le> e" by linarith
  then show ?case
  proof cases
    case 1
    then have "cov (b # q) = cov (b # q) - {..<e}" using cq by (force simp: span_def)
    then show ?thesis using 1 Cons.prems bq by (auto simp: fqinv_simps fbefore_def)
  next
    case 2
    define n where "n = e - ofs b"
    have n: "int e - int (ofs b) = int n" "0 < n" "n < len b" using 2 by (simp_all add: n_def)
    note t = trim_head(2-5) [OF b n(3,2) Cons.prems(2)] and t1 = trim_head(1) [OF b n(3,2) Cons.prems(2), of k]
    define d where "d = (setfoff (foff b + of_nat n) (setflen (flen b - of_nat n) b))
      \<lparr>b_data := bsplice (pos b + n) (hdr b) (b_data (setfoff (foff b + of_nat n) (setflen (flen b - of_nat n) b)))\<rparr>"
    define b' where "b' = d\<lparr>b_rp := b_rp b + int n\<rparr>"
    have e: "trimq (int e) (b # q) k = Inr (b' # q, k)"
      unfolding trimq.simps Let_def n(1) using n(2,3) t1 [folded d_def] by (simp add: b'_def) (simp add: d_def)
    have b': "okfr H P b'" "span b' = {e..<ofs b + len b}" "intr b' = intr b" "drv b' = drv b"
      using t [folded d_def] 2 unfolding b'_def by (simp_all add: n_def)
    moreover have "ofs b' = e" "ofs b' + len b' = ofs b + len b"
    proof -
      have "0 < len b'" using b'(1) by (simp add: okfr_def)
      then have "{ofs b'..<ofs b' + len b'} = {e..<ofs b + len b}" and "ofs b' < ofs b' + len b'" and "e < ofs b + len b"
        using b'(2) 2 by (auto simp: span_def)
      then show "ofs b' = e" "ofs b' + len b' = ofs b + len b" by (auto simp: atLeastLessThan_eq_iff)
    qed
    moreover have "cov (b' # q) = cov (b # q) - {..<e}"
    proof -
      have "cov q - {..<e} = cov q" using cq 2 by force
      moreover have "span b' = span b - {..<e}" using b'(2) 2 by (auto simp: span_def)
      ultimately show ?thesis unfolding cov_simps by blast
    qed
    ultimately show ?thesis
      using 2 q bq unfolding e by (auto simp: fqinv_simps fbefore_def acct_Cons simp del: cov_simps)
  next
    case 3
    have e: "trimq (int e) (b # q) k = trimq (int e) q (freeb b k)"
      using 3 b by (auto simp: Let_def okfr_def)
    have "cov q - {..<e} = cov (b # q) - {..<e}" using 3 by (auto simp: span_def)
    then show ?thesis
      using Cons.IH [OF q Cons.prems(2), of "freeb b k"] unfolding e by (elim kok_mono) auto
  qed
qed (simp add: fqinv_simps)

section \<open>Completeness\<close>

lemma cov_head:
  assumes "fqinv H P (b # q)" "\<forall>c \<in> set (b # q). i \<le> ofs c" "i < n"
  shows "cov (b # q) = {i..<n} \<longleftrightarrow> ofs b = i \<and> ofs b + len b \<le> n \<and> cov q = {ofs b + len b..<n}"
proof -
  have len: "0 < len b" and bq: "\<forall>c \<in> set q. ofs b + len b \<le> ofs c"
    using assms(1) by (auto simp: fqinv_simps fbefore_def okfr_def)
  have cq: "ofs b + len b \<le> x" if "x \<in> cov q" for x using bq that by (force simp: cov_def span_def)
  show ?thesis
  proof (cases "ofs b = i \<and> ofs b + len b \<le> n")
    case True
    then have "{i..<n} = span b \<union> {ofs b + len b..<n}" by (auto simp: span_def)
    moreover have "cov q \<inter> span b = {}" using cq by (force simp: span_def)
    moreover have "{ofs b + len b..<n} \<inter> span b = {}" by (auto simp: span_def)
    ultimately show ?thesis using True unfolding cov_simps by blast
  next
    case False
    have "cov (b # q) \<noteq> {i..<n}"
    proof
      assume e: "cov (b # q) = {i..<n}"
      then have "i \<in> cov (b # q)" "span b \<subseteq> {i..<n}" using assms(3) by auto
      then have "ofs b = i" using assms(2) cq len by (force simp: span_def)
      moreover have "ofs b + len b - 1 \<in> span b" using len by (simp add: span_def)
      then have "ofs b + len b - 1 < n" using \<open>span b \<subseteq> {i..<n}\<close> by auto
      ultimately show False using False by linarith
    qed
    then show ?thesis using False by blast
  qed
qed

lemma fqinv_last:
  assumes "fqinv H P (b # q)" "ofs b + len b = length P"
  shows "q = []"
proof (rule ccontr)
  assume "q \<noteq> []"
  then obtain c where "c \<in> set q" by (cases q) auto
  then have "ofs b + len b \<le> ofs c" "0 < len c" "ofs c + len c \<le> length P"
    using assms(1) by (auto simp: fqinv_def fbefore_def okfr_def)
  then show False using assms(2) by linarith
qed

lemma complete_ok:
  assumes "fqinv H P q" "\<forall>b \<in> set q. i \<le> ofs b" "i < length P"
  shows "complete q (int i) k = Inr (cov q = {i..<length P}, k)"
  using assms
proof (induction q arbitrary: i)
  case (Cons b q)
  have b: "okfr H P b" and q: "fqinv H P q" and bq: "\<forall>c \<in> set q. ofs b + len b \<le> ofs c"
    using Cons.prems by (auto simp: fqinv_simps fbefore_def)
  have l: "ofs b + len b \<le> length P" and mf: "mfset (hdr b) \<longleftrightarrow> ofs b + len b < length P"
    using b by (simp_all add: okfr_def)
  have h: "hget b 6 1 k = Inr ([hdr b ! 6], k)"
    using hget_hdr [OF b, of 6 1 k] hdr_length [OF b] by (simp add: bslice_def take_Suc hd_drop_conv_nth)
  note ch = cov_head [OF Cons.prems]
  consider (gap) "ofs b \<noteq> i" | (mid) "ofs b = i" "ofs b + len b < length P" | (fin) "ofs b = i" "ofs b + len b = length P"
    using l by linarith
  then show ?case
  proof cases
    case gap
    then show ?thesis unfolding ch by simp
  next
    case mid
    have "complete q (int (ofs b + len b)) k = Inr (cov q = {ofs b + len b..<length P}, k)"
      by (rule Cons.IH) (use q bq mid in auto)
    then show ?thesis unfolding ch using mid mf h by (simp add: mfset_def)
  next
    case fin
    then show ?thesis unfolding ch using fqinv_last [OF Cons.prems(1)] mf h by (simp add: mfset_def)
  qed
qed auto

section \<open>Assembly\<close>

lemma cut_window:
  assumes "okfr H P b" "i \<le> 20"
  shows "wfb (b\<lparr>b_rp := b_rp b + int i, b_wp := b_rp b + 20 + int (len b)\<rparr>)"
    "bcont (b\<lparr>b_rp := b_rp b + int i, b_wp := b_rp b + 20 + int (len b)\<rparr>) = drop i (hdr b) @ body b"
proof -
  let ?b = "b\<lparr>b_rp := b_rp b + int i, b_wp := b_rp b + 20 + int (len b)\<rparr>"
  have g: "b_rp b = b_base b + int (pos b)" "pos b + 20 + len b \<le> length (b_data b)"
    "b_lim b = b_base b + int (length (b_data b))"
    using assms(1) by (auto simp: okfr_def pos_def)
  then show "wfb ?b" using assms(2) by (simp add: wfb_def)
  have "nat (b_rp ?b - b_base ?b) = pos b + i" "nat (b_wp ?b - b_rp ?b) = (20 - i) + len b"
    using g assms(2) by simp_all
  then show "bcont ?b = drop i (hdr b) @ body b"
    using assms(2) bslice_append [of "pos b + i" "20 - i" "b_data b" "len b"]
    by (simp add: bcont_def hdr_def body_def drop_bslice BLEN_def)
qed

lemma striphdrs_ok:
  assumes "fqinv H P q" "\<forall>b \<in> set q. i \<le> ofs b" "i \<le> length P" "cov q = {i..<length P}" "striphdrs q n = (r, n')"
  shows "n' = n + int (length P - i) \<and> wfc r \<and> ccont r = drop i P \<and> map intr r = map intr q \<and> map drv r = map drv q"
  using assms
proof (induction q arbitrary: i n r)
  case (Cons b q)
  have b: "okfr H P b" and q: "fqinv H P q" and bq: "\<forall>c \<in> set q. ofs b + len b \<le> ofs c"
    using Cons.prems by (auto simp: fqinv_simps fbefore_def)
  have l: "0 < len b" "ofs b + len b \<le> length P" and bo: "body b = bslice (ofs b) (len b) P" using b by (simp_all add: okfr_def)
  have "i < length P" using Cons.prems(2) l by auto
  then have i: "ofs b = i" "cov q = {i + len b..<length P}"
    using cov_head [OF Cons.prems(1,2)] Cons.prems(4) by auto
  obtain r' where r: "striphdrs q (n + int (len b)) = (r', n')" "r = b\<lparr>b_rp := b_rp b + 20, b_wp := b_rp b + 20 + int (len b)\<rparr> # r'"
    using Cons.prems(5) by (auto simp: Let_def IP4HDR_def split: prod.splits)
  have "n' = n + int (len b) + int (length P - (i + len b)) \<and> wfc r' \<and> ccont r' = drop (i + len b) P \<and>
      map intr r' = map intr q \<and> map drv r' = map drv q"
    by (rule Cons.IH [OF q _ _ i(2) r(1)]) (use bq i l in auto)
  moreover have "bslice i (len b) P @ drop (i + len b) P = drop i P"
    by (rule bslice_drop)
  moreover have "wfb (hd r) \<and> bcont (hd r) = bslice i (len b) P" "intr (hd r) = intr b" "drv (hd r) = drv b"
    using cut_window [OF b, of 20] hdr_length [OF b] bo i(1) by (simp_all add: r(2) intr_def drv_def BALLOC_def)
  moreover have "n + int (len b) + int (length P - (i + len b)) = n + int (length P - i)" using l i(1) by linarith
  moreover have "r = hd r # r'" by (simp add: r(2))
  ultimately show ?case by (metis ccont_simps(2) list.simps(9) wfc_simps(2))
qed auto

text \<open>A packet with its header in the first block.\<close>

definition wfp :: "Block list \<Rightarrow> bool" where "wfp r \<longleftrightarrow> wfc r \<and> r \<noteq> [] \<and> 20 \<le> BLEN (hd r)"

lemma assemble_ok:
  assumes "fqinv H P q" "cov q = {..<length P}" "0 < length P"
  shows "\<exists>r h. H h \<and> length h = 20 \<and> assemble q k = Inr (r, k) \<and> wfp r \<and>
    ccont r = bsplice 2 (hnputs (of_nat (20 + length P))) h @ P \<and> (\<forall>k. acct k r = acct (k::Kern) q)"
proof -
  have z: "cov q = {0..<length P}" using assms(2) by (simp add: atLeast0LessThan)
  obtain b bs where q: "q = b # bs" using z assms(3) by (cases q) auto
  have b: "okfr H P b" and bs: "fqinv H P bs" and bq: "\<forall>c \<in> set bs. ofs b + len b \<le> ofs c"
    using assms(1) by (auto simp: q fqinv_simps fbefore_def)
  have i: "ofs b = 0" "cov bs = {len b..<length P}" "len b \<le> length P"
    using cov_head [OF assms(1) [unfolded q] _ assms(3)] z by (auto simp: q)
  have h: "H (hdr b)" "unat (nhgets (drop 2 (hdr b))) = 20 + len b" and bo: "body b = take (len b) P"
    using b i by (simp_all add: okfr_def bslice_def)
  have "nhgets (bslice 2 2 (hdr b)) = nhgets (drop 2 (hdr b))" by (simp add: nhgets_def bslice_def)
  then have g: "hget b 2 2 k = Inr (bslice 2 2 (hdr b), k)" and l: "unat (nhgets (bslice 2 2 (hdr b))) = 20 + len b"
    using hget_hdr [OF b, of 2 2 k] h by simp_all
  obtain r' n' where sh: "striphdrs bs (20 + int (len b)) = (r', n')" by fastforce
  have r': "n' = 20 + int (len b) + int (length P - len b) \<and> wfc r' \<and> ccont r' = drop (len b) P \<and>
      map intr r' = map intr bs \<and> map drv r' = map drv bs"
    by (rule striphdrs_ok [OF bs _ _ i(2) sh]) (use bq i in auto)
  then have n': "n' = int (20 + length P)" using i by simp
  define c where "c = b\<lparr>b_wp := b_rp b + 20 + int (len b)\<rparr>"
  define d where "d = c\<lparr>b_data := bsplice (pos b + 2) (hnputs (of_nat (20 + length P))) (b_data c)\<rparr>"
  have geo: "b_base b \<le> b_rp b" "b_lim b = b_base b + int (length (b_data b))" "pos b + 20 + len b \<le> length (b_data b)"
    using b by (auto simp: okfr_def)
  have "wfb c" using cut_window(1) [OF b, of 0] by (simp add: c_def)
  then have "wfb d" using geo by (simp add: wfb_def d_def c_def)
  have "20 \<le> BLEN d" by (simp add: d_def c_def BLEN_def)
  have "hput c 2 (hnputs (of_nat (20 + length P))) k = Inr (d, k)"
    using bwrite_pos [of c 2 "hnputs (of_nat (20 + length P))"] geo by (simp add: hput_def memmove_in_def d_def c_def pos_def)
  moreover have "hnputs (of_int n') = hnputs (of_nat (20 + length P))" unfolding n' by simp
  moreover have "int (unat (nhgets (bslice 2 2 (hdr b)))) = 20 + int (len b)" unfolding l by simp
  ultimately have a: "assemble q k = Inr (d # r', k)"
    using g sh by (simp add: assemble_def q Let_def c_def add.assoc)
  have "bcont d = bsplice 2 (hnputs (of_nat (20 + length P))) (hdr b) @ body b"
  proof -
    have "bcont d = bslice (pos b) (20 + len b) (bsplice (pos b + 2) (hnputs (of_nat (20 + length P))) (b_data b))"
      using geo by (simp add: bcont_def d_def c_def pos_def BLEN_def nat_add_distrib)
    also have "\<dots> = bsplice 2 (hnputs (of_nat (20 + length P))) (bslice (pos b) (20 + len b) (b_data b))"
      by (rule bslice_bsplice_in) (use geo in simp_all)
    also have "bslice (pos b) (20 + len b) (b_data b) = hdr b @ body b"
      by (simp add: hdr_def body_def bslice_append)
    finally show ?thesis using hdr_length [OF b] by (simp add: bsplice_def)
  qed
  then have "ccont (d # r') = bsplice 2 (hnputs (of_nat (20 + length P))) (hdr b) @ P"
    using r' bo by simp
  moreover have "acct k (d # r') = acct k q" for k :: Kern
    using r' by (simp add: q acct_def d_def c_def)
  ultimately show ?thesis
    using a h(1) hdr_length [OF b] \<open>wfb d\<close> r' \<open>20 \<le> BLEN d\<close> by (auto simp: wfp_def)
qed

section \<open>A fragment into its queue\<close>

text \<open>The part of the queue before the new fragment, cut at its end.\<close>

lemma enq_front:
  assumes q: "fqinv H P pre" and b: "okfr H P b" and lt: "\<forall>z \<in> set pre. ofs z < ofs b"
    and first: "\<forall>z \<in> set pre. ofs z = 0 \<longrightarrow> len z \<le> ofs b \<or> ofs b + len b \<le> len z"
    and ne: "pre \<noteq> []" and ov: "ovlap = int (ofs (last pre) + len (last pre)) - int (ofs b)" "0 < ovlap" "ovlap < int (len b)"
  defines "pre' \<equiv> butlast pre @ [setflen (flen (last pre) - of_int ovlap) (last pre)]"
  shows "fqinv H P pre'" "\<forall>z \<in> set pre'. fbefore z b" "cov pre' \<union> span b = cov pre \<union> span b"
    "map intr pre' = map intr pre" "map drv pre' = map drv pre"
proof -
  let ?z = "last pre" and ?v = "flen (last pre) - of_int ovlap :: ushort"
  let ?z' = "setflen ?v ?z"
  have pre: "pre = butlast pre @ [?z]" using ne by simp
  then have zin: "?z \<in> set pre" and z: "okfr H P ?z" and q': "fqinv H P (butlast pre)"
    and bz: "\<forall>c \<in> set (butlast pre). fbefore c ?z"
    using q ne by (metis last_in_set, metis last_in_set fqinv_def q, metis fqinv_simps(3), metis fqinv_simps(3) list.set_intros(1))
  have zl: "ofs ?z < ofs b" "ofs ?z \<noteq> 0" using lt first zin ov by fastforce+
  obtain m where m: "ovlap = int m" using ov(2) by (metis zero_less_imp_eq_int)
  have "m \<le> len ?z" using ov zl m by linarith
  moreover have "len ?z < 65536" using unsigned_less [of "flen ?z"] by simp
  ultimately have v: "unat ?v = len ?z - m"
    using unat_sub [of "of_nat m :: ushort" "flen ?z"] by (simp add: word_le_nat_alt unat_of_nat m)
  then have v': "unat ?v = ofs b - ofs ?z" using ov zl m by linarith
  have t: "okfr H P ?z'" "span ?z' = {ofs ?z..<ofs b}" "ofs ?z' = ofs ?z"
    using trim_tail [OF z, of ?v] v v' zl ov b by (auto simp: okfr_def)
  have l: "ofs ?z' + len ?z' = ofs b" using v' zl okfr_room(1) [OF z] by (simp add: setfrag_get t(3))
  then show "fqinv H P pre'" using q' t bz zl unfolding pre'_def by (auto simp: fqinv_simps fbefore_def)
  show "\<forall>z \<in> set pre'. fbefore z b"
    using l t(3) zl bz in_set_butlastD unfolding pre'_def by (fastforce simp: fbefore_def)
  have "span ?z \<union> span b = span ?z' \<union> span b" unfolding t(2) using ov zl by (auto simp: span_def)
  moreover have "cov pre = cov (butlast pre) \<union> span ?z" "cov pre' = cov (butlast pre) \<union> span ?z'"
    using pre unfolding pre'_def by (metis cov_simps Un_empty_right)+
  ultimately show "cov pre' \<union> span b = cov pre \<union> span b" by blast
  show "map intr pre' = map intr pre" "map drv pre' = map drv pre"
    using arg_cong [OF pre, of "map intr"] arg_cong [OF pre, of "map drv"] unfolding pre'_def by (metis (no_types) list.simps(8,9) map_append setfrag_simps(9-12))+
qed

lemma enqfrag_ok:
  assumes q: "fqinv H P q" "cov q \<noteq> {..<length P}" and b: "okfr H P b" and P: "length P < 65536"
    and first: "\<forall>z \<in> set q. ofs z = 0 \<longrightarrow> ofs b = 0 \<or> len z \<le> ofs b \<or> ofs b + len b \<le> len z"
  shows "kok (enqfrag b q k) (\<lambda>(r, q') k'. mem_avail k' = mem_avail k \<and> (case r of
      None \<Rightarrow> cov q \<union> span b \<noteq> {..<length P} \<and> fqinv H P q' \<and> cov q' = cov q \<union> span b \<and> acct k' q' = acct k (b # q)
    | Some bl \<Rightarrow> cov q \<union> span b = {..<length P} \<and> q' = [] \<and> wfp bl \<and> acct k' bl = acct k (b # q) \<and>
        (\<exists>h. H h \<and> length h = 20 \<and> ccont bl = bsplice 2 (hnputs (of_nat (20 + length P))) h @ P)))"
proof -
  obtain pre post where sp: "splitq (foff b) q = (pre, post)" by fastforce
  have q': "q = pre @ post" and lt: "\<forall>z \<in> set pre. ofs z < ofs b" and ge: "\<forall>z \<in> set post. ofs b \<le> ofs z"
    using splitq_ok [OF sp q(1)] by auto
  have qs: "fqinv H P pre" "fqinv H P post" "\<forall>z \<in> set pre. \<forall>c \<in> set post. fbefore z c" using q(1) by (auto simp: q' fqinv_simps)
  define ovlap where "ovlap = (if pre = [] then 0 else int (ofs (last pre)) + int (len (last pre)) - int (ofs b))"
  define pre' where "pre' = (if ovlap > 0 then butlast pre @ [setflen (flen (last pre) - of_int ovlap) (last pre)] else pre)"
  have e: "enqfrag b q k = (if ovlap > 0 \<and> ovlap \<ge> int (len b) then Inr ((None, q), freeb b k) else
     kbind (trimq (int (ofs b + len b)) post k) (\<lambda>post k. kbind (complete (pre' @ b # post) 0 k) (\<lambda>fin k.
       if fin then kbind (assemble (pre' @ b # post) k) (\<lambda>r k. Inr ((Some r, []), k)) else Inr ((None, pre' @ b # post), k))))"
    unfolding enqfrag_def sp Let_def prod.case ovlap_def [symmetric] pre'_def [symmetric] of_nat_add by (rule refl)
  show ?thesis
  proof (cases "ovlap > 0 \<and> ovlap \<ge> int (len b)")
    case True
    then have "pre \<noteq> []" "ofs b + len b \<le> ofs (last pre) + len (last pre)" by (auto simp: ovlap_def split: if_splits)
    then have "last pre \<in> set q" "span b \<subseteq> span (last pre)" using lt by (auto simp: q' span_def less_imp_le)
    then have "cov q \<union> span b = cov q" by (auto simp: cov_def)
    then show ?thesis using True q unfolding e by simp
  next
    case False
    have front: "fqinv H P pre'" "\<forall>z \<in> set pre'. fbefore z b" "cov pre' \<union> span b = cov pre \<union> span b"
      "map intr pre' = map intr pre" "map drv pre' = map drv pre"
    proof -
      have "fqinv H P pre' \<and> (\<forall>z \<in> set pre'. fbefore z b) \<and> cov pre' \<union> span b = cov pre \<union> span b \<and>
          map intr pre' = map intr pre \<and> map drv pre' = map drv pre"
      proof (cases "ovlap > 0")
        case True
        have "pre \<noteq> []" "ovlap = int (ofs (last pre) + len (last pre)) - int (ofs b)" "ovlap < int (len b)"
          using True False by (auto simp: ovlap_def split: if_splits)
        moreover have "\<forall>z \<in> set pre. ofs z = 0 \<longrightarrow> len z \<le> ofs b \<or> ofs b + len b \<le> len z"
          using first lt q' by (metis Un_iff not_less0 set_append)
        moreover have "pre' = butlast pre @ [setflen (flen (last pre) - of_int ovlap) (last pre)]"
          using True by (simp only: pre'_def if_True)
        ultimately show ?thesis using enq_front [OF qs(1) b lt, of ovlap] True by blast
      next
        case le: False
        have "fbefore z b" if z: "z \<in> set pre" for z
        proof -
          have "fbefore (last pre) b" using le z by (auto simp: ovlap_def fbefore_def split: if_splits)
          moreover have "z = last pre \<or> fbefore z (last pre)"
            using qs(1) z by (cases pre rule: rev_cases) (auto simp: fqinv_simps)
          ultimately show ?thesis using fbefore_trans by blast
        qed
        then show ?thesis using le qs(1) by (simp add: pre'_def)
      qed
      then show "fqinv H P pre'" "\<forall>z \<in> set pre'. fbefore z b" "cov pre' \<union> span b = cov pre \<union> span b"
        "map intr pre' = map intr pre" "map drv pre' = map drv pre" by blast+
    qed
    have len: "0 < len b" "ofs b + len b \<le> length P" using b by (auto simp: okfr_def)
    have rest: "kok (kbind (complete (pre' @ b # post') 0 k1) (\<lambda>fin k. if fin then kbind (assemble (pre' @ b # post') k)
          (\<lambda>r k. Inr ((Some r, []), k)) else Inr ((None, pre' @ b # post'), k))) (\<lambda>(r, q') k'. mem_avail k' = mem_avail k \<and> (case r of
      None \<Rightarrow> cov q \<union> span b \<noteq> {..<length P} \<and> fqinv H P q' \<and> cov q' = cov q \<union> span b \<and> acct k' q' = acct k (b # q)
    | Some bl \<Rightarrow> cov q \<union> span b = {..<length P} \<and> q' = [] \<and> wfp bl \<and> acct k' bl = acct k (b # q) \<and>
        (\<exists>h. H h \<and> length h = 20 \<and> ccont bl = bsplice 2 (hnputs (of_nat (20 + length P))) h @ P)))"
      if h: "fqinv H P post'" "\<forall>c \<in> set post'. ofs b + len b \<le> ofs c" "cov post' = cov post - {..<ofs b + len b}"
        "acct k1 post' = acct k post" "mem_avail k1 = mem_avail k" for post' k1
    proof -
      let ?q = "pre' @ b # post'"
      have inv: "fqinv H P ?q" using front(1,2) h(1,2) b by (auto simp: fqinv_simps fbefore_def) (fastforce+)?
      have "cov post - {..<ofs b + len b} \<union> span b = cov post \<union> span b"
        using ge by (force simp: span_def cov_def)
      then have cv: "cov ?q = cov q \<union> span b" using front(3) unfolding cov_simps q' h(3) by blast
      have ac: "acct k1 ?q = acct k (b # q)"
        using h(4) front(4,5) unfolding q' by (simp add: acct_simps algebra_simps)
      have "P \<noteq> []" using len by auto
      then have c: "complete ?q 0 k1 = Inr (cov q \<union> span b = {..<length P}, k1)"
        using complete_ok [OF inv, of 0 k1] \<open>P \<noteq> []\<close> cv by (simp add: atLeast0LessThan)
      show ?thesis
      proof (cases "cov q \<union> span b = {..<length P}")
        case True
        then obtain r hh where "assemble ?q k1 = Inr (r, k1)" "wfp r" "H hh" "length hh = 20"
          "ccont r = bsplice 2 (hnputs (of_nat (20 + length P))) hh @ P" "acct k1 r = acct k1 ?q"
          using assemble_ok [OF inv, of k1] cv \<open>P \<noteq> []\<close> by auto
        then show ?thesis using c True ac h(5) by auto
      next
        case False
        then show ?thesis using c ac h(5) inv cv by simp
      qed
    qed
    show ?thesis
      unfolding e using False
      by (simp only: if_False) (rule kok_bindI [OF trimq_ok [OF qs(2) P]], rule rest, simp_all)
  qed
qed

section \<open>The queues of the datagrams\<close>

text \<open>
  A datagram: its payload, and the headers of its first fragment. \<open>okfrag\<close> says that a packet with the flags and
  offset \<open>frag\<close> is a fragment of it, and that the input routine has put the flag for more fragments into the field
  \<^verbatim>\<open>tos\<close>; \<open>okpkt\<close> in addition that it is a first fragment with one of the headers or that it does not run over
  the end of one of them.
\<close>

type_synonym Fkey = "ulong \<times> ulong \<times> ushort"

record Dgram =
  d_hdrs :: "byte list set"
  d_data :: "byte list"

definition fkey :: "Fragment4 \<Rightarrow> Fkey" where "fkey f = (g_src f, g_dst f, g_id f)"

definition hkey :: "byte list \<Rightarrow> Fkey" where "hkey h = (nhgetl (drop 12 h), nhgetl (drop 16 h), nhgets (drop 4 h))"

definition plen :: "byte list \<Rightarrow> nat" where "plen h = unat (nhgets (drop 2 h)) - 20"

definition okfrag :: "Dgram \<Rightarrow> ushort \<Rightarrow> Block \<Rightarrow> bool" where
  "okfrag d frag b \<longleftrightarrow> wfb b \<and> b_base b + 4 \<le> b_rp b \<and>
     (let h = take 20 (bcont b); n = plen h; i = unat (push_bit 3 frag); m = (i + n < length (d_data d)) in
      0 < n \<and> 20 + n \<le> length (bcont b) \<and> i + n \<le> length (d_data d) \<and> bslice 20 n (bcont b) = bslice i n (d_data d) \<and>
      tst frag IP_MF = m \<and> mfset h = m \<and> (h ! 1 \<noteq> 0) = m \<and> n < length (d_data d))"

definition okpkt :: "Dgram \<Rightarrow> ushort \<Rightarrow> Block \<Rightarrow> bool" where
  "okpkt d frag b \<longleftrightarrow> okfrag d frag b \<and>
     (let h = take 20 (bcont b); n = plen h; i = unat (push_bit 3 frag) in
      if i = 0 then h \<in> d_hdrs d else \<forall>f \<in> d_hdrs d. plen f \<le> i \<or> i + n \<le> plen f)"

lemma okpkt_eq:
  "okpkt d frag b \<longleftrightarrow> wfb b \<and> b_base b + 4 \<le> b_rp b \<and>
     (let h = take 20 (bcont b); n = plen h; i = unat (push_bit 3 frag); m = (i + n < length (d_data d)) in
      0 < n \<and> 20 + n \<le> length (bcont b) \<and> i + n \<le> length (d_data d) \<and> bslice 20 n (bcont b) = bslice i n (d_data d) \<and>
      tst frag IP_MF = m \<and> mfset h = m \<and> (h ! 1 \<noteq> 0) = m \<and> n < length (d_data d) \<and>
      (if i = 0 then h \<in> d_hdrs d else \<forall>f \<in> d_hdrs d. plen f \<le> i \<or> i + n \<le> plen f))"
  by (simp add: okpkt_def okfrag_def Let_def)

abbreviation dinv :: "Dgram \<Rightarrow> Block list \<Rightarrow> bool" where "dinv d \<equiv> fqinv (\<lambda>h. h \<in> d_hdrs d) (d_data d)"

definition ginv :: "(Fkey \<Rightarrow> Dgram) \<Rightarrow> Fragment4 list \<Rightarrow> bool" where
  "ginv D fs \<longleftrightarrow> distinct (map fkey fs) \<and>
     (\<forall>f \<in> set fs. dinv (D (fkey f)) (g_blist f) \<and> cov (g_blist f) \<noteq> {..<length (d_data (D (fkey f)))})"

text \<open>What has been received of a datagram, and the blocks that the queues hold.\<close>

definition got :: "Fkey \<Rightarrow> Fragment4 list \<Rightarrow> nat set" where
  "got \<kappa> fs = (\<Union>f \<in> {f \<in> set fs. fkey f = \<kappa>}. cov (g_blist f))"

definition heldb :: "Fragment4 list \<Rightarrow> Block list" where "heldb fs = concat (map g_blist fs)"

lemma got_simps [simp]: "got \<kappa> [] = {}" "got \<kappa> (f # fs) = (if fkey f = \<kappa> then cov (g_blist f) else {}) \<union> got \<kappa> fs"
  "got \<kappa> (fs @ gs) = got \<kappa> fs \<union> got \<kappa> gs"
  by (auto simp: got_def)

lemma heldb_simps [simp]: "heldb [] = []" "heldb (f # fs) = g_blist f @ heldb fs" "heldb (fs @ gs) = heldb fs @ heldb gs"
  by (simp_all add: heldb_def)

lemma got_none: "\<kappa> \<notin> fkey ` set fs \<Longrightarrow> got \<kappa> fs = {}" by (auto simp: got_def)

lemma ginv_simps: "ginv D []" "ginv D (f # fs) \<longleftrightarrow> ginv D fs \<and> fkey f \<notin> fkey ` set fs \<and> dinv (D (fkey f)) (g_blist f) \<and>
    cov (g_blist f) \<noteq> {..<length (d_data (D (fkey f)))}"
  "ginv D (fs @ gs) \<longleftrightarrow> ginv D fs \<and> ginv D gs \<and> fkey ` set fs \<inter> fkey ` set gs = {}"
  by (auto simp: ginv_def)

lemma fkey_upd [simp]: "fkey (f\<lparr>g_blist := q\<rparr>) = fkey f" "fkey (f\<lparr>g_age := a\<rparr>) = fkey f"
  by (simp_all add: fkey_def)

text \<open>The queues that remain when some are dropped.\<close>

definition fewer :: "Fragment4 list \<Rightarrow> Fragment4 list \<Rightarrow> bool" where
  "fewer fs gs \<longleftrightarrow> (\<forall>\<kappa>. got \<kappa> fs = got \<kappa> gs \<or> got \<kappa> fs = {})"

lemma findq_ok:
  assumes "findq now src dst ident pre fs ip k = (r, ip', k')" "ginv D (rev pre @ fs)" "(src, dst, ident) \<notin> fkey ` set pre"
  shows "ginv D (ip_flist ip') \<and> fewer (ip_flist ip') (rev pre @ fs) \<and> (\<forall>cs. acct k' (cs @ heldb (ip_flist ip')) = acct k (cs @ heldb (rev pre @ fs))) \<and>
    mem_avail k' = mem_avail k \<and> length (ip_flist ip') + length (ip_ffree ip') = length (rev pre @ fs) + length (ip_ffree ip) \<and>
    got (src, dst, ident) (ip_flist ip') = got (src, dst, ident) fs \<and>
    (case r of None \<Rightarrow> (src, dst, ident) \<notin> fkey ` set (ip_flist ip')
     | Some i \<Rightarrow> i < length (ip_flist ip') \<and> fkey (ip_flist ip' ! i) = (src, dst, ident))"
  using assms
proof (induction fs arbitrary: pre ip k)
  case Nil
  then show ?case by (auto simp: got_none fewer_def)
next
  case (Cons f fs)
  let ?\<kappa> = "(src, dst, ident)"
  have pre: "got ?\<kappa> (rev pre) = {}" using Cons.prems(3) by (intro got_none) simp
  consider (hit) "fkey f = ?\<kappa>" | (old) "fkey f \<noteq> ?\<kappa>" "g_age f < now" | (keep) "fkey f \<noteq> ?\<kappa>" "\<not> g_age f < now" by blast
  then show ?case
  proof cases
    case hit
    moreover have "(rev pre @ f # fs) ! length pre = f" by (simp add: nth_append)
    ultimately show ?thesis using Cons.prems pre by (auto simp: fkey_def fewer_def)
  next
    case old
    define ip1 where "ip1 = fst (recycle f (stat ReasmTimeout ip) k)"
    define k1 where "k1 = snd (recycle f (stat ReasmTimeout ip) k)"
    have e: "findq now src dst ident pre fs ip1 k1 = (r, ip', k')"
      using old Cons.prems(1) by (auto simp: fkey_def ip1_def k1_def split: prod.splits if_splits)
    have g: "ginv D (rev pre @ fs)" and fs: "fkey f \<notin> fkey ` set (rev pre @ fs)"
      using Cons.prems(2) by (auto simp: ginv_simps)
    have a: "acct k1 (cs @ heldb (rev pre @ fs)) = acct k (cs @ heldb (rev pre @ f # fs))" for cs
      by (simp add: k1_def recycle_def) (rule acct_perm, simp)
    have m: "mem_avail k1 = mem_avail k" "length (ip_ffree ip1) = Suc (length (ip_ffree ip))"
      by (simp_all add: k1_def ip1_def recycle_def stat_def)
    have "got \<kappa> (rev pre @ fs) = got \<kappa> (rev pre @ f # fs) \<or> got \<kappa> (rev pre @ fs) = {}" for \<kappa>
      using fs got_none [of "fkey f" "rev pre @ fs"] by auto
    then have "fewer fs' (rev pre @ f # fs)" if "fewer fs' (rev pre @ fs)" for fs'
      using that unfolding fewer_def by metis
    then show ?thesis using Cons.IH [OF e g Cons.prems(3)] a m old by auto
  next
    case keep
    then have e: "findq now src dst ident (f # pre) fs ip k = (r, ip', k')"
      using Cons.prems(1) by (auto simp: fkey_def split: if_splits)
    show ?thesis using Cons.IH [OF e] Cons.prems(2,3) keep by auto
  qed
qed

lemma fewer_refl [simp]: "fewer fs fs" by (simp add: fewer_def)

lemma fewer_trans: "fewer fs gs \<Longrightarrow> fewer gs hs \<Longrightarrow> fewer fs hs" unfolding fewer_def by metis

lemma unlink_ok:
  assumes "fs = pre @ f # post" "ginv D fs"
  shows "ginv D (pre @ post)" "got \<kappa> (pre @ post) = (if \<kappa> = fkey f then {} else got \<kappa> fs)" "fewer (pre @ post) fs"
proof -
  have k: "fkey f \<notin> fkey ` set (pre @ post)" and "ginv D (pre @ post)" using assms by (auto simp: ginv_simps)
  then show "ginv D (pre @ post)" by blast
  show g: "got \<kappa> (pre @ post) = (if \<kappa> = fkey f then {} else got \<kappa> fs)" for \<kappa>
    using got_none [OF k] by (auto simp: assms(1))
  show "fewer (pre @ post) fs" by (simp add: fewer_def g del: got_simps)
qed

lemma ipfragallo4_ok:
  assumes "ginv D (ip_flist ip)" "ip_flist ip \<noteq> [] \<or> ip_ffree ip \<noteq> []"
  shows "kok (ipfragallo4 now ip k) (\<lambda>(f, ip') k'. \<exists>fs. ip_flist ip' = f # fs \<and> ginv D fs \<and> fewer fs (ip_flist ip) \<and>
    fkey ` set fs \<subseteq> fkey ` set (ip_flist ip) \<and> (\<forall>cs. acct k' (cs @ heldb fs) = acct k (cs @ heldb (ip_flist ip))) \<and>
    mem_avail k' = mem_avail k \<and> Suc (length fs) + length (ip_ffree ip') = length (ip_flist ip) + length (ip_ffree ip))"
proof (cases "ip_ffree ip")
  case (Cons f fr)
  then show ?thesis using assms by (simp add: ipfragallo4_def Let_def)
next
  case Nil
  then obtain gs g where fs: "ip_flist ip = gs @ [g]" using assms(2) by (cases "ip_flist ip" rule: rev_cases) auto
  have a: "acct (freeblist (g_blist g) k) (cs @ heldb gs) = acct k (cs @ heldb gs @ g_blist g)" for cs
    by simp (rule acct_perm, simp)
  show ?thesis
    using Nil fs a assms(1) unlink_ok(3) [of "ip_flist ip" gs g "[]" D]
    by (auto simp: Let_def ipfragallo4_def ipfragfree4_def recycle_def ginv_simps)
qed

lemma frag_of_pkt:
  assumes "okpkt d frag b" "length (d_data d) < 65536"
  defines "n \<equiv> plen (take 20 (bcont b))"
  defines "c \<equiv> setflen (nhgets (drop 2 (take 20 (bcont b))) - 20) (setfoff (push_bit 3 frag) b)"
  shows "hget b 0 20 k = Inr (take 20 (bcont b), k)" "okfr (\<lambda>h. h \<in> d_hdrs d) (d_data d) c"
    "ofs c = unat (push_bit 3 frag)" "len c = n" "intr c = intr b" "drv c = drv b"
proof -
  let ?h = "take 20 (bcont b)" and ?i = "unat (push_bit 3 frag)"
  have w: "wfb b" "b_base b + 4 \<le> b_rp b" and n: "0 < n" "20 + n \<le> length (bcont b)" "?i + n \<le> length (d_data d)"
    "bslice 20 n (bcont b) = bslice ?i n (d_data d)" "mfset ?h = (?i + n < length (d_data d))" "?i = 0 \<longrightarrow> ?h \<in> d_hdrs d"
    using assms(1) by (auto simp: okpkt_eq Let_def n_def split: if_splits)
  have geo: "b_rp b = b_base b + int (pos b)" "b_lim b = b_base b + int (length (b_data b))" "4 \<le> pos b"
    using w by (auto simp: wfb_def pos_def)
  have bl: "length (bcont b) = nat (b_wp b - b_rp b)" using length_bcont [OF w(1)] by (simp add: BLEN_def)
  have bc: "bcont b = bslice (pos b) (length (bcont b)) (b_data b)" using bl by (simp add: bcont_def BLEN_def pos_def)
  have room: "pos b + 20 + n \<le> length (b_data b)" proof -
    have "int (20 + n) \<le> b_wp b - b_rp b" using n(2) unfolding bl by linarith
    then show ?thesis using geo w(1) by (simp add: wfb_def)
  qed
  have hd: "bslice (pos b) 20 (b_data b) = ?h" by (subst bc) (use n in \<open>simp add: take_bslice min_def\<close>)
  have bd: "bslice (pos b + 20) n (b_data b) = bslice 20 n (bcont b)" by (subst bc) (use n in \<open>simp add: bslice_bslice\<close>)
  have l: "unat (nhgets (drop 2 ?h) - 20) = n"
    using n(1) unat_sub [of 20 "nhgets (drop 2 ?h)"] by (simp add: n_def plen_def word_le_nat_alt)
  have d: "4 \<le> length (b_data b)" "4 \<le> length (b_data (setfoff (push_bit 3 frag) b))"
    using geo room by (simp_all add: setfrag_len)
  show f: "ofs c = ?i" "len c = n" using d l by (simp_all add: c_def setfrag_get)
  show "intr c = intr b" "drv c = drv b" by (simp_all add: c_def)
  show "hget b 0 20 k = Inr (?h, k)"
    using bread_pos [of b 0 20] geo room hd by (simp add: hget_def memmove_out_def)
  have pc: "pos c = pos b" "length (b_data c) = length (b_data b)" "b_rp c = b_rp b" "b_base c = b_base b" "b_lim c = b_lim b"
    using d by (simp_all add: c_def pos_def setfrag_len)
  have v: "bslice j m (b_data c) = bslice j m (b_data b)" if "4 \<le> j" for j m
    using d that by (simp add: c_def setfrag_above)
  have hc: "hdr c = ?h" "body c = bslice ?i n (d_data d)"
    using v geo(3) hd bd n(4) unfolding hdr_def body_def pc f by simp_all
  have "unat (nhgets (drop 2 ?h)) = 20 + n" using n(1) by (simp add: n_def plen_def)
  then show "okfr (\<lambda>h. h \<in> d_hdrs d) (d_data d) c"
    unfolding okfr_def pc f hc using room w(2) geo n by simp
qed

lemma whole_flags:
  assumes "frag AND NOT (IP_MF OR IP_DF) = 0"
  shows "push_bit 3 frag = 0"
proof -
  have m: "IP_MF OR IP_DF = push_bit 13 3" by (simp add: IP_MF_def IP_DF_def)
  have "push_bit 3 (frag AND NOT (push_bit 13 w)) = push_bit 3 frag" for w :: ushort
    by (rule bit_word_eqI) (auto simp: bit_simps)
  then show ?thesis using assms unfolding m by (metis push_bit_of_0)
qed

lemma okpkt_not_whole:
  assumes "okpkt d frag b"
  shows "\<not> (take 20 (bcont b) ! 1 = 0 \<and> frag AND NOT (IP_MF OR IP_DF) = 0)"
  using assms whole_flags [of frag] by (auto simp: okpkt_eq Let_def)

lemma reasm_eq:
  assumes "okpkt d frag b" "length (d_data d) < 65536" "hkey (take 20 (bcont b)) = (src, dst, ident)"
    and "findq now src dst ident [] (ip_flist ip) ip k = (f, ip1, k1)"
  defines "c \<equiv> setflen (nhgets (drop 2 (take 20 (bcont b))) - 20) (setfoff (push_bit 3 frag) b)"
  shows "ip4reassemble now frag [b] ip k = (case f of
      None \<Rightarrow> kbind (ipfragallo4 now ip1 k1) (\<lambda>(f, ip) k.
        Inr (([], stat ReasmReqds (ip\<lparr>ip_flist := f\<lparr>g_id := ident, g_src := src, g_dst := dst, g_blist := [c]\<rparr> # tl (ip_flist ip)\<rparr>)), k))
    | Some i \<Rightarrow> kbind (enqfrag c (g_blist (ip_flist ip1 ! i)) k1) (\<lambda>(r, q) k.
        let ip = ip1\<lparr>ip_flist := (ip_flist ip1)[i := (ip_flist ip1 ! i)\<lparr>g_blist := q\<rparr>]\<rparr> in
        case r of None \<Rightarrow> Inr (([], ip), k)
        | Some bl \<Rightarrow> let (ip, k) = ipfragfree4 i ip k in Inr ((bl, stat ReasmOKs ip), k)))"
proof -
  have h: "hget b 0 IP4HDR k = Inr (take 20 (bcont b), k)" for k :: Kern
    using frag_of_pkt(1) [OF assms(1,2)] by (simp add: IP4HDR_def)
  have g: "b_base b + 4 \<le> b_rp b" using assms(1) by (simp add: okpkt_eq)
  have k: "nhgetl (drop 12 (take 20 (bcont b))) = src" "nhgetl (drop 16 (take 20 (bcont b))) = dst"
    "nhgets (drop 4 (take 20 (bcont b))) = ident"
    using assms(3) by (simp_all add: hkey_def)
  have p: "(if b_base b + IPFRAGSZ \<ge> b_rp b then padblock [b] IPFRAGSZ k else Inr ([b], k)) =
      Inr ([if b_base b + IPFRAGSZ \<ge> b_rp b then b\<lparr>b_rp := b_rp b - IPFRAGSZ\<rparr> else b], k)" for k :: Kern
    using g by (simp add: IPFRAGSZ_def)
  have b: "(if b_base b + IPFRAGSZ \<ge> b_rp b
      then (if b_base b + IPFRAGSZ \<ge> b_rp b then b\<lparr>b_rp := b_rp b - IPFRAGSZ\<rparr> else b)
        \<lparr>b_rp := b_rp (if b_base b + IPFRAGSZ \<ge> b_rp b then b\<lparr>b_rp := b_rp b - IPFRAGSZ\<rparr> else b) + IPFRAGSZ\<rparr>
      else (if b_base b + IPFRAGSZ \<ge> b_rp b then b\<lparr>b_rp := b_rp b - IPFRAGSZ\<rparr> else b)) = b"
    by simp
  have nf: "\<not> (b_base b + IPFRAGSZ \<ge> b_rp b \<and> b_rp b - b_base b < IPFRAGSZ)" using g by (simp add: IPFRAGSZ_def)
  have i4: "of_int IP4HDR = (20 :: ushort)" by (simp add: IP4HDR_def)
  show ?thesis
    unfolding ip4reassemble_def list.case h kbind_simps Let_def k assms(4) list.sel if_False
      simp_thms prod.case if_not_P [OF okpkt_not_whole [OF assms(1)]] p b i4 c_def [symmetric] if_not_P [OF nf] by simp
qed

text \<open>Others are kept or dropped as a whole.\<close>

definition others :: "Fkey \<Rightarrow> Fragment4 list \<Rightarrow> Fragment4 list \<Rightarrow> bool" where
  "others \<kappa> fs gs \<longleftrightarrow> (\<forall>\<kappa>'. \<kappa>' \<noteq> \<kappa> \<longrightarrow> got \<kappa>' fs = got \<kappa>' gs \<or> got \<kappa>' fs = {})"

text \<open>An arrival: its time, the flags and offset, the packet.\<close>

definition akey :: "ulong \<times> ushort \<times> Block \<Rightarrow> Fkey" where "akey x = hkey (take 20 (bcont (snd (snd x))))"

definition aspan :: "ulong \<times> ushort \<times> Block \<Rightarrow> nat set" where
  "aspan x = {unat (push_bit 3 (fst (snd x)))..<unat (push_bit 3 (fst (snd x))) + plen (take 20 (bcont (snd (snd x))))}"

definition aok :: "(Fkey \<Rightarrow> Dgram) \<Rightarrow> ulong \<times> ushort \<times> Block \<Rightarrow> bool" where
  "aok D x \<longleftrightarrow> okpkt (D (akey x)) (fst (snd x)) (snd (snd x)) \<and> length (d_data (D (akey x))) < 65536"

definition whole :: "Dgram \<Rightarrow> Block list \<Rightarrow> bool" where
  "whole d r \<longleftrightarrow> wfp r \<and> (\<exists>h \<in> d_hdrs d. length h = 20 \<and> ccont r = bsplice 2 (hnputs (of_nat (20 + length (d_data d)))) h @ d_data d)"

lemma kok_pairE:
  assumes "kok m (\<lambda>(x, y) k. Q x y k)"
  obtains x y k where "m = Inr ((x, y), k)" "Q x y k"
  using assms by (auto simp: kok_returns)

text \<open>
  One fragment: what was received of its datagram grows by its span, and when that is all of it the result is the
  datagram. The other queues are kept or dropped as a whole, and no block is lost or freed twice.
\<close>

lemma reasm_step:
  assumes ginv: "ginv D (ip_flist ip)" and pool: "ip_flist ip \<noteq> [] \<or> ip_ffree ip \<noteq> []" and mem: "mem_avail k"
    and pkt: "okpkt (D \<kappa>) frag b" and key: "hkey (take 20 (bcont b)) = \<kappa>" and P: "length (d_data (D \<kappa>)) < 65536"
  defines "i \<equiv> unat (push_bit 3 frag)" and "n \<equiv> plen (take 20 (bcont b))" and "N \<equiv> length (d_data (D \<kappa>))"
  shows "kok (ip4reassemble now frag [b] ip k) (\<lambda>(r, ip') k'. ginv D (ip_flist ip') \<and>
    length (ip_flist ip') + length (ip_ffree ip') = length (ip_flist ip) + length (ip_ffree ip) \<and> mem_avail k' \<and>
    acct k' (r @ heldb (ip_flist ip')) = acct k (b # heldb (ip_flist ip)) \<and> others \<kappa> (ip_flist ip') (ip_flist ip) \<and>
    (if got \<kappa> (ip_flist ip) \<union> {i..<i + n} = {..<N}
     then whole (D \<kappa>) r \<and> got \<kappa> (ip_flist ip') = {}
     else r = [] \<and> got \<kappa> (ip_flist ip') = got \<kappa> (ip_flist ip) \<union> {i..<i + n}))"
proof -
  obtain src dst ident where \<kappa>: "\<kappa> = (src, dst, ident)" by (cases \<kappa>) auto
  define c where "c = setflen (nhgets (drop 2 (take 20 (bcont b))) - 20) (setfoff (push_bit 3 frag) b)"
  note fr = frag_of_pkt(2-6) [OF pkt P, folded c_def n_def i_def]
  have sp: "span c = {i..<i + n}" using fr by (simp add: span_def)
  have nN: "n < N" and straddle: "i = 0 \<or> (\<forall>f \<in> d_hdrs (D \<kappa>). plen f \<le> i \<or> i + n \<le> plen f)"
    using pkt by (auto simp: okpkt_eq Let_def N_def n_def i_def split: if_splits)
  obtain f ip1 k1 where fq: "findq now src dst ident [] (ip_flist ip) ip k = (f, ip1, k1)" by (metis prod_cases3)
  note e = reasm_eq [OF pkt P key [unfolded \<kappa>] fq, folded c_def]
  have q: "ginv D (ip_flist ip1)" "fewer (ip_flist ip1) (ip_flist ip)"
    "\<And>cs. acct k1 (cs @ heldb (ip_flist ip1)) = acct k (cs @ heldb (ip_flist ip))" "mem_avail k1"
    "length (ip_flist ip1) + length (ip_ffree ip1) = length (ip_flist ip) + length (ip_ffree ip)"
    "got \<kappa> (ip_flist ip1) = got \<kappa> (ip_flist ip)"
    "case f of None \<Rightarrow> \<kappa> \<notin> fkey ` set (ip_flist ip1) | Some i \<Rightarrow> i < length (ip_flist ip1) \<and> fkey (ip_flist ip1 ! i) = \<kappa>"
    using findq_ok [OF fq, of D] ginv mem unfolding \<kappa> by auto
  show ?thesis
  proof (cases f)
    case None
    have g0: "got \<kappa> (ip_flist ip) = {}" using q(6,7) got_none None by simp
    have ne: "got \<kappa> (ip_flist ip) \<union> {i..<i + n} \<noteq> {..<N}"
    proof
      assume "got \<kappa> (ip_flist ip) \<union> {i..<i + n} = {..<N}"
      then have "card {i..<i + n} = card {..<N}" using g0 by simp
      then show False using nN by simp
    qed
    have pool1: "ip_flist ip1 \<noteq> [] \<or> ip_ffree ip1 \<noteq> []" using pool q(5) by auto
    have c: "dinv (D \<kappa>) [c]" "cov [c] = {i..<i + n}" using fr(1) sp by (simp_all add: fqinv_simps)
    obtain g ip2 k2 fs where al: "ipfragallo4 now ip1 k1 = Inr ((g, ip2), k2)" "ip_flist ip2 = g # fs" "ginv D fs"
      "fewer fs (ip_flist ip1)" "fkey ` set fs \<subseteq> fkey ` set (ip_flist ip1)"
      "\<And>cs. acct k2 (cs @ heldb fs) = acct k1 (cs @ heldb (ip_flist ip1))" "mem_avail k2"
      "Suc (length fs) + length (ip_ffree ip2) = length (ip_flist ip1) + length (ip_ffree ip1)"
      using ipfragallo4_ok [OF q(1) pool1, of now k1] q(4) unfolding kok_returns by auto
    define g' where "g' = g\<lparr>g_id := ident, g_src := src, g_dst := dst, g_blist := [c]\<rparr>"
    have g': "fkey g' = \<kappa>" "g_blist g' = [c]" by (simp_all add: g'_def fkey_def \<kappa>)
    have n1: "\<kappa> \<notin> fkey ` set fs" using q(7) None al(5) by auto
    have "ip4reassemble now frag [b] ip k = Inr (([], stat ReasmReqds (ip2\<lparr>ip_flist := g' # fs\<rparr>)), k2)"
      unfolding e None by (simp add: al(1,2) g'_def)
    moreover have "acct k2 (heldb (g' # fs)) = acct k (b # heldb (ip_flist ip))"
      using al(6) [of "[c]"] q(3) [of "[c]"] fr g' by (simp add: acct_Cons)
    moreover have "others \<kappa> (g' # fs) (ip_flist ip)"
      using fewer_trans [OF al(4) q(2)] g' by (auto simp: others_def fewer_def)
    ultimately show ?thesis
      using al(3,7,8) q(5) g' c ne n1 g0 got_none [OF n1] nN by (auto simp: stat_def ginv_simps N_def)
  next
    case (Some j)
    define g where "g = ip_flist ip1 ! j"
    define pre where "pre = take j (ip_flist ip1)"
    define post where "post = drop (Suc j) (ip_flist ip1)"
    have j: "j < length (ip_flist ip1)" and gk: "fkey g = \<kappa>" using q(7) by (simp_all add: Some g_def)
    have fl: "ip_flist ip1 = pre @ g # post" and lp: "length pre = j"
      using j by (simp_all add: pre_def post_def g_def id_take_nth_drop)
    have pp: "ginv D pre" "ginv D post" "\<kappa> \<notin> fkey ` set pre" "\<kappa> \<notin> fkey ` set post" "fkey ` set pre \<inter> fkey ` set post = {}"
      and gi: "dinv (D \<kappa>) (g_blist g)" "cov (g_blist g) \<noteq> {..<N}"
      using q(1) gk by (auto simp: fl ginv_simps N_def)
    have gc: "cov (g_blist g) = got \<kappa> (ip_flist ip)"
      using q(6) pp(3,4) gk got_none by (simp add: fl)
    have first: "\<forall>z \<in> set (g_blist g). ofs z = 0 \<longrightarrow> ofs c = 0 \<or> len z \<le> ofs c \<or> ofs c + len c \<le> len z"
    proof (intro ballI impI)
      fix z assume z: "z \<in> set (g_blist g)" "ofs z = 0"
      then have "hdr z \<in> d_hdrs (D \<kappa>)" "plen (hdr z) = len z" using gi(1) by (auto simp: fqinv_def okfr_def plen_def)
      then show "ofs c = 0 \<or> len z \<le> ofs c \<or> ofs c + len c \<le> len z" using straddle fr(2,3) by force
    qed
    obtain r q' k2 where en: "enqfrag c (g_blist g) k1 = Inr ((r, q'), k2)" and m2: "mem_avail k2" and
      rs: "case r of None \<Rightarrow> cov (g_blist g) \<union> span c \<noteq> {..<N} \<and> dinv (D \<kappa>) q' \<and> cov q' = cov (g_blist g) \<union> span c \<and>
            acct k2 q' = acct k1 (c # g_blist g)
        | Some bl \<Rightarrow> cov (g_blist g) \<union> span c = {..<N} \<and> q' = [] \<and> wfp bl \<and> acct k2 bl = acct k1 (c # g_blist g) \<and>
            (\<exists>h. h \<in> d_hdrs (D \<kappa>) \<and> length h = 20 \<and> ccont bl = bsplice 2 (hnputs (of_nat (20 + N))) h @ d_data (D \<kappa>))"
      using enqfrag_ok [OF gi(1) gi(2) [unfolded N_def] fr(1) P first, of k1] q(4) unfolding kok_returns N_def by auto
    have ac: "acct k2 (rs @ heldb (pre @ post)) = acct k (b # heldb (ip_flist ip))"
      if a: "acct k2 rs = acct k1 (c # g_blist g)" for rs
    proof -
      have "acct k2 (rs @ heldb (pre @ post)) = acct k2 (heldb (pre @ post) @ rs)" by (rule acct_perm) simp
      also have "\<dots> = acct k1 (heldb (pre @ post) @ c # g_blist g)" using a by (simp add: acct_append)
      also have "\<dots> = acct k1 ([c] @ heldb (ip_flist ip1))" by (rule acct_perm) (simp add: fl)
      also have "\<dots> = acct k (b # heldb (ip_flist ip))" using q(3) [of "[c]"] fr by (simp add: acct_Cons)
      finally show ?thesis .
    qed
    have oth: "others \<kappa> (pre @ g' @ post) (ip_flist ip)" if "\<forall>f \<in> set g'. fkey f = \<kappa>" for g'
      unfolding others_def
    proof (intro allI impI)
      fix \<kappa>' assume n: "\<kappa>' \<noteq> \<kappa>"
      then have "\<kappa>' \<notin> fkey ` set g'" using that by auto
      then have "got \<kappa>' (pre @ g' @ post) = got \<kappa>' (ip_flist ip1)" using n gk got_none by (simp add: fl)
      then show "got \<kappa>' (pre @ g' @ post) = got \<kappa>' (ip_flist ip) \<or> got \<kappa>' (pre @ g' @ post) = {}"
        using q(2) unfolding fewer_def by metis
    qed
    have upd: "(ip_flist ip1)[j := x] = pre @ x # post" for x by (simp add: fl lp [symmetric])
    show ?thesis
    proof (cases r)
      case None
      let ?g = "g\<lparr>g_blist := q'\<rparr>"
      have "ip4reassemble now frag [b] ip k = Inr (([], ip1\<lparr>ip_flist := pre @ ?g # post\<rparr>), k2)"
        unfolding e by (simp add: Some g_def [symmetric] en None upd)
      moreover have "acct k2 (heldb (pre @ ?g # post)) = acct k2 (q' @ heldb (pre @ post))" by (rule acct_perm) simp
      moreover have "ginv D (pre @ ?g # post)" using pp gk rs gc sp by (auto simp: None ginv_simps N_def)
      ultimately show ?thesis
        using rs None ac [of q'] oth [of "[?g]"] m2 q(5) pp(3,4) gk got_none gc sp by (simp add: fl)
    next
      case (Some bl)
      have "ip4reassemble now frag [b] ip k =
          Inr ((bl, stat ReasmOKs (fst (recycle (g\<lparr>g_blist := []\<rparr>) (ip1\<lparr>ip_flist := pre @ post\<rparr>) k2))), k2)"
      proof -
        have "q' = []" "(pre @ x # post) ! j = x" "take j (pre @ x # post) = pre" "drop (Suc j) (pre @ x # post) = post" for x
          using rs Some lp by (auto simp: nth_append)
        then show ?thesis
          unfolding e \<open>f = Some j\<close> option.case g_def [symmetric] en kbind_simps prod.case Some Let_def upd
          by (simp add: ipfragfree4_def recycle_def)
      qed
      moreover have "ginv D (pre @ post)" using pp by (simp add: ginv_simps)
      ultimately show ?thesis
        using rs Some ac [of bl] oth [of "[]"] m2 q(5) pp(3,4) got_none gc sp by (auto simp: fl recycle_def stat_def whole_def N_def)
    qed
  qed
qed

section \<open>Sequences of fragments\<close>

text \<open>Arrivals, with their times; the results in order.\<close>

fun reasm_run :: "(ulong \<times> ushort \<times> Block) list \<Rightarrow> IP \<Rightarrow> Kern \<Rightarrow> (Block list list \<times> IP, Kern) kres" where
  "reasm_run [] ip k = Inr (([], ip), k)"
| "reasm_run ((now, frag, b) # xs) ip k =
     kbind (ip4reassemble now frag [b] ip k) (\<lambda>(r, ip) k. kbind (reasm_run xs ip k) (\<lambda>(rs, ip) k. Inr ((r # rs, ip), k)))"

text \<open>The specification: the set of the bytes received; the datagram is delivered when they are all there.\<close>

definition delivered :: "Dgram \<Rightarrow> Block list \<Rightarrow> bool \<Rightarrow> bool" where
  "delivered d r full \<longleftrightarrow> (if full then whole d r else r = [])"

fun deliver :: "nat \<Rightarrow> nat set \<Rightarrow> nat set list \<Rightarrow> bool list" where
  "deliver N C [] = []"
| "deliver N C (S # Ss) = (if C \<union> S = {..<N} then True # deliver N {} Ss else False # deliver N (C \<union> S) Ss)"

lemma reasm_stepD:
  assumes "ginv D (ip_flist ip)" "ip_flist ip \<noteq> [] \<or> ip_ffree ip \<noteq> []" "mem_avail k" "aok D (now, frag, b)"
  obtains r ip' k' where "ip4reassemble now frag [b] ip k = Inr ((r, ip'), k')" "ginv D (ip_flist ip')"
    "length (ip_flist ip') + length (ip_ffree ip') = length (ip_flist ip) + length (ip_ffree ip)" "mem_avail k'"
    "\<forall>cs. acct k' (cs @ r @ heldb (ip_flist ip')) = acct k (cs @ b # heldb (ip_flist ip))"
    "if got (akey (now, frag, b)) (ip_flist ip) \<union> aspan (now, frag, b) = {..<length (d_data (D (akey (now, frag, b))))}
     then whole (D (akey (now, frag, b))) r \<and> got (akey (now, frag, b)) (ip_flist ip') = {}
     else r = [] \<and> got (akey (now, frag, b)) (ip_flist ip') = got (akey (now, frag, b)) (ip_flist ip) \<union> aspan (now, frag, b)"
proof -
  have a: "okpkt (D (akey (now, frag, b))) frag b" "length (d_data (D (akey (now, frag, b)))) < 65536"
    "hkey (take 20 (bcont b)) = akey (now, frag, b)"
    using assms(4) by (simp_all add: aok_def akey_def)
  show ?thesis
  proof (rule kok_pairE [OF reasm_step [OF assms(1-3) a(1,3,2), of now]], elim conjE, rule that)
    fix r ip' k'
    assume "acct k' (r @ heldb (ip_flist ip')) = acct k (b # heldb (ip_flist ip))"
    then show "\<forall>cs. acct k' (cs @ r @ heldb (ip_flist ip')) = acct k (cs @ b # heldb (ip_flist ip))"
      by (simp add: acct_append acct_Cons)
  qed (simp_all add: aspan_def)
qed

text \<open>
  What a sequence of arrivals may be. \<open>D\<close> has the payload of each datagram and the headers of the first fragments seen
  of it; an arriving fragment must not run over the end of a first fragment that arrived before it.
\<close>

definition aoff :: "ulong \<times> ushort \<times> Block \<Rightarrow> nat" where "aoff x = unat (push_bit 3 (fst (snd x)))"
definition ahdr :: "ulong \<times> ushort \<times> Block \<Rightarrow> byte list" where "ahdr x = take 20 (bcont (snd (snd x)))"

definition seen :: "ulong \<times> ushort \<times> Block \<Rightarrow> (Fkey \<Rightarrow> Dgram) \<Rightarrow> Fkey \<Rightarrow> Dgram" where
  "seen x D = (if aoff x = 0 then D(akey x := (D (akey x))\<lparr>d_hdrs := insert (ahdr x) (d_hdrs (D (akey x)))\<rparr>) else D)"

definition overruns :: "(Fkey \<Rightarrow> Dgram) \<Rightarrow> ulong \<times> ushort \<times> Block \<Rightarrow> bool" where
  "overruns D x \<longleftrightarrow> 0 < aoff x \<and> (\<exists>h \<in> d_hdrs (D (akey x)). aoff x < plen h \<and> plen h < aoff x + plen (ahdr x))"

fun arrivals :: "(Fkey \<Rightarrow> Dgram) \<Rightarrow> (ulong \<times> ushort \<times> Block) list \<Rightarrow> bool" where
  "arrivals D [] = True"
| "arrivals D (x # xs) \<longleftrightarrow> okfrag (D (akey x)) (fst (snd x)) (snd (snd x)) \<and> length (d_data (D (akey x))) < 65536 \<and>
     \<not> overruns D x \<and> arrivals (seen x D) xs"

lemma seen_grows: "d_data (seen x D \<kappa>) = d_data (D \<kappa>)" "d_hdrs (D \<kappa>) \<subseteq> d_hdrs (seen x D \<kappa>)"
  by (auto simp: seen_def)

lemma folds_grow: "d_data (fold seen xs D \<kappa>) = d_data (D \<kappa>) \<and> d_hdrs (D \<kappa>) \<subseteq> d_hdrs (fold seen xs D \<kappa>)"
proof (induction xs arbitrary: D)
  case (Cons x xs)
  show ?case using Cons.IH [of "seen x D"] seen_grows [where x = x and D = D and \<kappa> = \<kappa>] by auto
qed simp

lemma seen_aok:
  assumes "okfrag (D (akey x)) (fst (snd x)) (snd (snd x))" "length (d_data (D (akey x))) < 65536" "\<not> overruns D x"
  shows "aok (seen x D) x"
proof -
  have "okfrag (seen x D (akey x)) (fst (snd x)) (snd (snd x))"
    using assms(1) unfolding okfrag_def seen_grows .
  moreover have "aoff x = 0 \<longrightarrow> ahdr x \<in> d_hdrs (seen x D (akey x))" by (simp add: seen_def)
  moreover have "0 < aoff x \<longrightarrow> (\<forall>f \<in> d_hdrs (seen x D (akey x)). plen f \<le> aoff x \<or> aoff x + plen (ahdr x) \<le> plen f)"
    using assms(3) by (auto simp: overruns_def seen_def)
  ultimately show ?thesis
    using assms(2) by (simp add: aok_def okpkt_def Let_def seen_grows aoff_def [symmetric] ahdr_def [symmetric])
qed

lemma ginv_grows:
  assumes "ginv D fs" "\<And>\<kappa>. d_data (E \<kappa>) = d_data (D \<kappa>) \<and> d_hdrs (D \<kappa>) \<subseteq> d_hdrs (E \<kappa>)"
  shows "ginv E fs"
proof -
  have "dinv (E (fkey f)) q" if "dinv (D (fkey f)) q" for f q
    using that assms(2) [of "fkey f"] by (auto simp: fqinv_def okfr_def)
  then show ?thesis using assms by (auto simp: ginv_def)
qed

lemma whole_grows:
  "whole d r \<Longrightarrow> d_data e = d_data d \<Longrightarrow> d_hdrs d \<subseteq> d_hdrs e \<Longrightarrow> whole e r"
  by (auto simp: whole_def)

lemma reasm_run_one:
  assumes "ginv D (ip_flist ip)" "ip_flist ip \<noteq> [] \<or> ip_ffree ip \<noteq> []" "mem_avail k" "arrivals D xs" "\<forall>x \<in> set xs. akey x = \<kappa>"
  shows "kok (reasm_run xs ip k) (\<lambda>(rs, ip') k'.
    list_all2 (delivered (fold seen xs D \<kappa>)) rs
      (deliver (length (d_data (D \<kappa>))) (got \<kappa> (ip_flist ip)) (map aspan xs)))"
  using assms
proof (induction xs arbitrary: ip k D)
  case (Cons x xs)
  obtain now frag b where x: "x = (now, frag, b)" by (cases x) auto
  let ?E = "seen x D" and ?F = "fold seen (x # xs) D"
  have ok: "aok ?E (now, frag, b)" and key: "akey (now, frag, b) = \<kappa>"
    using Cons.prems(4,5) seen_aok [of D x] by (simp_all add: x)
  have gE: "ginv ?E (ip_flist ip)" by (rule ginv_grows [OF Cons.prems(1)]) (use seen_grows in blast)
  have dE: "d_data (?E \<kappa>) = d_data (D \<kappa>)" by (rule seen_grows)
  have wF: "whole (?F \<kappa>) r" if "whole (?E \<kappa>) r" for r
    using whole_grows [OF that] folds_grow [of xs ?E \<kappa>] by simp
  obtain r ip' k' where st: "ip4reassemble now frag [b] ip k = Inr ((r, ip'), k')" "ginv ?E (ip_flist ip')"
    "length (ip_flist ip') + length (ip_ffree ip') = length (ip_flist ip) + length (ip_ffree ip)" "mem_avail k'"
    and g: "if got \<kappa> (ip_flist ip) \<union> aspan (now, frag, b) = {..<length (d_data (?E \<kappa>))}
     then whole (?E \<kappa>) r \<and> got \<kappa> (ip_flist ip') = {}
     else r = [] \<and> got \<kappa> (ip_flist ip') = got \<kappa> (ip_flist ip) \<union> aspan (now, frag, b)"
    by (rule reasm_stepD [OF gE Cons.prems(2,3) ok, unfolded key])
  have pool: "ip_flist ip' \<noteq> [] \<or> ip_ffree ip' \<noteq> []" using Cons.prems(2) st(3) by auto
  have xs: "arrivals ?E xs" "\<forall>x \<in> set xs. akey x = \<kappa>" using Cons.prems(4,5) by simp_all
  show ?case
  proof (rule kok_pairE [OF Cons.IH [OF st(2) pool st(4) xs]])
    fix rs ip2 k2
    assume run: "reasm_run xs ip' k' = Inr ((rs, ip2), k2)"
      and l: "list_all2 (delivered (fold seen xs ?E \<kappa>)) rs (deliver (length (d_data (?E \<kappa>))) (got \<kappa> (ip_flist ip')) (map aspan xs))"
    have "reasm_run (x # xs) ip k = Inr ((r # rs, ip2), k2)" using st(1) run by (simp add: x)
    moreover have "list_all2 (delivered (?F \<kappa>)) (r # rs) (deliver (length (d_data (D \<kappa>))) (got \<kappa> (ip_flist ip)) (map aspan (x # xs)))"
      using g l wF unfolding x list.map deliver.simps dE [unfolded x] by (simp add: delivered_def split: if_splits del: got_simps)
    ultimately show ?thesis by simp
  qed
qed simp

lemma reasm_run_all:
  assumes "ginv D (ip_flist ip)" "ip_flist ip \<noteq> [] \<or> ip_ffree ip \<noteq> []" "mem_avail k" "arrivals D xs"
  shows "kok (reasm_run xs ip k) (\<lambda>(rs, ip') k'. ginv (fold seen xs D) (ip_flist ip') \<and>
    length (ip_flist ip') + length (ip_ffree ip') = length (ip_flist ip) + length (ip_ffree ip) \<and>
    list_all2 (\<lambda>r x. r = [] \<or> whole (fold seen xs D (akey x)) r) rs xs \<and>
    (\<forall>cs. acct k' (cs @ concat rs @ heldb (ip_flist ip')) = acct k (cs @ map (\<lambda>x. snd (snd x)) xs @ heldb (ip_flist ip))))"
  using assms
proof (induction xs arbitrary: ip k D)
  case (Cons x xs)
  obtain now frag b where x: "x = (now, frag, b)" by (cases x) auto
  let ?E = "seen x D" and ?F = "fold seen (x # xs) D"
  have ok: "aok ?E (now, frag, b)" using Cons.prems(4) seen_aok [of D x] by (simp add: x)
  have gE: "ginv ?E (ip_flist ip)" by (rule ginv_grows [OF Cons.prems(1)]) (use seen_grows in blast)
  have wF: "whole (?F \<kappa>) r" if "whole (?E \<kappa>) r" for r \<kappa>
    using whole_grows [OF that] folds_grow [of xs ?E \<kappa>] by simp
  obtain r ip' k' where st: "ip4reassemble now frag [b] ip k = Inr ((r, ip'), k')" "ginv ?E (ip_flist ip')"
    "length (ip_flist ip') + length (ip_ffree ip') = length (ip_flist ip) + length (ip_ffree ip)" "mem_avail k'"
    and a: "\<forall>cs. acct k' (cs @ r @ heldb (ip_flist ip')) = acct k (cs @ b # heldb (ip_flist ip))"
    and g: "if got (akey x) (ip_flist ip) \<union> aspan x = {..<length (d_data (?E (akey x)))}
     then whole (?E (akey x)) r \<and> got (akey x) (ip_flist ip') = {}
     else r = [] \<and> got (akey x) (ip_flist ip') = got (akey x) (ip_flist ip) \<union> aspan x"
    by (rule reasm_stepD [OF gE Cons.prems(2,3) ok, folded x])
  have pool: "ip_flist ip' \<noteq> [] \<or> ip_ffree ip' \<noteq> []" using Cons.prems(2) st(3) by auto
  have xs: "arrivals ?E xs" using Cons.prems(4) by simp
  have w: "r = [] \<or> whole (?F (akey x)) r" using g wF by (auto split: if_splits)
  have ac: "acct k2 (cs @ (r @ concat rs) @ heldb ip2) = acct k (cs @ b # map (\<lambda>x. snd (snd x)) xs @ heldb (ip_flist ip))"
    if IH: "\<forall>cs. acct k2 (cs @ concat rs @ heldb ip2) = acct k' (cs @ map (\<lambda>x. snd (snd x)) xs @ heldb (ip_flist ip'))" for cs k2 rs ip2
  proof -
    have "acct k2 (cs @ (r @ concat rs) @ heldb ip2) = acct k' ((cs @ r) @ map (\<lambda>x. snd (snd x)) xs @ heldb (ip_flist ip'))"
      using IH [rule_format, of "cs @ r"] by simp
    also have "\<dots> = acct k' ((cs @ map (\<lambda>x. snd (snd x)) xs) @ r @ heldb (ip_flist ip'))" by (rule acct_perm) simp
    also have "\<dots> = acct k ((cs @ map (\<lambda>x. snd (snd x)) xs) @ b # heldb (ip_flist ip))" using a by blast
    also have "\<dots> = acct k (cs @ b # map (\<lambda>x. snd (snd x)) xs @ heldb (ip_flist ip))" by (rule acct_perm) simp
    finally show ?thesis .
  qed
  show ?case
  proof (rule kok_pairE [OF Cons.IH [OF st(2) pool st(4) xs]], elim conjE)
    fix rs ip2 k2
    assume run: "reasm_run xs ip' k' = Inr ((rs, ip2), k2)" and l: "ginv (fold seen xs ?E) (ip_flist ip2)"
      "length (ip_flist ip2) + length (ip_ffree ip2) = length (ip_flist ip') + length (ip_ffree ip')"
      "list_all2 (\<lambda>r x. r = [] \<or> whole (fold seen xs ?E (akey x)) r) rs xs"
      and IH: "\<forall>cs. acct k2 (cs @ concat rs @ heldb (ip_flist ip2)) = acct k' (cs @ map (\<lambda>x. snd (snd x)) xs @ heldb (ip_flist ip'))"
    have "reasm_run (x # xs) ip k = Inr ((r # rs, ip2), k2)" using st(1) run by (simp add: x)
    then show ?thesis using l st(3) w ac [OF IH] by (simp add: x)
  qed
qed simp

end
