(* ===== verification/Checksum.thy ===== *)
theory Checksum
  imports Blocklist
begin

text \<open>
  The internet checksum (\<^verbatim>\<open>ip/ptclbsum.c\<close>, \<^verbatim>\<open>ptclcsum\<close> of \<^verbatim>\<open>ip/ipaux.c\<close>): a sum over one
  buffer that is optimised for the parity of the address, the byte order and blocks of 16 bytes, and a
  sum over a chain of blocks. Both are shown to be the ones-complement sum of the 16-bit words in
  network order. The sums are kept in 32 bits, so the length is bounded.
\<close>

section \<open>One buffer\<close>

text \<open>A 16-bit load from two bytes, on a machine of either byte order.\<close>

definition half :: "bool \<Rightarrow> byte \<Rightarrow> byte \<Rightarrow> ulong" where
  "half little b0 b1 = (if little then ucast b0 + 256 * ucast b1 else 256 * ucast b0 + ucast b1)"

function mdsum16 :: "bool \<Rightarrow> byte list \<Rightarrow> ulong \<Rightarrow> byte list \<times> ulong" where
  "mdsum16 little addr mdsum =
     (if length addr \<ge> 16 then
        mdsum16 little (drop 16 addr)
          (mdsum + half little (addr ! 0) (addr ! 1) + half little (addr ! 2) (addr ! 3) +
             half little (addr ! 4) (addr ! 5) + half little (addr ! 6) (addr ! 7) +
             half little (addr ! 8) (addr ! 9) + half little (addr ! 10) (addr ! 11) +
             half little (addr ! 12) (addr ! 13) + half little (addr ! 14) (addr ! 15))
      else (addr, mdsum))"
  by pat_completeness auto
termination by (relation "measure (\<lambda>(_, addr, _). length addr)") auto

declare mdsum16.simps [simp del]

fun mdsum2 :: "bool \<Rightarrow> byte list \<Rightarrow> ulong \<Rightarrow> byte list \<times> ulong" where
  "mdsum2 little (b0 # b1 # addr) mdsum = mdsum2 little addr (mdsum + half little b0 b1)"
| "mdsum2 little addr mdsum = (addr, mdsum)"

text \<open>The loop that folds the carries back in.\<close>

lemma unat_drop_bit: "unat (drop_bit n (w::ulong)) = unat w div 2 ^ n"
proof -
  have "unat (drop_bit n w) = drop_bit n (unat w)"
    using unsigned_less [of w, where ?'a = nat] by (simp add: unsigned_drop_bit_eq take_bit_nat_eq_self)
  then show ?thesis by (simp only: drop_bit_eq_div)
qed

lemma fold_less:
  assumes "drop_bit 16 w \<noteq> (0::ulong)"
  shows "unat (drop_bit 16 w + (w AND 0xffff)) = unat w div 65536 + unat w mod 65536"
    "unat w div 65536 + unat w mod 65536 < unat w"
proof -
  have h: "unat (drop_bit 16 w) = unat w div 65536" by (simp add: unat_drop_bit)
  have "(0xffff :: ulong) = mask 16" by (simp add: mask_eq_exp_minus_1)
  then have "w AND 0xffff = take_bit 16 w" by (simp add: take_bit_eq_mask)
  then have l: "unat (w AND 0xffff) = unat w mod 65536"
    using unsigned_take_bit_eq [of 16 w, where ?'a = nat] by (simp add: take_bit_eq_mod)
  have b: "unat w < 2 ^ 32" using unsigned_less [of w, where ?'a = nat] by simp
  have "unat w div 65536 \<noteq> 0" using assms h by (metis unat_eq_zero)
  then show "unat w div 65536 + unat w mod 65536 < unat w"
    using div_mult_mod_eq [of "unat w" 65536] by linarith
  then show "unat (drop_bit 16 w + (w AND 0xffff)) = unat w div 65536 + unat w mod 65536"
    unfolding unat_word_ariths(1) h l using b by simp
qed

function sumfold :: "ulong \<Rightarrow> ulong" where
  "sumfold losum = (let hisum = drop_bit 16 losum in
     if hisum \<noteq> 0 then sumfold (hisum + (losum AND 0xffff)) else losum)"
  by pat_completeness auto
termination by (relation "measure unat") (simp_all add: fold_less)

declare sumfold.simps [simp del]

text \<open>Both sums into one: the high sum counts the bytes of the other half of a word.\<close>

definition sumup :: "ulong \<Rightarrow> ulong \<Rightarrow> ulong" where
  "sumup losum hisum = sumfold (losum + drop_bit 8 hisum + push_bit 8 (hisum AND 0xff))"

text \<open>The address of the buffer matters only by its parity \<open>x\<close>.\<close>

definition ptclbsum :: "bool \<Rightarrow> bool \<Rightarrow> byte list \<Rightarrow> ushort" where
  "ptclbsum little x addr =
     (let (hisum, addr) = (if x then (case addr of [] \<Rightarrow> (0, []) | a # addr \<Rightarrow> (ucast a, addr)) else (0, addr));
          (addr, mdsum) = mdsum16 little addr 0;
          (addr, mdsum) = mdsum2 little addr mdsum;
          lastb = (case addr of [] \<Rightarrow> 0 | a # _ \<Rightarrow> ucast a);
          (losum, hisum) =
            (if x then
               (if little then (lastb + mdsum, hisum) else (lastb, hisum + mdsum))
             else
               (if little then (0, hisum + lastb + mdsum) else (mdsum, hisum + lastb)))
      in ucast (sumup losum hisum AND 0xffff))"

section \<open>The ones-complement sum\<close>

text \<open>
  The sum of the 16-bit words in network order, as a number: \<open>par True\<close> weighs the bytes at even
  offsets by 256; and its ones-complement residue, between 0 and 65535.
\<close>

fun par :: "bool \<Rightarrow> byte list \<Rightarrow> nat" where
  "par h [] = 0"
| "par h (a # r) = (if h then 256 * unat a else unat a) + par (\<not> h) r"

definition ocsum :: "nat \<Rightarrow> nat" where
  "ocsum s = (if s = 0 then 0 else (s - 1) mod 65535 + 1)"

lemma ocsum_cong:
  assumes "a mod 65535 = b mod 65535" "a = 0 \<longleftrightarrow> b = 0"
  shows "ocsum a = ocsum b"
proof (cases "a = 0")
  case False
  have "(a + 65534) mod 65535 = (b + 65534) mod 65535" using assms(1) by (rule mod_add_cong) (rule refl)
  moreover have "x + 65534 = x - 1 + 65535" if "x \<noteq> 0" for x :: nat using that by simp
  ultimately have "(a - 1) mod 65535 = (b - 1) mod 65535" using False assms(2) by (metis mod_add_self2)
  then show ?thesis using False assms(2) by (simp add: ocsum_def)
qed (use assms in \<open>simp add: ocsum_def\<close>)

lemma ocsum_small: "s < 65536 \<Longrightarrow> ocsum s = s"
  by (auto simp: ocsum_def)

lemma ocsum_le: "ocsum s \<le> 65535" "ocsum s mod 65535 = s mod 65535" "ocsum s = 0 \<longleftrightarrow> s = 0"
proof -
  have "(s - 1) mod 65535 < 65535" by simp
  then show "ocsum s \<le> 65535" by (auto simp: ocsum_def)
  show "ocsum s mod 65535 = s mod 65535"
  proof (cases s)
    case (Suc t)
    then show ?thesis using mod_Suc_eq [of t 65535] by (simp add: ocsum_def)
  qed (simp add: ocsum_def)
  show "ocsum s = 0 \<longleftrightarrow> s = 0" by (simp add: ocsum_def)
qed

lemma unat_sumfold: "unat (sumfold w) = ocsum (unat w)"
proof (induction w rule: sumfold.induct)
  case (1 w)
  show ?case
  proof (cases "drop_bit 16 w = 0")
    case True
    then have "unat w div 65536 = 0"
      using unat_drop_bit [of 16 w] by simp
    then show ?thesis using True by (simp add: sumfold.simps [of w] ocsum_small div_eq_0_iff)
  next
    case False
    note l = fold_less [OF False]
    have "ocsum (unat w div 65536 + unat w mod 65536) = ocsum (unat w)"
    proof (rule ocsum_cong)
      have "unat w = unat w div 65536 + unat w mod 65536 + unat w div 65536 * 65535"
        using div_mult_mod_eq [of "unat w" 65536] by linarith
      then show "(unat w div 65536 + unat w mod 65536) mod 65535 = unat w mod 65535" by (metis mod_mult_self1)
    qed (use l(2) div_mult_mod_eq [of "unat w" 65536] in linarith)
    then show ?thesis using False 1 l(1) by (simp add: sumfold.simps [of w])
  qed
qed


section \<open>What ptclbsum computes\<close>

fun pairs :: "bool \<Rightarrow> byte list \<Rightarrow> nat" where
  "pairs h (a # b # r) = (if h then 256 * unat a + unat b else unat a + 256 * unat b) + pairs h r"
| "pairs h _ = 0"

fun rest :: "byte list \<Rightarrow> byte list" where
  "rest (a # b # r) = rest r"
| "rest r = r"

lemma half_nat: "half little a b = of_nat (if little then unat a + 256 * unat b else 256 * unat a + unat b)"
  by (simp add: half_def)

lemma mdsum2_eq: "mdsum2 little addr m = (rest addr, m + of_nat (pairs (\<not> little) addr))"
  by (induction little addr m rule: mdsum2.induct) (auto simp: half_nat)

lemma mdsum16_eq: "mdsum16 little addr m = (addr', m') \<Longrightarrow>
    rest addr' = rest addr \<and> m' + of_nat (pairs (\<not> little) addr') = m + of_nat (pairs (\<not> little) addr)"
proof (induction little addr m rule: mdsum16.induct)
  case (1 little addr m)
  show ?case
  proof (cases "length addr \<ge> 16")
    case True
    have "16 = Suc (Suc (Suc (Suc (Suc (Suc (Suc (Suc (Suc (Suc (Suc (Suc (Suc (Suc (Suc (Suc 0)))))))))))))))" by simp
    then obtain a0 a1 a2 a3 a4 a5 a6 a7 a8 a9 b0 b1 b2 b3 b4 b5 r where
      a: "addr = a0 # a1 # a2 # a3 # a4 # a5 # a6 # a7 # a8 # a9 # b0 # b1 # b2 # b3 # b4 # b5 # r"
      using True by (auto simp only: Suc_le_length_iff)
    have "mdsum16 little (drop 16 addr)
          (m + half little (addr ! 0) (addr ! 1) + half little (addr ! 2) (addr ! 3) +
             half little (addr ! 4) (addr ! 5) + half little (addr ! 6) (addr ! 7) +
             half little (addr ! 8) (addr ! 9) + half little (addr ! 10) (addr ! 11) +
             half little (addr ! 12) (addr ! 13) + half little (addr ! 14) (addr ! 15)) = (addr', m')"
      using 1(2) True by (subst (asm) mdsum16.simps) simp
    from 1(1) [OF True this] show ?thesis by (auto simp: a half_nat)
  next
    case False
    then show ?thesis using 1(2) by (subst (asm) mdsum16.simps) simp
  qed
qed

lemma rest_cases: "rest r = [] \<or> (\<exists>a. rest r = [a])"
  by (induction r rule: rest.induct) auto

lemma par_pairs: "par h r = pairs h r + par h (rest r)"
  by (induction r rule: rest.induct) auto

lemma pairs_le: "pairs h r \<le> 65535 * (length r div 2)"
proof (induction h r rule: pairs.induct)
  case (1 h a b r)
  have "unat a \<le> 255" "unat b \<le> 255" using unsigned_less [of a, where ?'a = nat] unsigned_less [of b, where ?'a = nat] by simp_all
  then show ?case using 1 by auto
qed auto

lemma par_zero: "par h r = 0 \<longleftrightarrow> (\<forall>a \<in> set r. a = 0)"
  by (induction r arbitrary: h) (auto simp: unat_eq_zero)

text \<open>Multiplying by 256 swaps the weights, modulo 65535.\<close>

lemma par_swap_ex: "\<exists>k. 256 * par h r = par (\<not> h) r + k * 65535"
proof (induction r arbitrary: h)
  case (Cons a r)
  obtain k where "256 * par (\<not> h) r = par h r + k * 65535" using Cons [of "\<not> h"] by auto
  then have "256 * par h (a # r) = par (\<not> h) (a # r) + (k + (if h then unat a else 0)) * 65535" by auto
  then show ?case by blast
qed auto

lemma par_swap: "256 * par h r mod 65535 = par (\<not> h) r mod 65535"
  using par_swap_ex [of h r] by (metis mod_mult_self1)

definition swapb :: "nat \<Rightarrow> nat" where "swapb h = h div 256 + h mod 256 * 256"

lemma swapb_mod: "swapb h mod 65535 = 256 * h mod 65535"
proof -
  have "256 * h = swapb h + h div 256 * 65535"
    using div_mult_mod_eq [of h 256] unfolding swapb_def by linarith
  then show ?thesis by (metis mod_mult_self1)
qed

lemma swapb_zero: "swapb h = 0 \<longleftrightarrow> h = 0"
  using div_mult_mod_eq [of h 256] by (auto simp: swapb_def)

lemma swapb_le: "swapb h \<le> h div 256 + 65280"
  using mod_less_divisor [of 256 h] by (simp add: swapb_def)

lemma swapb_small: "h < 256 \<Longrightarrow> swapb h = 256 * h" by (simp add: swapb_def)

text \<open>The last steps of both routines, on the values of the two sums.\<close>

lemma unat_of_nat_less: "n < 2 ^ 32 \<Longrightarrow> unat (of_nat n :: ulong) = n"
  by (simp add: unat_of_nat take_bit_nat_eq_self)

lemma unat_sumup:
  assumes "unat lo + swapb (unat hi) < 2 ^ 32"
  shows "unat (sumup lo hi) = ocsum (unat lo + swapb (unat hi))"
proof -
  have m: "(0xff :: ulong) = mask 8" by (simp add: mask_eq_exp_minus_1)
  have "unat (hi AND 0xff) = unat hi mod 256"
    unfolding m using unsigned_take_bit_eq [of 8 hi, where ?'a = nat] by (simp add: take_bit_eq_mask [symmetric] take_bit_eq_mod)
  from arg_cong [OF this, of "of_nat :: nat \<Rightarrow> ulong"]
  have l: "hi AND 0xff = of_nat (unat hi mod 256)" by simp
  have d: "drop_bit 8 hi = of_nat (unat hi div 256)"
    using arg_cong [OF unat_drop_bit [of 8 hi], of "of_nat :: nat \<Rightarrow> ulong"] by simp
  have "lo + drop_bit 8 hi + push_bit 8 (hi AND 0xff) = of_nat (unat lo + swapb (unat hi))"
    unfolding d l by (simp add: swapb_def push_bit_eq_mult)
  then have "unat (lo + drop_bit 8 hi + push_bit 8 (hi AND 0xff)) = unat lo + swapb (unat hi)"
    by (simp only: unat_of_nat_less [OF assms])
  then show ?thesis by (simp only: sumup_def unat_sumfold)
qed

lemma unat_low16:
  assumes "unat (w::ulong) \<le> 65535"
  shows "unat (ucast (w AND 0xffff) :: ushort) = unat w"
proof -
  have m: "(0xffff :: ulong) = mask 16" by (simp add: mask_eq_exp_minus_1)
  have "unat (ucast (w AND 0xffff) :: ushort) = unat w mod 65536"
    unfolding m using unsigned_take_bit_eq [of 16 w, where ?'a = nat]
    by (simp add: take_bit_eq_mask [symmetric] take_bit_eq_mod unsigned_ucast_eq)
  then show ?thesis using assms by simp
qed

lemma tail_par: "(case rest r of [] \<Rightarrow> 0 | a # _ \<Rightarrow> ucast a) = (of_nat (par False (rest r)) :: ulong)"
  "par True (rest r) = 256 * par False (rest r)" "par False (rest r) < 256"
proof -
  show "(case rest r of [] \<Rightarrow> 0 | a # _ \<Rightarrow> ucast a) = (of_nat (par False (rest r)) :: ulong)" using rest_cases [of r] by auto
  show "par True (rest r) = 256 * par False (rest r)" using rest_cases [of r] by auto
  show "par False (rest r) < 256" using rest_cases [of r] unsigned_less [where ?'a = nat and ?'b = 8] by auto
qed

lemma length_byte: "unat (a::byte) \<le> 255"
  using unsigned_less [of a, where ?'a = nat] by simp

text \<open>
  The two halves of the sum that \<^verbatim>\<open>ptclbsum\<close> has before its last steps, as numbers: the byte of an
  odd address, the words, and the byte that is left over.
\<close>

lemma ptclbsum_halves:
  fixes h0 :: nat
  assumes "length r \<le> 131070" "h0 \<le> 255"
    "lohi = (if x then (if little then (lastb + md, h0) else (lastb, h0 + md)) else (if little then (0, h0 + lastb + md) else (md, h0 + lastb)))"
    "md = pairs (\<not> little) r" "lastb = par False (rest r)"
  shows "fst lohi + swapb (snd lohi) < 2 ^ 32" "fst lohi < 2 ^ 32" "snd lohi < 2 ^ 32"
proof -
  have "length r div 2 \<le> 65535" using assms(1) by simp
  then have md: "md \<le> 65535 * 65535" using pairs_le [of "\<not> little" r] assms(4) by (metis le_trans mult_le_mono2)
  have l: "lastb < 256" using tail_par(3) assms(5) by simp
  have s: "swapb a \<le> a div 256 + 65280" for a by (rule swapb_le)
  show "fst lohi < 2 ^ 32" "snd lohi < 2 ^ 32" using assms(2,3) md l by auto
  show "fst lohi + swapb (snd lohi) < 2 ^ 32"
    using assms(2,3) md l s [of h0] s [of "h0 + md"] s [of "h0 + lastb + md"] s [of "h0 + lastb"] by (auto split: if_splits)
qed

lemma halves_value:
  fixes h0 :: nat
  assumes "h0 \<le> 255" "x \<or> h0 = 0"
    "lohi = (if x then (if little then (lastb + md, h0) else (lastb, h0 + md)) else (if little then (0, h0 + lastb + md) else (md, h0 + lastb)))"
    "md = pairs (\<not> little) r" "lastb = par False (rest r)"
  shows "ocsum (fst lohi + swapb (snd lohi)) = ocsum (if x then 256 * h0 + par False r else par True r)"
proof (rule ocsum_cong)
  have p: "par (\<not> little) r = md + par (\<not> little) (rest r)" unfolding assms(4) by (rule par_pairs)
  show "fst lohi + swapb (snd lohi) = 0 \<longleftrightarrow> (if x then 256 * h0 + par False r else par True r) = 0"
  proof -
    have "md + lastb = 0 \<longleftrightarrow> par (\<not> little) r = 0" using p tail_par(2) [of r] assms(5) by (cases little) simp_all
    then have "md + lastb = 0 \<longleftrightarrow> par g r = 0" for g by (simp add: par_zero)
    then show ?thesis using assms(2,3) by (auto simp: swapb_zero)
  qed
  show "(fst lohi + swapb (snd lohi)) mod 65535 = (if x then 256 * h0 + par False r else par True r) mod 65535"
  proof (cases x; cases little)
    assume c: "x" "little"
    then show ?thesis using assms p by (simp add: swapb_small ac_simps)
  next
    assume c: "\<not> x" "\<not> little"
    then show ?thesis using assms p tail_par(2,3) [of r] by (simp add: swapb_small)
  next
    assume c: "\<not> x" "little"
    then have "(fst lohi + swapb (snd lohi)) mod 65535 = 256 * par False r mod 65535"
      using assms p by (simp add: swapb_mod ac_simps)
    then show ?thesis using c par_swap [of False r] by simp
  next
    assume c: "x" "\<not> little"
    have "(fst lohi + swapb (snd lohi)) mod 65535 = (lastb + swapb (h0 + md)) mod 65535" using c assms(3) by simp
    also have "\<dots> = (lastb + 256 * (h0 + md)) mod 65535" by (rule mod_add_cong [OF refl swapb_mod])
    also have "\<dots> = ((256 * h0) + 256 * par True r) mod 65535"
    proof -
      have "256 * par True r = 256 * md + lastb * 65536" using p c tail_par(2) [of r] assms(5) by simp
      then have "256 * h0 + 256 * par True r = lastb + 256 * (h0 + md) + lastb * 65535" by simp
      then show ?thesis by (metis mod_mult_self1)
    qed
    also have "\<dots> = (256 * h0 + par False r) mod 65535"
      using mod_add_cong [OF refl par_swap [of True r]] by simp
    finally show ?thesis using c by simp
  qed
qed


text \<open>
  Whatever the byte order of the machine and the parity of the address, the sum of at most 131070
  bytes is the ones-complement sum of the words in network order.
\<close>

lemma ptclbsum_ok:
  assumes "length addr \<le> 131070"
  shows "unat (ptclbsum little x addr) = ocsum (par True addr)"
proof -
  define h0 where "h0 = (if x then case addr of [] \<Rightarrow> 0 | a # _ \<Rightarrow> unat a else 0)"
  define r where "r = (if x then tl addr else addr)"
  define md where "md = pairs (\<not> little) r"
  define lastb where "lastb = par False (rest r)"
  define lohi where "lohi = (if x then (if little then (lastb + md, h0) else (lastb, h0 + md)) else (if little then (0, h0 + lastb + md) else (md, h0 + lastb)))"
  have first: "(if x then (case addr of [] \<Rightarrow> (0, []) | a # addr \<Rightarrow> (ucast a, addr)) else (0, addr)) = (of_nat h0 :: ulong, r)"
    by (cases addr) (simp_all add: h0_def r_def)
  obtain a1 m1 where m1: "mdsum16 little r 0 = (a1, m1)" by fastforce
  then have m: "rest a1 = rest r" "m1 + of_nat (pairs (\<not> little) a1) = of_nat md" using mdsum16_eq [OF m1] by (simp_all add: md_def)
  have len: "length r \<le> 131070" using assms by (cases addr) (auto simp: r_def)
  have h0: "h0 \<le> 255" "x \<or> h0 = 0" by (auto simp: h0_def length_byte split: list.split)
  note B = ptclbsum_halves [OF len h0(1) lohi_def md_def lastb_def]
  have md: "mdsum2 little a1 m1 = (rest r, of_nat md)" by (simp add: mdsum2_eq m)
  have "ptclbsum little x addr = ucast (sumup (of_nat (fst lohi)) (of_nat (snd lohi)) AND 0xffff)"
    unfolding ptclbsum_def first by (simp add: m1 md tail_par(1) lohi_def lastb_def [symmetric])
  moreover have u: "unat (sumup (of_nat (fst lohi)) (of_nat (snd lohi))) = ocsum (fst lohi + swapb (snd lohi))"
    using unat_sumup [of "of_nat (fst lohi)" "of_nat (snd lohi)"] B by (simp only: unat_of_nat_less)
  ultimately have "unat (ptclbsum little x addr) = ocsum (fst lohi + swapb (snd lohi))"
    using unat_low16 [of "sumup (of_nat (fst lohi)) (of_nat (snd lohi))"] ocsum_le(1) by simp
  also have "\<dots> = ocsum (if x then 256 * h0 + par False r else par True r)"
    by (rule halves_value [OF h0 lohi_def md_def lastb_def])
  also have "(if x then 256 * h0 + par False r else par True r) = par True addr"
    by (cases addr) (simp_all add: h0_def r_def)
  finally show ?thesis .
qed


section \<open>A chain of blocks\<close>

fun csum_skip :: "Block list \<Rightarrow> int \<Rightarrow> Block list \<times> int" where
  "csum_skip [] offset = ([], offset)"
| "csum_skip (b # bp) offset =
     (if offset \<noteq> 0 \<and> offset \<ge> BLEN b then csum_skip bp (offset - BLEN b) else (b # bp, offset))"

fun csum_loop :: "bool \<Rightarrow> Block \<Rightarrow> Block list \<Rightarrow> int \<Rightarrow> int \<Rightarrow> int \<Rightarrow> int \<Rightarrow> ulong \<Rightarrow> ulong \<Rightarrow> fault + ulong \<times> ulong" where
  "csum_loop little b bp addr blen oddn len losum hisum =
     (if len = 0 then Inr (losum, hisum)
      else
        let x = (if len < blen then len else blen) in
        case bread b addr x of
          None \<Rightarrow> Inl Fault
        | Some bs \<Rightarrow>
            let csum = ucast (ptclbsum little (addr mod 2 = 1) bs);
                losum' = (if oddn \<noteq> 0 then losum else losum + csum);
                hisum' = (if oddn \<noteq> 0 then hisum + csum else hisum)
            in (case bp of
                 [] \<Rightarrow> Inr (losum', hisum')
               | b' # bp' \<Rightarrow> csum_loop little b' bp' (b_rp b') (BLEN b') ((oddn + x) mod 2) (len - x) losum' hisum'))"

declare csum_loop.simps [simp del]

definition ptclcsum :: "bool \<Rightarrow> Block list \<Rightarrow> int \<Rightarrow> int \<Rightarrow> fault + ushort" where
  "ptclcsum little bp offset len = (case csum_skip bp offset of
       ([], _) \<Rightarrow> Inr 0
     | (b # bp, offset) \<Rightarrow>
         let addr = b_rp b + offset; blen = BLEN b - offset in
         if bp = [] then
           (case bread b addr (if blen < len then blen else len) of
              None \<Rightarrow> Inl Fault
            | Some bs \<Rightarrow> Inr (NOT (ptclbsum little (addr mod 2 = 1) bs)))
         else
           (case csum_loop little b bp addr blen 0 len 0 0 of
              Inl e \<Rightarrow> Inl e
            | Inr (losum, hisum) \<Rightarrow> Inr (ucast (NOT (sumup losum hisum) AND 0xffff))))"

text \<open>The checksum of a sequence of bytes.\<close>

definition inet_csum :: "byte list \<Rightarrow> ushort" where
  "inet_csum bs = NOT (of_nat (ocsum (par True bs)))"

lemma bread_from:
  assumes "wfb b" "b_rp b \<le> a" "0 \<le> x" "x \<le> b_wp b - a"
  shows "bread b a x = Some (take (nat x) (drop (nat (a - b_rp b)) (bcont b)))"
proof -
  have "nat x \<le> nat (BLEN b) - nat (a - b_rp b)" using assms by (simp add: BLEN_def)
  moreover have "nat (b_rp b - b_base b) + nat (a - b_rp b) = nat (a - b_base b)"
    using assms by (auto simp: wfb_def nat_add_distrib [symmetric])
  ultimately have "take (nat x) (drop (nat (a - b_rp b)) (bcont b)) = bslice (nat (a - b_base b)) (nat x) (b_data b)"
    by (simp add: bcont_def bslice_def drop_take min_def add.commute)
  then show ?thesis using assms by (auto simp: bread_def wfb_def)
qed

lemma par_append: "par h (xs @ ys) = par h xs + par (h = even (length xs)) ys"
proof (induction xs arbitrary: h)
  case (Cons x xs)
  have "((\<not> h) = even (length xs)) = (h = even (length (x # xs)))" by auto
  then show ?case using Cons [of "\<not> h"] by simp
qed simp

lemma csum_skip_ok:
  assumes "wfc bs" "0 \<le> offset" "csum_skip bs offset = (bs', o')"
  shows "wfc bs' \<and> 0 \<le> o' \<and> drop (nat offset) (ccont bs) = drop (nat o') (ccont bs') \<and> set bs' \<subseteq> set bs \<and> length bs' \<le> length bs \<and>
    (bs' \<noteq> [] \<longrightarrow> o' \<le> BLEN (hd bs')) \<and> (bs' = [] \<longrightarrow> bs = [] \<or> blocklen bs \<le> offset)"
  using assms
proof (induction bs offset rule: csum_skip.induct)
  case (2 b bp offset)
  show ?case
  proof (cases "offset \<noteq> 0 \<and> offset \<ge> BLEN b")
    case True
    have l: "length (bcont b) = nat (BLEN b)" "0 \<le> BLEN b" using 2(2) by (simp_all add: wfb_nonneg)
    have "drop (nat offset) (ccont (b # bp)) = drop (nat (offset - BLEN b)) (ccont bp)"
      using True l by (simp add: nat_diff_distrib nat_mono)
    then show ?thesis using 2 True l by (auto simp: wfc_def)
  next
    case False
    then show ?thesis using 2 by (auto simp: wfb_nonneg)
  qed
qed simp


text \<open>
  One round of the loop: the sum of a chunk at an even or odd distance from the start, added to the
  low or the high half.
\<close>

lemma csum_round:
  fixes l h :: ulong
  assumes "length bs \<le> 131070" "unat l + unat h + 65535 < 2 ^ 32"
    "l' = (if ev then l + ucast (ptclbsum little x bs) else l)" "h' = (if ev then h else h + ucast (ptclbsum little x bs))"
  shows "unat l' + unat h' \<le> unat l + unat h + 65535"
    "(unat l' + 256 * unat h') mod 65535 = (unat l + 256 * unat h + par ev bs) mod 65535"
    "unat l' + unat h' = 0 \<longleftrightarrow> unat l + unat h = 0 \<and> par True bs = 0"
proof -
  define c where "c = ocsum (par True bs)"
  have c: "unat (ucast (ptclbsum little x bs) :: ulong) = c"
    using ptclbsum_ok [OF assms(1), of little x] by (simp add: unsigned_ucast_eq c_def take_bit_nat_eq_self ocsum_le(1) [THEN le_less_trans])
  have c1: "c \<le> 65535" "c mod 65535 = par True bs mod 65535" "c = 0 \<longleftrightarrow> par True bs = 0"
    unfolding c_def by (rule ocsum_le)+
  have add: "unat (w + ucast (ptclbsum little x bs)) = unat w + c" if "unat w + c < 2 ^ 32" for w :: ulong
    using that c by (simp add: unat_word_ariths(1))
  have u: "unat l' = (if ev then unat l + c else unat l)" "unat h' = (if ev then unat h else unat h + c)"
    using assms(2-4) c1(1) add [of l] add [of h] by auto
  show "unat l' + unat h' \<le> unat l + unat h + 65535" using u c1(1) by simp
  show "unat l' + unat h' = 0 \<longleftrightarrow> unat l + unat h = 0 \<and> par True bs = 0" using u c1(3) by auto
  show "(unat l' + 256 * unat h') mod 65535 = (unat l + 256 * unat h + par ev bs) mod 65535"
  proof (cases ev)
    case True
    then show ?thesis using u mod_add_cong [OF refl c1(2), of "unat l + 256 * unat h"] by (simp add: ac_simps)
  next
    case False
    have "256 * c mod 65535 = 256 * par True bs mod 65535" using mod_mult_cong [OF refl c1(2), of 256] .
    then have "256 * c mod 65535 = par False bs mod 65535" using par_swap [of True bs] by simp
    then show ?thesis using u False mod_add_cong [OF refl, of "256 * c" 65535 "par False bs" "unat l + 256 * unat h"] by (simp add: ac_simps)
  qed
qed

lemma csum_chunk:
  assumes "wfc (b # bp)" "\<forall>b \<in> set (b # bp). BLEN b \<le> 131070"
    "D = take (nat len) (drop (nat (addr - b_rp b)) (bcont b) @ ccont bp)" "b_rp b \<le> addr" "addr \<le> b_wp b" "0 \<le> len"
    "x = (if len < b_wp b - addr then len else b_wp b - addr)" "c = take (nat x) (drop (nat (addr - b_rp b)) (bcont b))"
  shows "bread b addr x = Some c" "length c \<le> 131070" "D = c @ take (nat (len - x)) (ccont bp)" "int (length c) = x"
proof -
  have x: "0 \<le> x" "x \<le> b_wp b - addr" "x \<le> len" using assms(5-7) by auto
  have w: "wfb b" using assms(1) by simp
  show "bread b addr x = Some c" using bread_from [OF w assms(4) x(1,2)] assms(8) by simp
  have len: "length (drop (nat (addr - b_rp b)) (bcont b)) = nat (b_wp b - addr)"
    using w assms(4,5) by (simp add: BLEN_def nat_diff_distrib [symmetric])
  then show l: "int (length c) = x" using x assms(8) by simp
  have "BLEN b \<le> 131070" using assms(2) by simp
  then show "length c \<le> 131070" using l x(2) assms(4) by (simp add: BLEN_def)
  show "D = c @ take (nat (len - x)) (ccont bp)"
    using x len assms(3,7,8) by (auto simp: nat_diff_distrib)
qed

lemma csum_loop_ok:
  assumes "wfc (b # bp)" "\<forall>b \<in> set (b # bp). BLEN b \<le> 131070" "b_rp b \<le> addr" "addr \<le> b_wp b" "0 \<le> len"
    "oddn \<in> {0, 1}" "unat l + unat h + 65535 * Suc (length bp) < 2 ^ 32"
    "D = take (nat len) (drop (nat (addr - b_rp b)) (bcont b) @ ccont bp)"
  shows "\<exists>l' h'. csum_loop little b bp addr (b_wp b - addr) oddn len l h = Inr (l', h') \<and>
    unat l' + unat h' \<le> unat l + unat h + 65535 * Suc (length bp) \<and>
    (unat l' + 256 * unat h') mod 65535 = (unat l + 256 * unat h + par (oddn = 0) D) mod 65535 \<and>
    (unat l' + unat h' = 0 \<longleftrightarrow> unat l + unat h = 0 \<and> par True D = 0)"
  using assms
proof (induction bp arbitrary: b addr oddn len l h D)
  case Nil
  show ?case
  proof (cases "len = 0")
    case True
    then show ?thesis using Nil by (subst csum_loop.simps) simp
  next
    case False
    note ch = csum_chunk [OF Nil.prems(1,2) Nil.prems(8) Nil.prems(3-5) refl refl]
    let ?x = "if len < b_wp b - addr then len else b_wp b - addr"
    let ?c = "take (nat ?x) (drop (nat (addr - b_rp b)) (bcont b))"
    let ?s = "ucast (ptclbsum little (addr mod 2 = 1) ?c) :: ulong"
    have D: "D = ?c" using ch(3) by (simp only: ccont_simps take_Nil append_Nil2)
    define l1 where "l1 = (if oddn = 0 then l + ?s else l)"
    define h1 where "h1 = (if oddn = 0 then h else h + ?s)"
    have b: "unat l + unat h + 65535 < 2 ^ 32" using Nil.prems(7) by simp
    note r = csum_round [OF ch(2) b l1_def h1_def, folded D]
    have "csum_loop little b [] addr (b_wp b - addr) oddn len l h = Inr (l1, h1)"
      using False ch(1) unfolding l1_def h1_def by (subst csum_loop.simps) (simp add: Let_def)
    moreover have "unat l1 + unat h1 \<le> unat l + unat h + 65535 * Suc (length ([] :: Block list))" using r(1) by simp
    ultimately show ?thesis using r(2,3) by (intro exI [of _ l1] exI [of _ h1] conjI)
  qed
next
  case (Cons b2 bp)
  show ?case
  proof (cases "len = 0")
    case True
    then show ?thesis using Cons.prems by (subst csum_loop.simps) simp
  next
    case False
    define x where "x = (if len < b_wp b - addr then len else b_wp b - addr)"
    define c where "c = take (nat x) (drop (nat (addr - b_rp b)) (bcont b))"
    note ch = csum_chunk [OF Cons.prems(1,2) Cons.prems(8) Cons.prems(3-5) x_def c_def]
    let ?s = "ucast (ptclbsum little (addr mod 2 = 1) c) :: ulong"
    let ?o = "(oddn + x) mod 2" and ?D = "take (nat (len - x)) (ccont (b2 # bp))"
    define l1 where "l1 = (if oddn = 0 then l + ?s else l)"
    define h1 where "h1 = (if oddn = 0 then h else h + ?s)"
    have b: "unat l + unat h + 65535 < 2 ^ 32" using Cons.prems(7) by simp
    note r = csum_round [OF ch(2) b l1_def h1_def]
    have "\<exists>l' h'. csum_loop little b2 bp (b_rp b2) (b_wp b2 - b_rp b2) ?o (len - x) l1 h1 = Inr (l', h') \<and>
      unat l' + unat h' \<le> unat l1 + unat h1 + 65535 * Suc (length bp) \<and>
      (unat l' + 256 * unat h') mod 65535 = (unat l1 + 256 * unat h1 + par (?o = 0) ?D) mod 65535 \<and>
      (unat l' + unat h' = 0 \<longleftrightarrow> unat l1 + unat h1 = 0 \<and> par True ?D = 0)"
    proof (rule Cons.IH)
      show "?o \<in> {0, 1}" by auto
      show "unat l1 + unat h1 + 65535 * Suc (length bp) < 2 ^ 32" using r(1) Cons.prems(7) by simp
      show "?D = take (nat (len - x)) (drop (nat (b_rp b2 - b_rp b2)) (bcont b2) @ ccont bp)" by simp
      show "0 \<le> len - x" using Cons.prems(5) by (simp add: x_def)
    qed (use Cons.prems(1,2) in \<open>auto simp: wfb_def\<close>)
    from this [folded BLEN_def] obtain l' h' where IH: "csum_loop little b2 bp (b_rp b2) (BLEN b2) ?o (len - x) l1 h1 = Inr (l', h')"
      "unat l' + unat h' \<le> unat l1 + unat h1 + 65535 * Suc (length bp)"
      "(unat l' + 256 * unat h') mod 65535 = (unat l1 + 256 * unat h1 + par (?o = 0) ?D) mod 65535"
      "unat l' + unat h' = 0 \<longleftrightarrow> unat l1 + unat h1 = 0 \<and> par True ?D = 0" by (elim exE conjE) (rule that)
    have e: "csum_loop little b (b2 # bp) addr (b_wp b - addr) oddn len l h = Inr (l', h')"
      using False ch(1) IH(1) unfolding l1_def h1_def
      by (cases "oddn = 0"; subst csum_loop.simps) (simp_all add: Let_def x_def [symmetric])
    have p: "(?o = 0) = ((oddn = 0) = even (length c))"
      using Cons.prems(6) ch(4) by auto
    have par: "par (oddn = 0) D = par (oddn = 0) c + par (?o = 0) ?D"
      unfolding ch(3) par_append p ..
    have "(unat l' + 256 * unat h') mod 65535 = (unat l + 256 * unat h + par (oddn = 0) D) mod 65535"
      unfolding IH(3) par add.assoc [symmetric] by (rule mod_add_cong [OF r(2) refl])
    moreover have "unat l' + unat h' = 0 \<longleftrightarrow> unat l + unat h = 0 \<and> par True D = 0"
      unfolding IH(4) r(3) ch(3) par_zero set_append ball_Un by blast
    moreover have "unat l' + unat h' \<le> unat l + unat h + 65535 * Suc (length (b2 # bp))" using IH(2) r(1) by simp
    ultimately show ?thesis using e by (intro exI [of _ l'] exI [of _ h'] conjI)
  qed
qed

lemma unat_not16: "unat (NOT (w::ushort)) = 65535 - unat w"
proof -
  have "NOT w = -1 - w" by (simp add: not_eq_complement)
  moreover have "unat (-1 - w) = unat (-1 :: ushort) - unat w" by (rule unat_sub) simp
  ultimately show ?thesis by (simp add: unsigned_minus_1_eq_mask mask_eq_exp_minus_1)
qed

lemma unat_not_low16:
  assumes "unat (w::ulong) \<le> 65535"
  shows "(ucast (NOT w AND 0xffff) :: ushort) = NOT (of_nat (unat w))"
proof -
  have "of_nat (unat w) = (ucast w :: ushort)" by simp
  moreover have "(0xffff :: ulong) = mask 16" by (simp add: mask_eq_exp_minus_1)
  moreover have "(ucast (NOT w AND mask 16) :: ushort) = NOT (ucast w)" by (auto simp: bit_simps intro!: bit_word_eqI)
  ultimately show ?thesis by simp
qed

text \<open>
  The checksum over a chain of at most 65535 blocks, of at most 131070 bytes each, is the internet
  checksum of the \<open>len\<close> bytes at \<open>offset\<close>, or of those that are there.
\<close>

lemma ptclcsum_ok:
  assumes "wfc bs" "\<forall>b \<in> set bs. BLEN b \<le> 131070" "length bs \<le> 65535" "0 \<le> offset" "0 \<le> len" "bs \<noteq> []" "offset < blocklen bs \<or> offset = 0"
  shows "ptclcsum little bs offset len = Inr (inet_csum (take (nat len) (drop (nat offset) (ccont bs))))"
proof -
  obtain bs' o' where sk: "csum_skip bs offset = (bs', o')" by fastforce
  note ok = csum_skip_ok [OF assms(1,4) sk]
  have "bs' \<noteq> []"
  proof
    assume "bs' = []"
    then have "blocklen bs \<le> offset" using ok assms(6) by simp
    then have "offset = 0" using assms(7) by simp
    then show False using sk assms(6) \<open>bs' = []\<close> by (cases bs) auto
  qed
  then obtain b bp where bp: "bs' = b # bp" by (cases bs') auto
  have w: "wfc (b # bp)" "wfb b" and B: "\<forall>b \<in> set (b # bp). BLEN b \<le> 131070" and o: "0 \<le> o'" "o' \<le> BLEN b" and n: "length bp \<le> 65534"
    using ok assms(2,3) bp by (auto simp: wfc_def)
  let ?a = "b_rp b + o'" and ?D = "take (nat len) (drop (nat offset) (ccont bs))"
  have D: "?D = take (nat len) (drop (nat (?a - b_rp b)) (bcont b) @ ccont bp)"
    using ok o w(2) unfolding bp by simp
  have a: "b_rp b \<le> ?a" "?a \<le> b_wp b" using o by (simp_all add: BLEN_def)
  show ?thesis
  proof (cases "bp = []")
    case True
    note ch = csum_chunk [OF w(1) B D a assms(5) refl refl]
    let ?x = "if len < b_wp b - ?a then len else b_wp b - ?a"
    let ?c = "take (nat ?x) (drop (nat (?a - b_rp b)) (bcont b))"
    have "?D = ?c" using ch(3) True by simp
    moreover have "(if BLEN b - o' < len then BLEN b - o' else len) = ?x" by (auto simp: BLEN_def)
    moreover have "of_nat (ocsum (par True ?c)) = ptclbsum little (?a mod 2 = 1) ?c"
      using arg_cong [OF ptclbsum_ok [OF ch(2), of little "?a mod 2 = 1"], of "of_nat :: nat \<Rightarrow> ushort"] by simp
    ultimately show ?thesis using ch(1) by (simp add: ptclcsum_def sk bp True inet_csum_def Let_def)
  next
    case False
    have "unat (0::ulong) + unat (0::ulong) + 65535 * Suc (length bp) < 2 ^ 32" using n by simp
    from csum_loop_ok [OF w(1) B a assms(5) _ this D, of 0 little]
    have "\<exists>l h. csum_loop little b bp ?a (b_wp b - ?a) 0 len 0 0 = Inr (l, h) \<and> unat l + unat h \<le> 65535 * Suc (length bp) \<and>
      (unat l + 256 * unat h) mod 65535 = par True ?D mod 65535 \<and> (unat l + unat h = 0 \<longleftrightarrow> par True ?D = 0)" by simp
    then obtain l h where lh: "csum_loop little b bp ?a (b_wp b - ?a) 0 len 0 0 = Inr (l, h)" "unat l + unat h \<le> 65535 * Suc (length bp)"
      "(unat l + 256 * unat h) mod 65535 = par True ?D mod 65535" "unat l + unat h = 0 \<longleftrightarrow> par True ?D = 0"
      by (elim exE conjE) (rule that)
    have "65535 * Suc (length bp) \<le> 65535 * 65535" using n by simp
    then have "unat l + swapb (unat h) < 2 ^ 32" using lh(2) swapb_le [of "unat h"] div_le_dividend [of "unat h" 256] by simp
    then have "unat (sumup l h) = ocsum (unat l + swapb (unat h))" by (rule unat_sumup)
    also have "\<dots> = ocsum (par True ?D)"
    proof (rule ocsum_cong)
      show "(unat l + swapb (unat h)) mod 65535 = par True ?D mod 65535"
        using lh(3) mod_add_cong [OF refl swapb_mod [of "unat h"], of "unat l"] by simp
      show "unat l + swapb (unat h) = 0 \<longleftrightarrow> par True ?D = 0" using lh(4) by (simp add: swapb_zero)
    qed
    finally have "unat (sumup l h) = ocsum (par True ?D)" .
    then show ?thesis
      using lh(1) False unat_not_low16 [of "sumup l h"] ocsum_le(1) by (simp add: ptclcsum_def sk bp inet_csum_def BLEN_def diff_diff_eq)
  qed
qed

text \<open>A packet that carries its own checksum sums to zero.\<close>

definition be16 :: "ushort \<Rightarrow> byte list" where "be16 v = [ucast (drop_bit 8 v), ucast v]"

lemma par_be16: "par True (be16 v) = unat v"
proof -
  have "unat (ucast (drop_bit 8 v) :: byte) = unat v div 256"
  proof -
    have "unat (drop_bit 8 v) = drop_bit 8 (unat v)"
      using unsigned_less [of v, where ?'a = nat] by (simp add: unsigned_drop_bit_eq take_bit_nat_eq_self)
    then have d: "unat (drop_bit 8 v) = unat v div 256" by (simp only: drop_bit_eq_div) simp
    then have "unat (drop_bit 8 v) < 256" using unsigned_less [of v, where ?'a = nat] by simp
    then show ?thesis using d by (simp add: unsigned_ucast_eq take_bit_nat_eq_self)
  qed
  moreover have "unat (ucast v :: byte) = unat v mod 256" by (simp add: unsigned_ucast_eq take_bit_eq_mod)
  ultimately show ?thesis by (simp add: be16_def)
qed

lemma csum_verify:
  assumes "even (length pre)" "c = inet_csum (pre @ [0, 0] @ post)"
  shows "inet_csum (pre @ be16 c @ post) = 0"
proof -
  let ?S = "par True (pre @ [0, 0] @ post)"
  have c: "unat c = 65535 - ocsum ?S"
    unfolding assms(2) inet_csum_def unat_not16 using ocsum_le(1) [of ?S] by (simp add: unat_of_nat take_bit_nat_eq_self)
  have "par True (pre @ be16 c @ post) = ?S + unat c"
    using assms(1) par_be16 [of c] by (simp add: par_append be16_def)
  moreover have "ocsum (?S + unat c) = ocsum 65535"
  proof (rule ocsum_cong)
    have "(?S + unat c) mod 65535 = (ocsum ?S + unat c) mod 65535" by (rule mod_add_cong) (simp_all add: ocsum_le(2))
    also have "ocsum ?S + unat c = 65535" using c ocsum_le(1) [of ?S] by simp
    finally show "(?S + unat c) mod 65535 = 65535 mod 65535" by simp
    have "unat c = 65535" if "?S = 0" using c that by (simp add: ocsum_def)
    then show "?S + unat c = 0 \<longleftrightarrow> (65535::nat) = 0" by (cases "?S = 0") simp_all
  qed
  ultimately show ?thesis by (simp add: inet_csum_def ocsum_small)
qed


section \<open>Properties\<close>

definition sample_chunk :: "int \<Rightarrow> byte list \<Rightarrow> Block" where
  "sample_chunk a bs = \<lparr>b_rp = a, b_wp = a + int (length bs), b_lim = a + int (length bs), b_base = a, b_data = bs,
     b_free = None, b_flag = 0, b_checksum = 0\<rparr>"

lemma sample_chunk_ok [simp]: "wfb (sample_chunk a bs)" "BLEN (sample_chunk a bs) = int (length bs)" "bcont (sample_chunk a bs) = bs"
  by (simp_all add: sample_chunk_def wfb_def BLEN_def bcont_def bslice_def)

text \<open>C20: The optimised sum of one buffer, unrolled and with its special cases for odd addresses and
  for either byte order, is the ones-complement sum of the words in network order, for every buffer
  of at most 131070 bytes: the 32-bit sums do not overflow.\<close>

theorem ptclbsum_reference:
  assumes "length addr \<le> 131070"
  shows "ptclbsum little x addr = of_nat (ocsum (par True addr))"
  using arg_cong [OF ptclbsum_ok [OF assms, of little x], of "of_nat :: nat \<Rightarrow> ushort"] by simp

theorem ptclbsum_reference_witness:
  "ptclbsum True True [0x45, 0, 1] = of_nat (ocsum 17920) \<and> ptclbsum False False [0x45, 0, 1] = ptclbsum True True [0x45, 0, 1]"
  using ptclbsum_reference [of "[0x45, 0, 1]" True True] ptclbsum_reference [of "[0x45, 0, 1]" False False] by simp

text \<open>C21: The checksum over a chain of blocks does not depend on how the bytes are cut into blocks, nor on
  where the blocks lie: it is the internet checksum of the bytes from \<open>offset\<close> on, at most
  \<open>len\<close> of them; no byte outside of the blocks is read.\<close>

theorem ptclcsum_chain:
  assumes "wfc bs" "\<forall>b \<in> set bs. BLEN b \<le> 131070" "length bs \<le> 65535" "0 \<le> offset" "0 \<le> len" "bs \<noteq> []" "offset < blocklen bs \<or> offset = 0"
  shows "ptclcsum little bs offset len = Inr (inet_csum (take (nat len) (drop (nat offset) (ccont bs))))"
  by (rule ptclcsum_ok [OF assms])

theorem ptclcsum_chain_witness:
  "ptclcsum True [sample_chunk 1001 [9, 0x45, 0], sample_chunk 2000 [1]] 1 5 = Inr (inet_csum [0x45, 0, 1])"
  using ptclcsum_chain [of "[sample_chunk 1001 [9, 0x45, 0], sample_chunk 2000 [1]]" 1 5 True] by simp

text \<open>C22: A receiver accepts what a sender summed: when the checksum of a packet whose checksum field is
  zero is stored, high byte first, in that field, at an even distance from the start, the sum over the
  packet is zero, however both sides cut it into blocks.\<close>

theorem ptclcsum_verifies:
  assumes "even (length pre)" "ptclcsum little bs 0 (int (length (ccont bs))) = Inr c" "ccont bs = pre @ [0, 0] @ post"
    "ccont cs = pre @ be16 c @ post"
    "\<forall>b \<in> set bs \<union> set cs. wfb b \<and> BLEN b \<le> 131070" "length bs \<le> 65535" "length cs \<le> 65535" "bs \<noteq> []" "cs \<noteq> []"
  shows "ptclcsum little2 cs 0 (int (length (ccont cs))) = Inr 0"
proof -
  have "ptclcsum little bs 0 (int (length (ccont bs))) = Inr (inet_csum (ccont bs))"
    using ptclcsum_ok [of bs 0 "int (length (ccont bs))" little] assms(5,6,8) by (simp add: wfc_def)
  then have c: "c = inet_csum (pre @ [0, 0] @ post)" using assms(2,3) by simp
  have "ptclcsum little2 cs 0 (int (length (ccont cs))) = Inr (inet_csum (ccont cs))"
    using ptclcsum_ok [of cs 0 "int (length (ccont cs))" little2] assms(5,7,9) by (simp add: wfc_def)
  then show ?thesis using csum_verify [OF assms(1) c] assms(4) by simp
qed

theorem ptclcsum_verifies_witness:
  "ptclcsum False [sample_chunk 7 ([1, 2] @ be16 (inet_csum [1, 2, 0, 0, 5]) @ [5])] 0 5 = Inr 0"
proof -
  let ?b = "[sample_chunk 0 [1, 2, 0, 0, 5]]" and ?c = "[sample_chunk 7 ([1, 2] @ be16 (inet_csum [1, 2, 0, 0, 5]) @ [5])]"
  have "ptclcsum True ?b 0 (int (length (ccont ?b))) = Inr (inet_csum [1, 2, 0, 0, 5])"
    using ptclcsum_ok [of ?b 0 5 True] by simp
  from ptclcsum_verifies [OF _ this, of "[1, 2]" "[5]" ?c False] show ?thesis by (simp add: be16_def)
qed

end
