(* ===== verification/Ipsum.thy ===== *)
theory Ipsum
  imports Ipv4 Checksum
begin

text \<open>
  The header checksum of \<^verbatim>\<open>ip/ip.c\<close> is the internet checksum of \<^verbatim>\<open>ip/ptclbsum.c\<close>: two folds of the carries are
  enough for the at most 30 words of a header, and a header that carries it sums to zero.
\<close>

lemma byte_pair: "push_bit 8 (ucast a) OR ucast b = (of_nat (256 * unat a + unat b) :: ulong)" for a b :: byte
proof -
  have "push_bit 8 (ucast a) OR ucast b = push_bit 8 (ucast a) + (ucast b :: ulong)"
    by (rule disjunctive_add [symmetric]) (auto simp: bit_simps dest: bit_imp_le_length)
  also have "\<dots> = of_nat (256 * unat a + unat b)" by (simp add: push_bit_eq_mult)
  finally show ?thesis .
qed

lemma rest_even: "even (length a) \<Longrightarrow> rest a = []" by (induction a rule: rest.induct) auto

lemma cksum_loop_par: "even (length a) \<Longrightarrow> cksum_loop a (int (length a)) acc = acc + of_nat (par True a)"
proof (induction a arbitrary: acc rule: rest.induct)
  case (1 a b r)
  have "int (length (a # b # r)) - 2 = int (length r)" by simp
  then show ?case using 1 by (subst cksum_loop.simps) (simp add: byte_pair add.assoc)
qed (simp_all add: cksum_loop.simps)

definition fold16 :: "nat \<Rightarrow> nat" where "fold16 s = s mod 65536 + s div 65536"

lemma unat_fold16: "unat ((w AND 0xffff) + drop_bit 16 w) = fold16 (unat w)" for w :: ulong
proof -
  have h: "unat (drop_bit 16 w) = unat w div 65536" by (simp add: unat_drop_bit)
  have "(0xffff :: ulong) = mask 16" by (simp add: mask_eq_exp_minus_1)
  then have "w AND 0xffff = take_bit 16 w" by (simp add: take_bit_eq_mask)
  then have l: "unat (w AND 0xffff) = unat w mod 65536"
    using unsigned_take_bit_eq [of 16 w, where ?'a = nat] by (simp add: take_bit_eq_mod)
  have "unat w < 2 ^ 32" using unsigned_less [of w, where ?'a = nat] by simp
  then have "unat w mod 65536 + unat w div 65536 < 2 ^ 32" using div_mult_mod_eq [of "unat w" 65536] by linarith
  then show ?thesis unfolding unat_word_ariths(1) h l by (simp add: fold16_def)
qed

lemma fold16_ocsum: "ocsum (fold16 s) = ocsum s"
proof (rule ocsum_cong)
  have "s = fold16 s + s div 65536 * 65535" using div_mult_mod_eq [of s 65536] unfolding fold16_def by linarith
  then show "fold16 s mod 65535 = s mod 65535" by (metis mod_mult_self1)
qed (use div_mult_mod_eq [of s 65536] in \<open>auto simp: fold16_def\<close>)

lemma fold16_twice: "s \<le> 30 * 65535 \<Longrightarrow> fold16 (fold16 s) = ocsum s"
proof -
  assume "s \<le> 30 * 65535"
  then have "s div 65536 \<le> 29" by (simp add: div_le_mono [of s "30 * 65535" 65536, simplified])
  then have f: "fold16 s \<le> 65535 + 29" unfolding fold16_def using mod_less_divisor [of 65536 s] by linarith
  have "fold16 (fold16 s) \<le> 65535"
  proof (cases "fold16 s < 65536")
    case False
    then have "fold16 s mod 65536 = fold16 s - 65536" "fold16 s div 65536 = 1" using f by (simp_all add: mod_if div_if)
    then have "fold16 (fold16 s) = fold16 s - 65536 + 1" by (simp only: fold16_def [of "fold16 s"])
    then show ?thesis using f by linarith
  qed (simp add: fold16_def)
  then show ?thesis using fold16_ocsum [of s] fold16_ocsum [of "fold16 s"] by (simp add: ocsum_small)
qed

lemma ipcsum_inet:
  assumes "hdrlen (h ! 0) = int (length h)"
  shows "ipcsum h = inet_csum h"
proof -
  have e: "even (length h)" and b: "length h \<le> 60"
  proof -
    have "length h = unat (push_bit 2 (h ! 0 AND 0xf))" using assms by (simp only: hdrlen_def of_nat_eq_iff)
    moreover have m: "(0xf :: byte) = mask 4" by (simp add: mask_eq_exp_minus_1)
    have "h ! 0 AND 0xf = take_bit 4 (h ! 0)" unfolding m by (simp add: take_bit_eq_mask)
    then have "unat (h ! 0 AND 0xf) = unat (h ! 0) mod 16"
      using unsigned_take_bit_eq [of 4 "h ! 0", where ?'a = nat] by (simp add: take_bit_eq_mod)
    then have "unat (push_bit 2 (h ! 0 AND 0xf)) = 4 * (unat (h ! 0) mod 16)"
      by (simp add: push_bit_eq_mult unat_word_ariths(2))
    ultimately show "even (length h)" "length h \<le> 60" by simp_all
  qed
  let ?s = "par True h"
  have "?s \<le> 65535 * (length h div 2)"
    using par_pairs [of True h] pairs_le [of True h] rest_even [OF e] by simp
  then have s: "?s \<le> 30 * 65535" using b by linarith
  have l: "cksum_loop h (hdrlen (h ! 0)) 0 = of_nat ?s" unfolding assms using cksum_loop_par [OF e, of 0] by simp
  have "unat (of_nat ?s :: ulong) = ?s" by (rule unat_of_nat_less) (use s in simp)
  then have "unat ((((of_nat ?s :: ulong) AND 0xffff) + drop_bit 16 (of_nat ?s) AND 0xffff) +
      drop_bit 16 (((of_nat ?s :: ulong) AND 0xffff) + drop_bit 16 (of_nat ?s))) = ocsum ?s"
    by (simp only: unat_fold16 fold16_twice [OF s])
  moreover have W: "of_nat (unat w) = w" for w :: ulong by simp
  ultimately have u: "((of_nat ?s AND 0xffff) + drop_bit 16 (of_nat ?s) AND 0xffff) +
      drop_bit 16 ((of_nat ?s AND 0xffff) + drop_bit 16 (of_nat ?s)) = (of_nat (ocsum ?s) :: ulong)"
    by (metis W)
  have x: "ucast ((w :: ulong) XOR 0xffff) = (NOT (ucast w) :: ushort)" for w
  proof -
    have m: "(0xffff :: ulong) = mask 16" by (simp add: mask_eq_exp_minus_1)
    show ?thesis unfolding m by (rule bit_word_eqI) (auto simp: bit_simps)
  qed
  have "ucast (of_nat (ocsum ?s) :: ulong) = (of_nat (ocsum ?s) :: ushort)"
    using ocsum_le(1) [of ?s] by (simp add: unsigned_of_nat take_bit_nat_eq_self)
  then show ?thesis unfolding ipcsum_def Let_def l u x inet_csum_def by simp
qed

text \<open>A header with its checksum in place is accepted.\<close>

lemma be16_hnputs: "hnputs v = be16 v" by (simp add: hnputs_def be16_def)

lemma bsplice_bsplice_same: "length bs = length cs \<Longrightarrow> i + length bs \<le> length h \<Longrightarrow> bsplice i bs (bsplice i cs h) = bsplice i bs h"
  by (simp add: bsplice_def)

lemma ipcsum_verify:
  assumes "hdrlen (h ! 0) = int (length h)" "12 \<le> length h"
  shows "ipcsum (bsplice 10 (hnputs (ipcsum (bsplice 10 [0, 0] h))) (bsplice 10 [0, 0] h)) = 0"
proof -
  let ?h0 = "bsplice 10 [0, 0] h" and ?pre = "take 10 h" and ?post = "drop 12 h"
  have z: "?h0 = ?pre @ [0, 0] @ ?post" by (simp add: bsplice_def)
  have n0: "bsplice 10 bs h ! 0 = h ! 0" for bs using assms(2) by (cases h) (simp_all add: bsplice_def)
  have "bsplice 10 (hnputs v) ?h0 = ?pre @ be16 v @ ?post" for v
    using assms(2) by (simp add: bsplice_def be16_hnputs be16_def)
  moreover have "ipcsum ?h0 = inet_csum ?h0" by (rule ipcsum_inet) (use assms n0 in simp)
  moreover have "ipcsum (?pre @ be16 v @ ?post) = inet_csum (?pre @ be16 v @ ?post)" for v
    by (rule ipcsum_inet) (use assms in \<open>simp add: be16_def nth_append\<close>)
  moreover have "inet_csum (?pre @ be16 (inet_csum ?h0) @ ?post) = 0"
    by (rule csum_verify) (use assms(2) z in simp_all)
  ultimately show ?thesis by simp
qed

end
