(* ===== verification/Ipfrag.thy ===== *)
theory Ipfrag
  imports Reasm Ipsum
begin

text \<open>
  Fragmentation of IPv4 packets against its specification: the fragments of a packet are the slices of its payload,
  each with the header of the packet but for its length, identification, offset, flag and checksum.
\<close>

section \<open>The header of a packet in its block\<close>

definition hset :: "nat \<Rightarrow> byte list \<Rightarrow> Block \<Rightarrow> Block" where
  "hset i bs b = b\<lparr>b_data := bsplice (pos b + i) bs (b_data b)\<rparr>"

lemma hset_simps [simp]:
  "b_rp (hset i bs b) = b_rp b" "b_wp (hset i bs b) = b_wp b" "b_base (hset i bs b) = b_base b" "b_lim (hset i bs b) = b_lim b"
  "BLEN (hset i bs b) = BLEN b" "intr (hset i bs b) = intr b" "drv (hset i bs b) = drv b" "BALLOC (hset i bs b) = BALLOC b"
  by (simp_all add: hset_def)

lemma cont_geo:
  assumes "wfb b"
  shows "b_base b \<le> b_rp b" "b_lim b = b_base b + int (length (b_data b))" "pos b + length (bcont b) \<le> length (b_data b)"
    "bcont b = bslice (pos b) (length (bcont b)) (b_data b)"
proof -
  have l: "length (bcont b) = nat (BLEN b)" using assms by simp
  show "b_base b \<le> b_rp b" "b_lim b = b_base b + int (length (b_data b))" using assms by (auto simp: wfb_def)
  have "pos b + nat (BLEN b) = nat (b_wp b - b_base b)"
    unfolding pos_def BLEN_def using assms by (subst nat_add_distrib [symmetric]) (auto simp: wfb_def)
  then show "pos b + length (bcont b) \<le> length (b_data b)" unfolding l using assms by (auto simp: wfb_def)
  show "bcont b = bslice (pos b) (length (bcont b)) (b_data b)" unfolding l by (simp add: bcont_def pos_def)
qed

lemma hget_cont:
  assumes "wfb b" "i + n \<le> length (bcont b)"
  shows "hget b (int i) (int n) k = Inr (bslice i n (bcont b), k)"
proof -
  note g = cont_geo [OF assms(1)]
  have "bslice (pos b + i) n (b_data b) = bslice i n (bcont b)"
    by (subst g(4)) (simp add: bslice_bslice assms(2))
  then show ?thesis using bread_pos [OF g(1,2), of i n] g(3) assms(2) by (simp add: hget_def memmove_out_def)
qed

lemma hput_cont:
  assumes "wfb b" "i + length bs \<le> length (bcont b)"
  shows "hput b (int i) bs k = Inr (hset i bs b, k)" "wfb (hset i bs b)" "bcont (hset i bs b) = bsplice i bs (bcont b)"
proof -
  note g = cont_geo [OF assms(1)]
  have r: "pos b + i + length bs \<le> length (b_data b)" using g(3) assms(2) by linarith
  then show "hput b (int i) bs k = Inr (hset i bs b, k)"
    using bwrite_pos [OF g(1,2), of i bs] by (simp add: hput_def memmove_in_def hset_def)
  show w: "wfb (hset i bs b)" using assms(1) r by (simp add: wfb_def hset_def)
  have "bcont (hset i bs b) = bslice (pos b) (length (bcont b)) (bsplice (pos b + i) bs (b_data b))"
    unfolding length_bcont [OF assms(1)] by (simp add: bcont_def hset_def pos_def BLEN_def)
  also have "\<dots> = bsplice i bs (bslice (pos b) (length (bcont b)) (b_data b))"
    by (rule bslice_bsplice_in) (use g(3) assms(2) in simp_all)
  finally show "bcont (hset i bs b) = bsplice i bs (bcont b)" using g(4) by simp
qed

lemma bsplice_header: "i + length bs \<le> length h \<Longrightarrow> bsplice i bs (h @ p) = bsplice i bs h @ p"
  by (simp add: bsplice_def)

lemma bslice_header: "i + n \<le> length h \<Longrightarrow> bslice i n (h @ p) = bslice i n h"
  by (simp add: bslice_def)

lemma blkcsum_cont:
  assumes "wfb b" "bcont b = h @ p" "length h = 20" "h ! 0 AND 0xf = 5"
  shows "blkcsum b k = Inr (ipcsum h, k)"
proof -
  have "hget b 0 1 k = Inr ([h ! 0], k)" "hget b 0 20 k = Inr (h, k)" for k :: 'a
    using hget_cont [OF assms(1), of 0 1 k] hget_cont [OF assms(1), of 0 20 k] assms(2,3)
    by (simp_all add: bslice_def take_Suc_conv_app_nth nth_append take_Suc hd_conv_nth)
  then show ?thesis using assms(4) by (simp add: blkcsum_def hdrlen_def)
qed

section \<open>One fragment\<close>

lemma fragcopy_ok:
  assumes "wfb nb" "wfc xs" "n \<le> length (ccont xs)" "b_wp nb + int n \<le> b_lim nb"
  shows "kok (fragcopy nb xs (int n) k) (\<lambda>(nb', xs', c) k'. k' = k \<and> c = 0 \<and> wfb nb' \<and> bcont nb' = bcont nb @ take n (ccont xs) \<and>
    wfc xs' \<and> ccont xs' = drop n (ccont xs) \<and> b_base nb' = b_base nb \<and> b_rp nb' = b_rp nb \<and> intr nb' = intr nb \<and> drv nb' = drv nb)"
  using assms
proof (induction xs arbitrary: nb n)
  case (Cons x xs)
  have x: "wfb x" "int (length (bcont x)) = BLEN x" using Cons.prems(2) by (simp_all add: int_length_bcont del: length_bcont)
  show ?case
  proof (cases "n = 0")
    case False
    define m where "m = min (length (bcont x)) n"
    have m: "(if BLEN x < int n then BLEN x else int n) = int m" "int m \<le> BLEN x" "m \<le> n" using x(2) by (auto simp: m_def)
    let ?nb = "bappend nb (take m (bcont x))" and ?x = "x\<lparr>b_rp := b_rp x + int m\<rparr>"
    have lt: "length (take m (bcont x)) = m" by (simp add: m_def)
    have mv: "memmove_bb nb (b_wp nb) x (b_rp x) (int m) k = Inr (?nb\<lparr>b_wp := b_wp nb\<rparr>, k)"
      using memmove_bb_head [OF Cons.prems(1) x(1), of "int m" k] m Cons.prems(4) by simp
    have w: "wfb ?nb" "bcont ?nb = bcont nb @ take m (bcont x)"
      using wfb_bappend [OF Cons.prems(1)] bcont_bappend [OF Cons.prems(1)] lt m Cons.prems(4) by simp_all
    have wp: "?nb\<lparr>b_wp := b_wp nb + int m\<rparr> = ?nb" using bappend_simps(10) [of nb "take m (bcont x)"] lt by simp
    have wx: "wfb ?x" "bcont ?x = drop m (bcont x)" using wfb_adv [OF x(1), of "int m"] bcont_adv [OF x(1), of "int m"] m by simp_all
    have e: "fragcopy nb (x # xs) (int n) k =
        (if b_rp ?x = b_wp ?x then fragcopy ?nb xs (int (n - m)) k else Inr ((?nb, ?x # xs, int (n - m)), k))"
      using False m mv wp by (simp add: Let_def of_nat_diff)
    show ?thesis
    proof (cases "b_rp ?x = b_wp ?x")
      case True
      then have "m = length (bcont x)" using x(2) by (simp add: BLEN_def)
      then have "kok (fragcopy ?nb xs (int (n - m)) k) (\<lambda>(nb', xs', c) k'. k' = k \<and> c = 0 \<and> wfb nb' \<and>
          bcont nb' = bcont ?nb @ take (n - m) (ccont xs) \<and> wfc xs' \<and> ccont xs' = drop (n - m) (ccont xs) \<and>
          b_base nb' = b_base ?nb \<and> b_rp nb' = b_rp ?nb \<and> intr nb' = intr ?nb \<and> drv nb' = drv ?nb)"
        using Cons.prems w lt m by (intro Cons.IH) auto
      then show ?thesis
        unfolding e using True w \<open>m = length (bcont x)\<close> m by (auto elim!: kok_mono)
    next
      case False
      then have "m \<noteq> length (bcont x)" using x(2) by (auto simp: BLEN_def)
      then have "m = n" by (simp add: m_def min_def split: if_splits)
      then show ?thesis unfolding e using False w wx Cons.prems m lt by (simp add: m_def)
    qed
  qed (use Cons.prems in simp)
qed simp

definition hdr0 :: "byte list \<Rightarrow> ushort \<Rightarrow> ushort \<Rightarrow> nat \<Rightarrow> byte list" where
  "hdr0 eh lid fr n = bsplice 4 (hnputs lid) (bsplice 2 (hnputs (of_nat (20 + n))) (bsplice 6 (hnputs fr) eh))"

definition withcsum :: "byte list \<Rightarrow> byte list" where
  "withcsum h = bsplice 10 (hnputs (ipcsum (bsplice 10 [0, 0] h))) (bsplice 10 [0, 0] h)"

lemma hdr0_length [simp]: "length eh = 20 \<Longrightarrow> length (hdr0 eh lid fr n) = 20" by (simp add: hdr0_def)
lemma withcsum_length [simp]: "length h = 20 \<Longrightarrow> length (withcsum h) = 20" by (simp add: withcsum_def)

lemma mkfrag_ok:
  assumes "length eh = 20" "wfc xp" "n \<le> length (ccont xp)" "n \<le> room" "mem_avail (s_kern s)"
  shows "kok (mkfrag eh lid (int room) (int n) fr xp s) (\<lambda>(nb, xp', c) s'. c = 0 \<and> wfb nb \<and>
    bcont nb = hdr0 eh lid fr n @ take n (ccont xp) \<and> wfc xp' \<and> ccont xp' = drop n (ccont xp) \<and>
    b_base nb + 64 \<le> b_rp nb \<and> intr nb = 0 \<and> drv nb = {#} \<and>
    (\<exists>k'. s' = s\<lparr>s_kern := k'\<rparr> \<and> mem_avail k' \<and> (\<forall>cs. acct k' cs = acct (s_kern s) cs)))"
proof -
  obtain nb k1 where al: "allocb (20 + int room) (s_kern s) = Inr (nb, k1)" and nb: "newb (20 + int room) (s_kern s) nb k1"
    using allocb_newb [of "20 + int room" "s_kern s"] assms(5) by (auto simp: kok_returns)
  note d = newbD [OF nb]
  let ?s = "s\<lparr>s_kern := k1\<rparr>" and ?b = "bappend nb eh"
  have b: "wfb ?b" "bcont ?b = eh" "b_wp ?b + int room \<le> b_lim ?b" "b_base ?b + 64 \<le> b_rp ?b" "intr ?b = 0" "drv ?b = {#}"
    using d assms(1) by (simp_all add: wfb_bappend bcont_bappend block_consts)
  have mv: "memmove_in nb (b_wp nb) eh ?s = Inr (?b\<lparr>b_wp := b_wp nb\<rparr>, ?s)"
    using d assms(1) by (intro memmove_in_end) simp_all
  have wp: "?b\<lparr>b_wp := b_wp nb + 20\<rparr> = ?b" using bappend_simps(10) [of nb eh] assms(1) by simp
  let ?b1 = "hset 6 (hnputs fr) ?b" let ?b2 = "hset 2 (hnputs (of_nat (20 + n))) ?b1" let ?b3 = "hset 4 (hnputs lid) ?b2"
  have b1: "hput ?b 6 (hnputs fr) ?s = Inr (?b1, ?s)" "wfb ?b1" "bcont ?b1 = bsplice 6 (hnputs fr) eh"
    using hput_cont [OF b(1), of 6 "hnputs fr"] b(2) assms(1) by simp_all
  have b2: "hput ?b1 2 (hnputs (of_nat (20 + n))) ?s = Inr (?b2, ?s)" "wfb ?b2"
    "bcont ?b2 = bsplice 2 (hnputs (of_nat (20 + n))) (bsplice 6 (hnputs fr) eh)"
    using hput_cont [OF b1(2), of 2 "hnputs (of_nat (20 + n))"] b1(3) assms(1) by simp_all
  have b3: "hput ?b2 4 (hnputs lid) ?s = Inr (?b3, ?s)" "wfb ?b3" "bcont ?b3 = hdr0 eh lid fr n"
    using hput_cont [OF b2(2), of 4 "hnputs lid"] b2(3) assms(1) by (simp_all add: hdr0_def)
  have sg: "of_int (int n + IP4HDR) = (of_nat (20 + n) :: ushort)" by (simp add: IP4HDR_def)
  have e: "mkfrag eh lid (int room) (int n) fr xp s = fragcopy ?b3 xp (int n) ?s"
    unfolding mkfrag_def inkern_def sg by (simp add: IP4HDR_def al mv wp b1(1) b2(1) b3(1) del: of_nat_add)
  have room: "b_wp ?b3 + int n \<le> b_lim ?b3" using b(3) assms(4) by simp
  show ?thesis
    unfolding e by (rule kok_mono [OF fragcopy_ok [OF b3(2) assms(2,3) room]]) (use b d b3(3) in auto)
qed

section \<open>All the fragments\<close>

text \<open>The offsets and sizes, with the field \<^verbatim>\<open>frag\<close>.\<close>

function cuts :: "nat \<Rightarrow> nat \<Rightarrow> nat \<Rightarrow> (nat \<times> nat) list" where
  "cuts seg i n = (if i < n \<and> 0 < seg then (i, min seg (n - i)) # cuts seg (i + seg) n else [])"
  by pat_completeness auto
termination by (relation "measure (\<lambda>(seg, i, n). n - i)") auto

declare cuts.simps [simp del]

definition ffield :: "nat \<Rightarrow> nat \<Rightarrow> nat \<Rightarrow> ushort" where
  "ffield i n tot = (if i + n < tot then of_nat (i div 8) OR IP_MF else of_nat (i div 8))"

definition fragspec :: "byte list \<Rightarrow> ushort \<Rightarrow> nat \<Rightarrow> byte list \<Rightarrow> nat \<times> nat \<Rightarrow> byte list" where
  "fragspec eh lid i0 p c = (case c of (i, n) \<Rightarrow>
     withcsum (hdr0 eh lid (ffield i n (i0 + length p)) n) @ bslice (i - i0) n p)"

definition newblk :: "Block \<Rightarrow> byte list \<Rightarrow> bool" where
  "newblk b bs \<longleftrightarrow> wfb b \<and> bcont b = bs \<and> b_base b + 64 \<le> b_rp b \<and> intr b = 0 \<and> drv b = {#}"

lemma bsplice_nth0 [simp]: "0 < i \<Longrightarrow> i \<le> length h \<Longrightarrow> bsplice i bs h ! 0 = h ! 0"
  by (cases h; cases i) (simp_all add: bsplice_def)

lemma hdr0_nth0 [simp]: "length eh = 20 \<Longrightarrow> hdr0 eh lid fr n ! 0 = eh ! 0" by (simp add: hdr0_def)

text \<open>The checksum goes into the header last.\<close>

lemma csum_ok:
  assumes "wfb b" "bcont b = h @ p" "length h = 20" "h ! 0 AND 0xf = 5"
  defines "c \<equiv> hset 10 [0, 0] b"
  shows "hput b 10 [0, 0] s = Inr (c, s)" "blkcsum c s = Inr (ipcsum (bsplice 10 [0, 0] h), s)"
    "hput c 10 (hnputs (ipcsum (bsplice 10 [0, 0] h))) s = Inr (hset 10 (hnputs (ipcsum (bsplice 10 [0, 0] h))) c, s)"
    "wfb (hset 10 (hnputs (ipcsum (bsplice 10 [0, 0] h))) c)" "bcont (hset 10 (hnputs (ipcsum (bsplice 10 [0, 0] h))) c) = withcsum h @ p"
proof -
  show "hput b 10 [0, 0] s = Inr (c, s)" using hput_cont(1) [OF assms(1), of 10 "[0, 0]" s] assms(2,3) by (simp add: c_def)
  have c: "wfb c" "bcont c = bsplice 10 [0, 0] h @ p"
    using hput_cont(2,3) [OF assms(1), of 10 "[0, 0]"] assms(2,3) by (simp_all add: c_def bsplice_header)
  then show "blkcsum c s = Inr (ipcsum (bsplice 10 [0, 0] h), s)"
    by (rule blkcsum_cont) (use assms(3,4) in simp_all)
  show "hput c 10 (hnputs (ipcsum (bsplice 10 [0, 0] h))) s = Inr (hset 10 (hnputs (ipcsum (bsplice 10 [0, 0] h))) c, s)"
    "wfb (hset 10 (hnputs (ipcsum (bsplice 10 [0, 0] h))) c)" "bcont (hset 10 (hnputs (ipcsum (bsplice 10 [0, 0] h))) c) = withcsum h @ p"
    using hput_cont(1) [OF c(1), of 10 "hnputs (ipcsum (bsplice 10 [0, 0] h))" s]
      hput_cont(2,3) [OF c(1), of 10 "hnputs (ipcsum (bsplice 10 [0, 0] h))"] c(2) assms(3)
    by (simp_all add: bsplice_header withcsum_def)
qed

lemma fragloop_ok:
  assumes "length eh = 20" "eh ! 0 AND 0xf = 5" "0 < seg" "wfc xp" "take (length p - (i - i0)) (ccont xp) = drop (i - i0) p" "i0 \<le> i" "i \<le> i0 + length p"
    "mem_avail (s_kern s)"
  shows "kok (fragloop eh lid (int seg) (int i) (int (i0 + length p)) xp ifc gate s) (\<lambda>fin s'. fin \<and>
    (\<exists>nbs. s_out s' = s_out s @ map (\<lambda>nb. Bwrite ifc [nb] gate) nbs \<and>
      list_all2 newblk nbs (map (fragspec eh lid i0 p) (cuts seg i (i0 + length p))) \<and>
      (\<exists>k' ip'. s' = s\<lparr>s_kern := k', s_ip := ip', s_out := s_out s'\<rparr> \<and> mem_avail k' \<and> (\<forall>cs. acct k' cs = acct (s_kern s) cs) \<and>
         ip_flist ip' = ip_flist (s_ip s) \<and> ip_ffree ip' = ip_ffree (s_ip s))))"
  using assms
proof (induction "i0 + length p - i" arbitrary: i xp s seg rule: less_induct)
  case less
  define N where "N = i0 + length p"
  show ?case
  proof (cases "i < N")
    case False
    then have "fragloop eh lid (int seg) (int i) (int N) xp ifc gate s = Inr (True, s)" "cuts seg i N = []"
      by (simp_all add: fragloop.simps cuts.simps)
    then show ?thesis using less.prems(8) unfolding N_def [symmetric]
      by (simp del: ex_simps) (intro conjI exI [of _ "[]"] exI [of _ "s_kern s"] exI [of _ "s_ip s"], simp_all)
  next
    case True
    define n where "n = min seg (N - i)"
    have "length p - (i - i0) \<le> length (ccont xp)" using arg_cong [OF less.prems(5), of length] by simp
    then have n: "0 < n" "n \<le> seg" "i + n \<le> N" "n \<le> length (ccont xp)" using True less.prems by (auto simp: n_def N_def)
    have "n \<le> length p - (i - i0)" using n(3) less.prems(6) by (simp add: N_def)
    then have tk: "take n (ccont xp) = take n (drop (i - i0) p)"
      unfolding less.prems(5) [symmetric] by (simp add: min_def)
    have c1: "(if int i + int seg \<ge> int N then int N - int i else int seg) = int n" using True by (auto simp: n_def)
    have dv: "of_int (int i div 8) = (of_nat (i div 8) :: ushort)" by (metis of_int_of_nat_eq of_nat_numeral zdiv_int)
    have c2: "(if int i + int seg \<ge> int N then of_int (int i div 8) else of_int (int i div 8) OR IP_MF) = ffield i n N"
      unfolding dv ffield_def using True by (auto simp: n_def)
    have cu: "cuts seg i N = (i, n) # cuts seg (i + seg) N"
      using True less.prems(3) by (subst cuts.simps) (simp add: n_def)
    obtain nb xp' s1 where mk: "mkfrag eh lid (int seg) (int n) (ffield i n N) xp s = Inr ((nb, xp', 0), s1)"
      and nb: "wfb nb" "bcont nb = hdr0 eh lid (ffield i n N) n @ take n (ccont xp)" "b_base nb + 64 \<le> b_rp nb" "intr nb = 0" "drv nb = {#}"
      and xp': "wfc xp'" "ccont xp' = drop n (ccont xp)"
      and s1: "\<exists>k'. s1 = s\<lparr>s_kern := k'\<rparr> \<and> mem_avail k' \<and> (\<forall>cs. acct k' cs = acct (s_kern s) cs)"
      using mkfrag_ok [OF less.prems(1,4) n(4,2) less.prems(8), of lid "ffield i n N"] by (auto simp: kok_returns)
    have h0: "length (hdr0 eh lid (ffield i n N) n) = 20" "hdr0 eh lid (ffield i n N) n ! 0 AND 0xf = 5"
      using less.prems(1,2) by simp_all
    note cs = csum_ok(1-3) [OF nb(1,2) h0, of s1] and cw = csum_ok(4,5) [OF nb(1,2) h0]
    define nb' where "nb' = hset 10 (hnputs (ipcsum (bsplice 10 [0, 0] (hdr0 eh lid (ffield i n N) n)))) (hset 10 [0, 0] nb)"
    define s2 where "s2 = ipstat FragCreates (emit (Bwrite ifc [nb'] gate) s1)"
    have e: "fragloop eh lid (int seg) (int i) (int N) xp ifc gate s = fragloop eh lid (int n) (int (i + n)) (int N) xp' ifc gate s2"
      using True less.prems(1-3) cs by (subst fragloop.simps) (simp add: Let_def c1 c2 mk nb'_def s2_def)
    have w: "newblk nb' (fragspec eh lid i0 p (i, n))"
      using cw nb tk by (simp add: newblk_def nb'_def fragspec_def N_def bslice_def)
    have IH: "kok (fragloop eh lid (int n) (int (i + n)) (int N) xp' ifc gate s2) (\<lambda>fin s'. fin \<and>
      (\<exists>nbs. s_out s' = s_out s2 @ map (\<lambda>nb. Bwrite ifc [nb] gate) nbs \<and>
      list_all2 newblk nbs (map (fragspec eh lid i0 p) (cuts n (i + n) N)) \<and>
      (\<exists>k' ip'. s' = s2\<lparr>s_kern := k', s_ip := ip', s_out := s_out s'\<rparr> \<and> mem_avail k' \<and> (\<forall>cs. acct k' cs = acct (s_kern s2) cs) \<and>
         ip_flist ip' = ip_flist (s_ip s2) \<and> ip_ffree ip' = ip_ffree (s_ip s2))))"
      unfolding N_def
    proof (rule less.hyps)
      have "drop (i + n - i0) p = drop n (take (length p - (i - i0)) (ccont xp))"
        unfolding less.prems(5) using less.prems(6) by (simp add: add.commute)
      also have "\<dots> = take (length p - (i + n - i0)) (ccont xp')"
        unfolding xp'(2) drop_take using less.prems(6) by (simp add: add.commute)
      finally show "take (length p - (i + n - i0)) (ccont xp') = drop (i + n - i0) p" by simp
    qed (use n less.prems xp' s1 in \<open>auto simp: N_def s2_def emit_def ipstat_def\<close>)
    have cn: "cuts n (i + n) N = cuts seg (i + seg) N"
    proof (cases "n = seg")
      case False
      then have "i + n = N" "N \<le> i + seg" using n by (auto simp: n_def)
      then show ?thesis by (simp add: cuts.simps)
    qed simp
    obtain fin s' nbs k' ip' where r: "fragloop eh lid (int n) (int (i + n)) (int N) xp' ifc gate s2 = Inr (fin, s')"
      "s_out s' = s_out s2 @ map (\<lambda>nb. Bwrite ifc [nb] gate) nbs"
      "list_all2 newblk nbs (map (fragspec eh lid i0 p) (cuts seg (i + seg) N))"
      "s' = s2\<lparr>s_kern := k', s_ip := ip', s_out := s_out s'\<rparr>" "mem_avail k'" "\<forall>cs. acct k' cs = acct (s_kern s2) cs"
      "ip_flist ip' = ip_flist (s_ip s2)" "ip_ffree ip' = ip_ffree (s_ip s2)" and fin: fin
      using IH unfolding kok_returns cn by blast
    have "s_out s' = s_out s @ map (\<lambda>nb. Bwrite ifc [nb] gate) (nb' # nbs)"
      using r(2) s1 by (auto simp: s2_def emit_def ipstat_def)
    moreover have "list_all2 newblk (nb' # nbs) (map (fragspec eh lid i0 p) (cuts seg i N))" using r(3) w by (simp add: cu)
    moreover have "s' = s\<lparr>s_kern := k', s_ip := ip', s_out := s_out s'\<rparr>"
      using s1 by (subst r(4)) (auto simp: s2_def emit_def ipstat_def)
    moreover have "\<forall>cs. acct k' cs = acct (s_kern s) cs" "ip_flist ip' = ip_flist (s_ip s)" "ip_ffree ip' = ip_ffree (s_ip s)"
      using r(6-8) s1 by (auto simp: s2_def emit_def ipstat_def stat_def)
    ultimately show ?thesis
      unfolding N_def [symmetric] e r(1) kok_simps using r(5) fin by blast
  qed
qed

section \<open>Sending\<close>

lemma skiphdr_ok:
  assumes "wfc (b # nxt)" "20 \<le> BLEN b" "20 < blocklen (b # nxt)"
  shows "\<exists>xp. skiphdr (b # nxt) 20 k = Inr (xp, k) \<and> wfc xp \<and> ccont xp = drop 20 (ccont (b # nxt))"
proof (cases "BLEN b = 20")
  case False
  then show ?thesis using assms wfb_adv [of b 20] bcont_adv [of b 20] by simp
next
  case True
  have b: "length (bcont b) = 20" using assms(1) True by simp
  obtain c nx where n: "nxt = c # nx" using assms(3) True by (cases nxt) auto
  then show ?thesis using assms(1) True b by (simp add: wfb_nonneg)
qed

text \<open>What \<open>ipsend\<close> does with a packet that is longer than the medium takes.\<close>

lemma ipsend_fragments:
  assumes "wfc (b # nxt)" "20 \<le> BLEN b" "\<not> gating" "mem_avail (s_kern s)"
    and len: "20 < length p" "medialen < int (length p)" "28 \<le> medialen" and p: "p = ccont (b # nxt)"
    and hd: "p ! 0 AND 0xf = 5" "p ! 6 AND ucast (drop_bit 8 IP_DF) = 0"
  defines "seg \<equiv> 8 * nat ((medialen - 20) div 8)" and "lid \<equiv> of_int (ip_id4 (s_ip s) + 1)"
  shows "kok (ipsend b nxt (int (length p)) medialen gating ifc gate s) (\<lambda>(sent, b') s'. \<not> sent \<and> b' = b \<and>
    (\<exists>nbs. s_out s' = s_out s @ map (\<lambda>nb. Bwrite ifc [nb] gate) nbs \<and>
      list_all2 newblk nbs (map (fragspec (take 20 p) lid 0 (drop 20 p)) (cuts seg 0 (length p - 20)))) \<and>
    mem_avail (s_kern s') \<and> (\<forall>cs. acct (s_kern s') cs = acct (s_kern s) cs) \<and>
    s_fs s' = s_fs s \<and> s_locks s' = s_locks s \<and> s_procs s' = s_procs s)"
proof -
  let ?h = "take 20 p" and ?q = "drop 20 p"
  let ?s = "s\<lparr>s_ip := (s_ip s)\<lparr>ip_id4 := ip_id4 (s_ip s) + 1\<rparr>\<rparr>"
  have w: "wfb b" "length (bcont b) \<ge> 20" and pb: "take 20 (bcont b) = ?h"
    using assms(1,2) by (simp_all add: p)
  have g6: "hget b 6 1 s = Inr ([p ! 6], s)"
    using hget_cont [OF w(1), of 6 1 s] w(2) by (simp add: p bslice_def take_Suc hd_drop_conv_nth nth_append)
  have g20: "hget b 0 20 ?s = Inr (?h, ?s)"
    using hget_cont [OF w(1), of 0 20 ?s] w(2) pb by (simp add: bslice_def)
  have bl: "blocklen (b # nxt) = int (length p)" using length_ccont [OF assms(1)] by (simp add: p)
  obtain xp where xp: "skiphdr (b # nxt) 20 ?s = Inr (xp, ?s)" "wfc xp" "ccont xp = ?q"
    using skiphdr_ok [OF assms(1,2), of ?s] len(1) unfolding bl p by auto
  have sg: "(medialen - IP4HDR) AND NOT 7 = int seg" "0 < seg"
    using len(3) pos_imp_zdiv_nonneg_iff [of 8 "medialen - 20"] and_minus_8 [of "medialen - 20"]
    by (simp_all add: IP4HDR_def seg_def)
  have dl: "int (length p) - 20 = int (length ?q)" using len(1) by simp
  have c: "\<not> int (length p) \<le> medialen" "([p ! 6] ! 0 AND ucast (drop_bit 8 IP_DF) \<noteq> 0) = False" "\<not> int seg < 8"
    using len hd(2) pos_imp_zdiv_nonneg_iff [of 8 "medialen - 28"] by (auto simp: seg_def)
  have e: "ipsend b nxt (int (length p)) medialen gating ifc gate s =
    kbind (fragloop ?h lid (int seg) 0 (int (0 + length ?q)) xp ifc gate ?s) (\<lambda>fin s. Inr ((False, b), if fin then ipstat FragOKs s else s))"
    unfolding ipsend_def Let_def sg(1) if_not_P [OF c(1)] g6 kbind_simps c(2) if_not_P [OF c(3)]
    by (simp add: assms(3) IP4HDR_def g20 xp(1) lid_def dl del: of_int_add skiphdr.simps)
  have l0: "length ?h = 20" "?h ! 0 AND 0xf = 5" using len(1) hd(1) by simp_all
  have "kok (fragloop ?h lid (int seg) (int 0) (int (0 + length ?q)) xp ifc gate ?s) (\<lambda>fin s'. fin \<and>
    (\<exists>nbs. s_out s' = s_out ?s @ map (\<lambda>nb. Bwrite ifc [nb] gate) nbs \<and>
      list_all2 newblk nbs (map (fragspec ?h lid 0 ?q) (cuts seg 0 (0 + length ?q))) \<and>
      (\<exists>k' ip'. s' = ?s\<lparr>s_kern := k', s_ip := ip', s_out := s_out s'\<rparr> \<and> mem_avail k' \<and> (\<forall>cs. acct k' cs = acct (s_kern ?s) cs) \<and>
         ip_flist ip' = ip_flist (s_ip ?s) \<and> ip_ffree ip' = ip_ffree (s_ip ?s))))"
    by (rule fragloop_ok) (use l0 sg xp assms(4) in simp_all)
  then obtain fin s' nbs k' ip' where r: "fragloop ?h lid (int seg) 0 (int (0 + length ?q)) xp ifc gate ?s = Inr (fin, s')" "fin"
      "s_out s' = s_out s @ map (\<lambda>nb. Bwrite ifc [nb] gate) nbs"
      "list_all2 newblk nbs (map (fragspec ?h lid 0 ?q) (cuts seg 0 (length p - 20)))"
      "s' = ?s\<lparr>s_kern := k', s_ip := ip', s_out := s_out s'\<rparr>" "mem_avail k'" "\<forall>cs. acct k' cs = acct (s_kern s) cs"
    unfolding kok_returns by auto
  have "s_kern s' = k'" "s_fs s' = s_fs s" "s_locks s' = s_locks s" "s_procs s' = s_procs s" by (subst r(5), simp)+
  then show ?thesis unfolding e r(1) using r(2-4,6,7) by (auto simp: ipstat_def)
qed

text \<open>The header \<open>ipoput4\<close> gives a packet of its own host.\<close>

definition ohdr :: "byte \<Rightarrow> byte \<Rightarrow> byte list \<Rightarrow> byte list" where
  "ohdr ttl tos h = bsplice 1 [tos] (bsplice 8 [ttl] (bsplice 0 [0x45] h))"

definition medialen :: "Ipifc \<Rightarrow> Conv option \<Rightarrow> int \<Rightarrow> int \<Rightarrow> int" where
  "medialen i c maxfrag hs = (if c \<noteq> None \<and> maxfrag \<noteq> 0 \<and> maxfrag < i_maxtu i then maxfrag else i_maxtu i) - hs"

lemma bslice_bsplice_off: "i + length bs \<le> j \<or> j + n \<le> i \<Longrightarrow> i \<le> length xs \<Longrightarrow> bslice j n (bsplice i bs xs) = bslice j n xs"
  using bslice_bsplice_after [of i bs j n xs] bslice_bsplice_before [of j n i xs bs] by auto

lemma bslice_nth: "k < n \<Longrightarrow> i + n \<le> length xs \<Longrightarrow> xs ! (i + k) = bslice i n xs ! k"
  by (simp add: bslice_def)

lemma ohdr_fields:
  assumes "length h = 20"
  shows "length (ohdr ttl tos h) = 20" "ohdr ttl tos h ! 0 = 0x45" "ohdr ttl tos h ! 6 = h ! 6"
    "bslice 12 8 (ohdr ttl tos h) = bslice 12 8 h" "bslice 9 1 (ohdr ttl tos h) = bslice 9 1 h"
proof -
  show "length (ohdr ttl tos h) = 20" "bslice 12 8 (ohdr ttl tos h) = bslice 12 8 h" "bslice 9 1 (ohdr ttl tos h) = bslice 9 1 h"
    using assms by (simp_all add: ohdr_def bslice_bsplice_off)
  have "bslice 6 1 (ohdr ttl tos h) = bslice 6 1 h" using assms by (simp add: ohdr_def bslice_bsplice_off)
  then show "ohdr ttl tos h ! 6 = h ! 6"
    using bslice_nth [of 0 1 6 h] bslice_nth [of 0 1 6 "ohdr ttl tos h"] assms by (simp add: ohdr_def)
  show "ohdr ttl tos h ! 0 = 0x45" using assms by (simp add: ohdr_def) (simp add: bsplice_def)
qed

lemma ipoput4_fragments:
  assumes bp: "wfc (b # nxt)" "20 \<le> BLEN b" and p: "p = ccont (b # nxt)" and mem: "mem_avail (s_kern s)"
    and len: "20 < length p" "length p < 65536" "28 \<le> m" "m < int (length p)"
    and df: "p ! 6 AND ucast (drop_bit 8 IP_DF) = 0"
    and route: "v4lookup (e_find e) (e_ifcid e) (e_v4prefix e) (e_v4tov6 e) (s_fs s) (bslice 16 4 p) c = (Some r, fs, c')"
      "rt_ifc r = Some ifc" "tst (rt_type r) (Rifc OR Runi)"
    and lock: "w_writer (s_locks s ifc) = 0" "w_head (s_locks s ifc) = None"
    and med: "i_hsize (e_ifc e ifc) = Some hs" "m = medialen (e_ifc e ifc) c' maxfrag hs"
  shows "kok (ipoput4 e (b # nxt) False ttl tos c maxfrag s) (\<lambda>rv s'. rv = 0 \<and> mem_avail (s_kern s') \<and>
    (\<forall>cs. acct (s_kern s') cs = acct (s_kern s) (b # nxt @ cs)) \<and>
    (\<exists>nbs. s_out s' = s_out s @ map (\<lambda>nb. Bwrite ifc [nb] (bslice 16 4 p)) nbs \<and>
      list_all2 newblk nbs (map (fragspec (ohdr ttl tos (take 20 p)) (of_int (ip_id4 (s_ip s) + 1)) 0 (drop 20 p))
        (cuts (8 * nat ((m - 20) div 8)) 0 (length p - 20)))))"
proof -
  have w: "wfb b" "20 \<le> length (bcont b)" using bp by simp_all
  define d where "d = drop 20 (bcont b)"
  have cb: "bcont b = take 20 p @ d" using w(2) by (simp add: p d_def)
  have lh: "length (take 20 p) = 20" using len(1) by simp
  have bl: "blocklen (b # nxt) = int (length p)" using length_ccont [OF bp(1)] by (simp add: p)
  have dst: "hget b 16 4 k = Inr (bslice 16 4 p, k)" for k :: Ips
    using hget_cont [OF w(1), of 16 4 k] w(2) by (simp add: p bslice_header)
  let ?b1 = "hset 0 [0x45] b" let ?b2 = "hset 8 [ttl] ?b1" let ?b3 = "hset 1 [tos] ?b2"
  have b1: "hput b 0 [0x45] k = Inr (?b1, k)" "wfb ?b1" "bcont ?b1 = bsplice 0 [0x45] (take 20 p) @ d" for k :: Ips
    using hput_cont [OF w(1), of 0 "[0x45]"] w(2) cb lh by (simp_all add: bsplice_header)
  have b2: "hput ?b1 8 [ttl] k = Inr (?b2, k)" "wfb ?b2" "bcont ?b2 = bsplice 8 [ttl] (bsplice 0 [0x45] (take 20 p)) @ d" for k :: Ips
    using hput_cont [OF b1(2), of 8 "[ttl]"] b1(3) lh by (simp_all add: bsplice_header)
  have b3: "hput ?b2 1 [tos] k = Inr (?b3, k)" "wfb ?b3" "bcont ?b3 = ohdr ttl tos (take 20 p) @ d" for k :: Ips
    using hput_cont [OF b2(2), of 1 "[tos]"] b2(3) lh by (simp_all add: bsplice_header ohdr_def)
  let ?h = "ohdr ttl tos (take 20 p)"
  note oh = ohdr_fields [OF lh, of ttl tos]
  define p' where "p' = ccont (?b3 # nxt)"
  have p': "p' = ?h @ drop 20 p" "length p' = length p"
    using b3(3) oh(1) w(2) len(1) by (simp_all add: p'_def p d_def)
  define s1 where "s1 = (ipstat OutRequests s)\<lparr>s_fs := fs\<rparr>"
  define s2 where "s2 = s1\<lparr>s_locks := (s_locks s1)(ifc := (s_locks s1 ifc)\<lparr>w_readers := w_readers (s_locks s1 ifc) + 1\<rparr>),
    s_procs := (s_procs s1)\<lparr>rw_rlock := rw_rlock (s_procs s1) + 1\<rparr>\<rparr>"
  have s1: "s_locks s1 = s_locks s" "s_out s1 = s_out s" "s_kern s1 = s_kern s" "ip_id4 (s_ip s1) = ip_id4 (s_ip s)"
    by (simp_all add: s1_def ipstat_def stat_def)
  have s2: "s_out s2 = s_out s" "s_kern s2 = s_kern s" "ip_id4 (s_ip s2) = ip_id4 (s_ip s)" "w_head (s_locks s2 ifc) = None"
    using s1 lock by (simp_all add: s2_def)
  have rl: "ifcanrlock ifc s1 = (True, s2)" using lock by (simp add: ifcanrlock_def canrlock_def s1 s2_def)
  have "kok (ipsend ?b3 nxt (int (length p')) m False ifc (bslice 16 4 p) s2) (\<lambda>(sent, b') s'. \<not> sent \<and> b' = ?b3 \<and>
    (\<exists>nbs. s_out s' = s_out s2 @ map (\<lambda>nb. Bwrite ifc [nb] (bslice 16 4 p)) nbs \<and>
      list_all2 newblk nbs (map (fragspec (take 20 p') (of_int (ip_id4 (s_ip s2) + 1)) 0 (drop 20 p'))
        (cuts (8 * nat ((m - 20) div 8)) 0 (length p' - 20)))) \<and>
    mem_avail (s_kern s') \<and> (\<forall>cs. acct (s_kern s') cs = acct (s_kern s2) cs) \<and>
    s_fs s' = s_fs s2 \<and> s_locks s' = s_locks s2 \<and> s_procs s' = s_procs s2)"
    by (rule ipsend_fragments) (use bp b3(2) mem s2 len p' oh df in \<open>simp_all add: p'_def nth_append\<close>)
  then obtain s3 nbs where sd: "ipsend ?b3 nxt (int (length p')) m False ifc (bslice 16 4 p) s2 = Inr ((False, ?b3), s3)"
    and nbs: "s_out s3 = s_out s @ map (\<lambda>nb. Bwrite ifc [nb] (bslice 16 4 p)) nbs"
      "list_all2 newblk nbs (map (fragspec ?h (of_int (ip_id4 (s_ip s) + 1)) 0 (drop 20 p)) (cuts (8 * nat ((m - 20) div 8)) 0 (length p - 20)))"
    and s3: "mem_avail (s_kern s3)" "\<And>cs. acct (s_kern s3) cs = acct (s_kern s) cs" "s_locks s3 = s_locks s2"
    using p' oh(1) s2 unfolding kok_returns by auto
  obtain s4 where ru: "ifrunlock ifc s3 = Inr ((), s4)" and s4: "s_out s4 = s_out s3" "s_kern s4 = s_kern s3"
    using s2(4) s3(3) by (simp add: ifrunlock_def runlock_def Let_def)
  have g: "ipgate e b (bslice 16 4 p) r s1 = Inr ((ifc, bslice 16 4 p), s1)" using route(2,3) by (simp add: ipgate_def)
  have v: "IP_VER4 OR IP_HLEN4 = 0x45" by (simp add: IP_VER4_def IP_HLEN4_def)
  have fs0: "s_fs (ipstat OutRequests s) = s_fs s" by (simp add: ipstat_def)
  have "ipoput4 e (b # nxt) False ttl tos c maxfrag s = Inr (0, dropb (?b3 # nxt) s4)"
    unfolding ipoput4_def list.case Let_def bl using len(2) bl
    by (simp add: dst IP_MAX_def route(1) fs0 s1_def [symmetric] g v b1(1) b2(1) b3(1) rl med(1) med(2) [unfolded medialen_def, symmetric]
      sd [unfolded p'(2) One_nat_def] ru del: not_None_eq split del: if_split)
  moreover have "acct (s_kern (dropb (?b3 # nxt) s4)) cs = acct (s_kern s) (b # nxt @ cs)" for cs
    using s3(2) s4 by (simp add: dropb_def acct_Cons)
  ultimately show ?thesis using nbs s3(1) s4 by (auto simp: dropb_def)
qed

end
