(* ===== verification/Ipround.thy ===== *)
theory Ipround
  imports Ipfrag
begin

text \<open>
  From the sender's fragments to the receiver's packet: the fragments that \<open>ipsend\<close> makes pass the checks of \<open>ipiput4\<close> and
  are fragments of one datagram in the sense of \<open>okpkt\<close>, so that the receiver delivers the payload once, whatever
  the order in which they arrive and however often.
\<close>

section \<open>The cuts\<close>

lemma cuts_end: "\<not> (a < N \<and> 0 < seg) \<Longrightarrow> cuts seg a N = []" by (subst cuts.simps) simp

lemma cuts_step: "a < N \<and> 0 < seg \<Longrightarrow> cuts seg a N = (a, min seg (N - a)) # cuts seg (a + seg) N" by (subst cuts.simps) simp

lemma cuts_mem: "(i, n) \<in> set (cuts seg a N) \<Longrightarrow>
    0 < n \<and> n \<le> seg \<and> i + n \<le> N \<and> a \<le> i \<and> seg dvd (i - a) \<and> (i + n < N \<longrightarrow> n = seg)"
proof (induction seg a N rule: cuts.induct)
  case (1 seg a N)
  show ?case
  proof (cases "a < N \<and> 0 < seg")
    case True
    note c = cuts_step [OF True]
    show ?thesis
    proof (cases "(i, n) = (a, min seg (N - a))")
      case False
      then have m: "(i, n) \<in> set (cuts seg (a + seg) N)" using 1(2) unfolding c by auto
      have d: "seg dvd (i - a)" if "a + seg \<le> i" "seg dvd (i - (a + seg))"
        using that dvd_add [of seg "i - (a + seg)" seg] by simp
      show ?thesis using 1(1) [OF True m] d by auto
    qed (use True in auto)
  qed (use 1(2) cuts_end in simp)
qed

definition cspan :: "nat \<times> nat \<Rightarrow> nat set" where "cspan c = {fst c..<fst c + snd c}"

lemma cuts_cover: "0 < seg \<Longrightarrow> (\<Union>c \<in> set (cuts seg a N). cspan c) = {a..<N}"
proof (induction seg a N rule: cuts.induct)
  case (1 seg a N)
  show ?case
  proof (cases "a < N")
    case True
    then have "cuts seg a N = (a, min seg (N - a)) # cuts seg (a + seg) N" using 1(2) by (simp add: cuts_step)
    then show ?thesis using 1 True by (auto simp: cspan_def)
  qed (simp add: cuts_end)
qed

text \<open>Different cuts are disjoint.\<close>

lemma cuts_disjoint: "c \<in> set (cuts seg a N) \<Longrightarrow> c' \<in> set (cuts seg a N) \<Longrightarrow> c \<noteq> c' \<Longrightarrow> cspan c \<inter> cspan c' = {}"
proof (induction seg a N rule: cuts.induct)
  case (1 seg a N)
  show ?case
  proof (cases "a < N \<and> 0 < seg")
    case True
    note cu = cuts_step [OF True]
    have t: "cspan (a, min seg (N - a)) \<inter> cspan d = {}" if "d \<in> set (cuts seg (a + seg) N)" for d
    proof -
      have "a + seg \<le> fst d" using cuts_mem [of "fst d" "snd d" seg "a + seg" N] that by simp
      then show ?thesis by (auto simp: cspan_def)
    qed
    show ?thesis using 1 True t unfolding cu by (metis inf_commute set_ConsD)
  qed (use 1 cuts_end in simp)
qed

section \<open>The fragments are accepted\<close>

lemma ffield_ok:
  assumes "8 dvd i" "i < 65536"
  shows "unat (push_bit 3 (ffield i n N)) = i" "tst (ffield i n N) IP_MF = (i + n < N)"
    "ucast (drop_bit 8 (ffield i n N)) AND ucast (drop_bit 8 IP_MF) \<noteq> (0 :: byte) \<longleftrightarrow> i + n < N"
proof -
  obtain j where j: "i = 8 * j" "j < 8192" using assms by (auto elim!: dvdE)
  define w :: ushort where "w = of_nat j"
  define m :: ushort where "m = (if i + n < N then IP_MF else 0)"
  have f: "ffield i n N = w OR m" by (simp add: ffield_def w_def m_def j)
  have M: "IP_MF = push_bit 13 1" by (simp add: IP_MF_def)
  have "take_bit 13 j = j" using j(2) by (simp add: take_bit_nat_eq_self)
  then have "take_bit 13 w = w" unfolding w_def by (metis take_bit_of_nat)
  then have b: "bit w k \<Longrightarrow> k < 13" for k by (metis bit_take_bit_iff)
  have "push_bit 3 (w OR push_bit 13 u) = push_bit 3 w" for u :: ushort
    by (rule bit_word_eqI) (auto simp: bit_simps)
  then have "push_bit 3 (w OR m) = push_bit 3 w" unfolding m_def M by (metis (full_types) push_bit_of_0)
  moreover have "unat (push_bit 3 w) = 8 * j"
    using j(2) by (simp add: w_def push_bit_eq_mult unat_word_ariths(2) unat_of_nat)
  ultimately show "unat (push_bit 3 (ffield i n N)) = i" unfolding f by (simp add: j)
  have a: "(w OR m) AND IP_MF = m"
  proof (rule bit_word_eqI)
    fix k assume "k < LENGTH(16)"
    have "bit (2 ^ 13 :: ushort) k \<longleftrightarrow> k = 13" unfolding bit_exp_iff by auto
    moreover have "IP_MF = 2 ^ 13" by (simp add: IP_MF_def)
    ultimately have "bit IP_MF k \<longleftrightarrow> k = 13" by metis
    then show "bit ((w OR m) AND IP_MF) k = bit m k" using b [of k] by (auto simp: m_def bit_simps)
  qed
  then show "tst (ffield i n N) IP_MF = (i + n < N)" unfolding f tst_def by (simp add: m_def IP_MF_def)
  have "ucast (drop_bit 8 (w OR m)) AND ucast (drop_bit 8 IP_MF) = (ucast (drop_bit 8 ((w OR m) AND IP_MF)) :: byte)"
    by (rule bit_word_eqI) (auto simp: bit_simps)
  then show "ucast (drop_bit 8 (ffield i n N)) AND ucast (drop_bit 8 IP_MF) \<noteq> (0 :: byte) \<longleftrightarrow> i + n < N"
    unfolding f a by (simp add: m_def IP_MF_def)
qed

text \<open>The header as \<open>reassem\<close> leaves it.\<close>

definition rhdr :: "byte list \<Rightarrow> ushort \<Rightarrow> nat \<Rightarrow> nat \<times> nat \<Rightarrow> byte list" where
  "rhdr h lid N c = bsplice 1 [if fst c + snd c < N then 1 else 0] (withcsum (hdr0 h lid (ffield (fst c) (snd c) N) (snd c)))"

lemmas header_simps = rhdr_def withcsum_def hdr0_def bslice_bsplice_off

lemma rhdr_fields:
  assumes "length h = 20"
  shows "length (rhdr h lid N c) = 20" "bslice 12 8 (rhdr h lid N c) = bslice 12 8 h" "bslice 4 2 (rhdr h lid N c) = hnputs lid"
    "bslice 2 2 (rhdr h lid N c) = hnputs (of_nat (20 + snd c))" "bslice 6 2 (rhdr h lid N c) = hnputs (ffield (fst c) (snd c) N)"
    "bslice 1 1 (rhdr h lid N c) = [if fst c + snd c < N then 1 else 0]" "bslice 9 1 (rhdr h lid N c) = bslice 9 1 h"
  using assms by (simp_all add: header_simps del: of_nat_add)

lemma hkey_slices:
  assumes "length h = 20"
  shows "hkey h = (nhgetl (bslice 12 4 h), nhgetl (bslice 16 4 h), nhgets (bslice 4 2 h))"
  using assms by (simp add: hkey_def nhgetl_def nhgets_def bslice_def)

definition dgram :: "byte list \<Rightarrow> ushort \<Rightarrow> nat \<Rightarrow> byte list \<Rightarrow> Dgram" where
  "dgram h lid seg p = \<lparr>d_hdrs = {rhdr h lid (length p) (0, seg)}, d_data = p\<rparr>"

definition dkey :: "byte list \<Rightarrow> ushort \<Rightarrow> Fkey" where
  "dkey h lid = (nhgetl (bslice 12 4 h), nhgetl (bslice 16 4 h), lid)"

lemma plen_rhdr:
  assumes "length h = 20" "snd c + 20 < 65536"
  shows "plen (rhdr h lid N c) = snd c"
proof -
  have "nhgets (drop 2 (rhdr h lid N c)) = nhgets (bslice 2 2 (rhdr h lid N c))" by (simp add: nhgets_def bslice_def)
  then show ?thesis
    unfolding plen_def rhdr_fields(4) [OF assms(1)] using assms(2) by (simp add: unat_of_nat take_bit_nat_eq_self del: of_nat_add)
qed

lemma frag_okpkt:
  assumes h: "length h = 20" and seg: "8 dvd seg" "0 < seg" "seg < length p" and P: "length p + 20 < 65536"
    and c: "c \<in> set (cuts seg 0 (length p))" and b: "wfb b" "b_base b + 4 \<le> b_rp b"
    and bc: "bcont b = rhdr h lid (length p) c @ bslice (fst c) (snd c) p"
  shows "okpkt (dgram h lid seg p) (ffield (fst c) (snd c) (length p)) b" "hkey (take 20 (bcont b)) = dkey h lid"
    "unat (push_bit 3 (ffield (fst c) (snd c) (length p))) = fst c" "plen (take 20 (bcont b)) = snd c"
    "ffield (fst c) (snd c) (length p) \<noteq> 0"
proof -
  let ?N = "length p" and ?r = "rhdr h lid (length p) c" and ?f = "ffield (fst c) (snd c) (length p)"
  note rf = rhdr_fields [OF h, of lid ?N c]
  have cm: "0 < snd c" "snd c \<le> seg" "fst c + snd c \<le> ?N" "seg dvd fst c" "fst c + snd c < ?N \<longrightarrow> snd c = seg"
    using cuts_mem [of "fst c" "snd c" seg 0 ?N] c by auto
  have i8: "8 dvd fst c" "fst c < 65536" using seg(1) cm P by (auto intro: dvd_trans)
  note ff = ffield_ok [OF i8, of "snd c" ?N]
  have t: "take 20 (bcont b) = ?r" and d: "bslice 20 (snd c) (bcont b) = bslice (fst c) (snd c) p"
    using cm(3) by (simp_all add: bc rf(1) bslice_def)
  have pl: "plen ?r = snd c" using plen_rhdr [OF h] cm P by simp
  show "plen (take 20 (bcont b)) = snd c" unfolding t by (rule pl)
  show "unat (push_bit 3 ?f) = fst c" by (rule ff(1))
  have n1: "?r ! 1 = (if fst c + snd c < ?N then 1 else 0)" using bslice_nth [of 0 1 1 ?r] rf(1,6) by simp
  have n6: "?r ! 6 = ucast (drop_bit 8 ?f)" using bslice_nth [of 0 2 6 ?r] rf(1,5) by (simp add: hnputs_def)
  have mf: "mfset ?r \<longleftrightarrow> fst c + snd c < ?N" unfolding mfset_def n6 by (rule ff(3))
  have c0: "c = (0, seg)" if "fst c = 0" using that cm(3,5) seg(3) cm(2) by (cases c) auto
  show "?f \<noteq> 0"
  proof
    assume "?f = 0"
    then have "fst c = 0" "\<not> fst c + snd c < ?N" using ff(1,2) by simp_all
    then show False using c0 seg(3) by auto
  qed
  have "seg \<le> fst c" if "fst c \<noteq> 0" using that cm(4) by (simp add: dvd_imp_le)
  moreover have "plen (rhdr h lid ?N (0, seg)) = seg" using plen_rhdr [OF h, of "(0, seg)"] seg(3) P by simp
  ultimately show "okpkt (dgram h lid seg p) ?f b"
    unfolding okpkt_eq Let_def t pl d ff(1,2) mf n1
    using b cm seg(3) c0 rf(1) by (auto simp: dgram_def bc)
  have "bslice 12 4 ?r = bslice 12 4 h" "bslice 16 4 ?r = bslice 16 4 h"
    using arg_cong [OF rf(2), of "take 4"] arg_cong [OF rf(2), of "drop 4"] by (simp_all add: take_bslice drop_bslice)
  then show "hkey (take 20 (bcont b)) = dkey h lid"
    unfolding t hkey_slices [OF rf(1)] rf(3) by (simp add: dkey_def)
qed

section \<open>The receiver\<close>

text \<open>A good packet for this host in one block goes to \<open>iplocal\<close> as it is.\<close>

lemma ipiput4_local:
  assumes b: "wfb b" "bcont b = h @ d" and h: "length h = 20" "h ! 0 = 0x45" "ipcsum h = 0" and me: "e_forme e (bslice 16 4 h)"
  shows "ipiput4 e False ifc [b] s = iplocal e ifc [b] (ipstat InReceives s)"
proof -
  let ?s = "ipstat InReceives s"
  have l: "BLEN b = int (length (bcont b))" "20 \<le> BLEN b" using b h by (simp_all add: int_length_bcont [symmetric] del: length_bcont)
  have v: "hget b 0 1 k = Inr ([0x45], k)" for k :: Ips
    using hget_cont [OF b(1), of 0 1 k] b(2) h by (cases h) (simp_all add: bslice_def)
  have dst: "hget b 16 4 k = Inr (bslice 16 4 h, k)" for k :: Ips
    using hget_cont [OF b(1), of 16 4 k] b(2) h by (simp add: bslice_def)
  have ck: "blkcsum b k = Inr (0, k)" for k :: Ips
    using blkcsum_cont [OF b h(1), of k] h by simp
  have pu: "pullupblock [b] n k = Inr ([b], k)" if "n \<le> BLEN b" for n k using that by simp
  have m: "(let hl = blocklen [b]; hl = (if hl < IP4HDR then IP4HDR else hl); hl = (if hl > 64 then 64 else hl) in hl) \<le> BLEN b"
    using l(2) by (simp add: IP4HDR_def Let_def)
  have pull: "(if BLEN b < 64 then
              let hl = blocklen [b]; hl = (if hl < IP4HDR then IP4HDR else hl); hl = (if hl > 64 then 64 else hl)
              in inkern (pullupblock [b] hl) ?s else Inr ([b], ?s)) = Inr ([b], ?s)"
    using pu [OF m] by (simp add: Let_def inkern_def)
  show ?thesis
    unfolding ipiput4_def list.case v kbind_simps Let_def [of "ipstat InReceives s"] pull
    by (simp add: IP_VER4_def IP_HLEN4_def ck dst v me)
qed

definition dhdr :: "byte list \<Rightarrow> ushort \<Rightarrow> nat \<Rightarrow> nat \<Rightarrow> byte list" where
  "dhdr h lid seg N = bsplice 6 [0, 0] (bsplice 2 (hnputs (of_nat (20 + N))) (rhdr h lid N (0, seg)))"

lemma dhdr_fields:
  assumes "length h = 20"
  shows "length (dhdr h lid seg N) = 20" "bslice 12 8 (dhdr h lid seg N) = bslice 12 8 h" "bslice 9 1 (dhdr h lid seg N) = bslice 9 1 h"
    "bslice 2 2 (dhdr h lid seg N) = hnputs (of_nat (20 + N))" "bslice 6 2 (dhdr h lid seg N) = [0, 0]"
  using assms rhdr_fields(1,2,7) [OF assms, of lid N "(0, seg)"] by (simp_all add: dhdr_def bslice_bsplice_off del: of_nat_add)

definition rinv :: "(Fkey \<Rightarrow> Dgram) \<Rightarrow> Ips \<Rightarrow> bool" where
  "rinv D s \<longleftrightarrow> ginv D (ip_flist (s_ip s)) \<and> (ip_flist (s_ip s) \<noteq> [] \<or> ip_ffree (s_ip s) \<noteq> []) \<and> mem_avail (s_kern s)"

lemma fragment_in:
  assumes h: "length h = 20" "h ! 0 = 0x45" and seg: "8 dvd seg" "0 < seg" "seg < length p" and P: "length p + 20 < 65536"
    and c: "c \<in> set (cuts seg 0 (length p))" and b: "wfb b" "b_base b + 4 \<le> b_rp b" "bcont b = fragspec h lid 0 p c"
    and e: "e_forme e (bslice 16 4 h)" "e_rcv e (h ! 9)" and D: "D (dkey h lid) = dgram h lid seg p" and s: "rinv D s"
  shows "kok (ipiput4 e False ifc [b] s) (\<lambda>_ s'. rinv D s' \<and>
    (if got (dkey h lid) (ip_flist (s_ip s)) \<union> cspan c = {..<length p}
     then got (dkey h lid) (ip_flist (s_ip s')) = {} \<and>
       (\<exists>r. s_out s' = s_out s @ [Deliver (h ! 9) ifc r] \<and> wfp r \<and> ccont r = dhdr h lid seg (length p) @ p)
     else s_out s' = s_out s \<and> got (dkey h lid) (ip_flist (s_ip s')) = got (dkey h lid) (ip_flist (s_ip s)) \<union> cspan c))"
proof -
  let ?N = "length p" and ?\<kappa> = "dkey h lid"
  define f where "f = ffield (fst c) (snd c) ?N"
  define hh where "hh = withcsum (hdr0 h lid f (snd c))"
  have bc: "bcont b = hh @ bslice (fst c) (snd c) p" using b(3) by (cases c) (simp add: fragspec_def hh_def f_def)
  have l: "length hh = 20" using h by (simp add: hh_def)
  have h0: "hh ! 0 = 0x45" using h by (simp add: hh_def withcsum_def hdr0_def)
  have hl: "hdrlen (hdr0 h lid f (snd c) ! 0) = int (length (hdr0 h lid f (snd c)))" using h by (simp add: hdrlen_def)
  have cs: "ipcsum hh = 0" unfolding hh_def withcsum_def by (rule ipcsum_verify [OF hl]) (use h in simp)
  have fl: "bslice 16 4 hh = bslice 16 4 h" "bslice 6 2 hh = hnputs f" "hh ! 9 = h ! 9"
    using h bslice_nth [of 0 1 9 hh] bslice_nth [of 0 1 9 h] l by (simp_all add: hh_def header_simps)
  let ?s1 = "ipstat InReceives s"
  have s1: "s_ip ?s1 = stat InReceives (s_ip s)" "s_kern ?s1 = s_kern s" "s_out ?s1 = s_out s"
    "ip_flist (s_ip ?s1) = ip_flist (s_ip s)" "ip_ffree (s_ip ?s1) = ip_ffree (s_ip s)"
    by (simp_all add: ipstat_def stat_def)
  have en: "ipiput4 e False ifc [b] s = iplocal e ifc [b] ?s1"
    by (rule ipiput4_local [OF b(1) bc l h0 cs]) (use e fl in simp)
  define b' where "b' = hset 1 [if fst c + snd c < ?N then 1 else 0] b"
  have b': "wfb b'" "b_base b' + 4 \<le> b_rp b'" "bcont b' = rhdr h lid ?N c @ bslice (fst c) (snd c) p"
    "hput b 1 [if fst c + snd c < ?N then 1 else 0] k = Inr (b', k)" for k :: Ips
    using hput_cont [OF b(1), of 1 "[if fst c + snd c < ?N then 1 else 0]"] bc l b(2)
    by (simp_all add: b'_def rhdr_def hh_def f_def bsplice_header split del: if_split)
  note ok = frag_okpkt [OF h(1) seg P c b'(1-3)]
  have tf: "f AND IP_MF \<noteq> 0 \<longleftrightarrow> fst c + snd c < ?N"
  proof -
    have "8 dvd fst c" "fst c < 65536" using cuts_mem [of "fst c" "snd c" seg 0 ?N] c seg(1) P by (auto intro: dvd_trans)
    then show ?thesis using ffield_ok(2) [of "fst c" "snd c" ?N] by (simp add: f_def tst_def)
  qed
  have rs: "reassem e [b] ?s1 = (case ip4reassemble (e_now e) f [b'] (s_ip ?s1) (s_kern ?s1) of
      Inl f \<Rightarrow> Inl f | Inr ((bp, ip), k) \<Rightarrow> Inr (bp, ?s1\<lparr>s_ip := ip, s_kern := k\<rparr>))"
  proof -
    have "hget b 6 2 ?s1 = Inr (hnputs f, ?s1)" using hget_cont [OF b(1), of 6 2 ?s1] bc l fl(2) by (simp add: bslice_header)
    then show ?thesis
      unfolding reassem_def list.case using ok(5) b'(4) [of ?s1] by (simp add: tf f_def [symmetric])
  qed
  have ak: "akey (e_now e, f, b') = ?\<kappa>" "aspan (e_now e, f, b') = cspan c"
    using ok(2-4) by (simp_all add: akey_def aspan_def cspan_def f_def)
  have aok: "aok D (e_now e, f, b')" 
    unfolding aok_def ak D using ok(1) P by (simp add: f_def dgram_def)
  have pre: "ginv D (ip_flist (s_ip ?s1))" "ip_flist (s_ip ?s1) \<noteq> [] \<or> ip_ffree (s_ip ?s1) \<noteq> []" "mem_avail (s_kern ?s1)"
    using s unfolding s1(2,4,5) by (simp_all add: rinv_def)
  have dd: "d_data (D ?\<kappa>) = p" by (simp add: D dgram_def)
  obtain r ip' k' where st: "ip4reassemble (e_now e) f [b'] (s_ip ?s1) (s_kern ?s1) = Inr ((r, ip'), k')" "ginv D (ip_flist ip')"
    "length (ip_flist ip') + length (ip_ffree ip') = length (ip_flist (s_ip ?s1)) + length (ip_ffree (s_ip ?s1))" "mem_avail k'"
    and g: "if got ?\<kappa> (ip_flist (s_ip ?s1)) \<union> cspan c = {..<?N}
     then whole (D ?\<kappa>) r \<and> got ?\<kappa> (ip_flist ip') = {}
     else r = [] \<and> got ?\<kappa> (ip_flist ip') = got ?\<kappa> (ip_flist (s_ip ?s1)) \<union> cspan c"
    by (rule reasm_stepD [OF pre aok, unfolded ak dd])
  let ?s2 = "?s1\<lparr>s_ip := ip', s_kern := k'\<rparr>"
  have inv: "rinv D ?s2" using st(2-4) pre(2) by (auto simp: rinv_def)
  have lo: "iplocal e ifc [b] ?s1 = (case r of [] \<Rightarrow> Inr ((), ?s2) | b # nxt \<Rightarrow>
     kbind (hput b 6 [0, 0] ?s2) (\<lambda>b s. kbind (hget b 9 1 s) (\<lambda>proto s.
     if e_rcv e (proto ! 0) then Inr ((), emit (Deliver (proto ! 0) ifc (b # nxt)) (ipstat InDelivers s))
     else Inr ((), dropb (b # nxt) (ipstat InUnknownProtos (ipstat InDiscards s))))))"
    unfolding iplocal_def rs st(1) by simp
  show ?thesis
  proof (cases "got ?\<kappa> (ip_flist (s_ip ?s1)) \<union> cspan c = {..<?N}")
    case False
    then show ?thesis unfolding en lo using g inv unfolding s1(4) by (simp add: s1(3))
  next
    case True
    then have w: "wfp r" and cc: "ccont r = bsplice 2 (hnputs (of_nat (20 + ?N))) (rhdr h lid ?N (0, seg)) @ p"
      and g': "got ?\<kappa> (ip_flist ip') = {}"
      using g unfolding D by (auto simp: whole_def dgram_def)
    obtain x nx where r: "r = x # nx" "wfb x" "wfc nx" "20 \<le> length (bcont x)"
      using w by (cases r) (auto simp: wfp_def)
    have lx: "20 \<le> BLEN x" using r(1) w by (simp add: wfp_def)
    let ?h1 = "bsplice 2 (hnputs (of_nat (20 + ?N))) (rhdr h lid ?N (0, seg))"
    have l1: "length ?h1 = 20" using rhdr_fields(1) [OF h(1)] by simp
    have x: "bcont x = ?h1 @ drop 20 (bcont x)" "drop 20 (bcont x) @ ccont nx = p"
      using arg_cong [OF cc [unfolded r(1)], of "take 20"] arg_cong [OF cc [unfolded r(1)], of "drop 20"] r(4) l1
      by (simp_all del: of_nat_add) (metis append_take_drop_id)
    let ?y = "hset 6 [0, 0] x"
    have y: "hput x 6 [0, 0] ?s2 = Inr (?y, ?s2)" "wfb ?y" "bcont ?y = dhdr h lid seg ?N @ drop 20 (bcont x)"
      using hput_cont [OF r(2), of 6 "[0, 0]"] r(4) x(1) l1 bsplice_header [of 6 "[0, 0]" ?h1 "drop 20 (bcont x)"]
      by (simp_all add: dhdr_def del: of_nat_add)
    have "hget ?y 9 1 ?s2 = Inr ([h ! 9], ?s2)"
    proof -
      have "bslice 9 1 (bcont ?y) = bslice 9 1 h"
        unfolding y(3) using dhdr_fields(1,3) [OF h(1), of lid seg ?N] by (simp add: bslice_header)
      moreover have "bslice 9 1 h = [h ! 9]" using h(1) by (simp add: bslice_def take_Suc hd_drop_conv_nth)
      ultimately show ?thesis using hget_cont [OF y(2), of 9 1 ?s2] y(3) dhdr_fields(1) [OF h(1)] by simp
    qed
    then have e2: "iplocal e ifc [b] ?s1 = Inr ((), emit (Deliver (h ! 9) ifc (?y # nx)) (ipstat InDelivers ?s2))"
      unfolding lo r(1) list.case y(1) using e(2) by simp
    have "wfp (?y # nx)" "ccont (?y # nx) = dhdr h lid seg ?N @ p"
      using y(2,3) r(3,4) x(2) dhdr_fields(1) [OF h(1), of lid seg ?N] lx by (simp_all add: wfp_def)
    moreover have "rinv D (emit (Deliver (h ! 9) ifc (?y # nx)) (ipstat InDelivers ?s2))"
      using inv by (simp add: rinv_def emit_def ipstat_def stat_def)
    moreover have "s_out (emit x (ipstat InDelivers ?s2)) = s_out s @ [x]" "ip_flist (s_ip (emit x (ipstat InDelivers ?s2))) = ip_flist ip'" for x
      by (simp_all add: emit_def ipstat_def stat_def)
    ultimately show ?thesis unfolding en e2 kok_simps using True g' unfolding s1(4) by auto
  qed
qed

text \<open>All that arrives on the interfaces of a host, in order.\<close>

fun inputs :: "(Ienv \<times> nat \<times> Block) list \<Rightarrow> Ips \<Rightarrow> (unit, Ips) kres" where
  "inputs [] s = Inr ((), s)"
| "inputs ((e, ifc, b) # xs) s = kbind (ipiput4 e False ifc [b] s) (\<lambda>_ s. inputs xs s)"

text \<open>An arrival is a copy of the fragment \<open>c\<close>, at a host that accepts it.\<close>

definition copyof :: "byte list \<Rightarrow> ushort \<Rightarrow> byte list \<Rightarrow> Ienv \<times> nat \<times> Block \<Rightarrow> nat \<times> nat \<Rightarrow> bool" where
  "copyof h lid p x c \<longleftrightarrow> (case x of (e, ifc, b) \<Rightarrow>
     wfb b \<and> b_base b + 4 \<le> b_rp b \<and> bcont b = fragspec h lid 0 p c \<and> e_forme e (bslice 16 4 h) \<and> e_rcv e (h ! 9))"

lemma inputs_ok:
  assumes h: "length h = 20" "h ! 0 = 0x45" and seg: "8 dvd seg" "0 < seg" "seg < length p" and P: "length p + 20 < 65536"
    and D: "D (dkey h lid) = dgram h lid seg p"
    and xs: "list_all2 (copyof h lid p) xs cs" "set cs \<subseteq> set (cuts seg 0 (length p))"
    and s: "rinv D s" "got (dkey h lid) (ip_flist (s_ip s)) = C"
  shows "kok (inputs xs s) (\<lambda>_ s'. rinv D s' \<and> (\<exists>ds. s_out s' = s_out s @ map (\<lambda>(ifc, r). Deliver (h ! 9) ifc r) ds \<and>
    length ds = length (filter id (deliver (length p) C (map cspan cs))) \<and>
    (\<forall>(ifc, r) \<in> set ds. wfp r \<and> ccont r = dhdr h lid seg (length p) @ p)))"
  using xs s
proof (induction xs cs arbitrary: s C rule: list_all2_induct)
  case (Cons x xs c cs)
  obtain e ifc b where x: "x = (e, ifc, b)" by (cases x) auto
  have c: "c \<in> set (cuts seg 0 (length p))" "set cs \<subseteq> set (cuts seg 0 (length p))" using Cons.prems(1) by auto
  have b: "wfb b" "b_base b + 4 \<le> b_rp b" "bcont b = fragspec h lid 0 p c" "e_forme e (bslice 16 4 h)" "e_rcv e (h ! 9)"
    using Cons.hyps(1) by (auto simp: copyof_def x)
  obtain u s1 where i: "ipiput4 e False ifc [b] s = Inr (u, s1)" "rinv D s1"
    and g: "if C \<union> cspan c = {..<length p}
     then got (dkey h lid) (ip_flist (s_ip s1)) = {} \<and>
       (\<exists>r. s_out s1 = s_out s @ [Deliver (h ! 9) ifc r] \<and> wfp r \<and> ccont r = dhdr h lid seg (length p) @ p)
     else s_out s1 = s_out s \<and> got (dkey h lid) (ip_flist (s_ip s1)) = C \<union> cspan c"
    using fragment_in [OF h seg P c(1) b D Cons.prems(2), of ifc] unfolding kok_returns Cons.prems(3) by blast
  define C' where "C' = (if C \<union> cspan c = {..<length p} then {} else C \<union> cspan c)"
  have C': "got (dkey h lid) (ip_flist (s_ip s1)) = C'" using g by (auto simp: C'_def)
  have d: "deliver (length p) C (map cspan (c # cs)) = (C \<union> cspan c = {..<length p}) # deliver (length p) C' (map cspan cs)"
    by (simp add: C'_def)
  obtain ds0 where ds0: "s_out s1 = s_out s @ map (\<lambda>(ifc, r). Deliver (h ! 9) ifc r) ds0"
    "length ds0 = (if C \<union> cspan c = {..<length p} then 1 else 0)"
    "\<forall>(ifc, r) \<in> set ds0. wfp r \<and> ccont r = dhdr h lid seg (length p) @ p"
  proof (cases "C \<union> cspan c = {..<length p}")
    case True
    then obtain r where "s_out s1 = s_out s @ [Deliver (h ! 9) ifc r]" "wfp r" "ccont r = dhdr h lid seg (length p) @ p" using g by auto
    then show ?thesis using True by (intro that [of "[(ifc, r)]"]) auto
  next
    case False
    then show ?thesis using g by (intro that [of "[]"]) auto
  qed
  obtain s2 ds where r: "inputs xs s1 = Inr ((), s2)" "rinv D s2" "s_out s2 = s_out s1 @ map (\<lambda>(ifc, r). Deliver (h ! 9) ifc r) ds"
    "length ds = length (filter id (deliver (length p) C' (map cspan cs)))"
    "\<forall>(ifc, r) \<in> set ds. wfp r \<and> ccont r = dhdr h lid seg (length p) @ p"
    using Cons.IH [OF c(2) i(2) C'] unfolding kok_returns by auto
  have "inputs (x # xs) s = Inr ((), s2)" by (simp add: x i(1) r(1))
  moreover have "s_out s2 = s_out s @ map (\<lambda>(ifc, r). Deliver (h ! 9) ifc r) (ds0 @ ds)" using ds0(1) r(3) by simp
  moreover have "length (ds0 @ ds) = length (filter id (deliver (length p) C (map cspan (c # cs))))" unfolding d using ds0(2) r(4) by simp
  moreover have "\<forall>(ifc, r) \<in> set (ds0 @ ds). wfp r \<and> ccont r = dhdr h lid seg (length p) @ p" using ds0(3) r(5) by auto
  ultimately show ?case using r(2) by (simp only: kok_simps) blast
qed auto

text \<open>The datagram is complete when the last of the fragments has come, and not before.\<close>

lemma deliver_last:
  assumes "C \<union> \<Union>(set (Ss @ [S])) = {..<N}" "C \<union> \<Union>(set Ss) \<noteq> {..<N}"
  shows "deliver N C (Ss @ [S]) = replicate (length Ss) False @ [True]"
  using assms
proof (induction Ss arbitrary: C)
  case (Cons T Ss)
  have "C \<union> T \<noteq> {..<N}"
  proof
    assume f: "C \<union> T = {..<N}"
    then have "C \<union> \<Union>(set (T # Ss)) = {..<N}" using Cons.prems(1) by auto
    then show False using Cons.prems(2) by blast
  qed
  then show ?case using Cons.IH [of "C \<union> T"] Cons.prems by (simp add: Un_assoc)
qed simp

end
