(* ===== verification/Ip_Properties.thy ===== *)
theory Ip_Properties
  imports Ipround
begin

text \<open>
  The correctness statements of the IPv4 code, with the concrete packets on which their hypotheses hold. The proofs are
  in the theories Reasm, Ipsum, Ipfrag and Ipround.
\<close>

section \<open>Concrete packets\<close>

definition ip_kern :: Kern where
  "ip_kern = \<lparr>k_up = True, k_bytes = 0, k_limit = 100000, k_m1 = 0, k_mp = 0, k_debugialloc = False, k_iac = [],
     k_mallocs = (\<lambda>i. Some (4096 + 4096 * int i, [])), k_mnext = 0, k_drvfreed = [], k_padblockcnt = 0,
     k_concatblockcnt = 0, k_pullupblockcnt = 0, k_copyblockcnt = 0, k_consumecnt = 0, k_producecnt = 0,
     k_qcopycnt = 0, k_noblockcnt = 0\<rparr>"

definition ip_block :: "byte list \<Rightarrow> Block" where
  "ip_block bs = \<lparr>b_rp = 16, b_wp = 16 + int (length bs), b_lim = 16 + int (length bs), b_base = 0,
     b_data = replicate 16 0 @ bs, b_free = None, b_flag = 0, b_checksum = 0\<rparr>"

text \<open>A header from 10.0.0.1 to 10.0.0.2, and the numbers up to \<open>n\<close>.\<close>

definition pkthdr :: "byte \<Rightarrow> byte \<Rightarrow> byte \<Rightarrow> byte \<Rightarrow> byte list" where
  "pkthdr tos n fr0 fr1 = withcsum [0x45, tos, 0, n, 0, 7, fr0, fr1, 64, 17, 0, 0, 10, 0, 0, 1, 10, 0, 0, 2]"

definition nums :: "nat \<Rightarrow> nat \<Rightarrow> byte list" where "nums i n = map of_nat [i..<n]"

text \<open>A host with one route, to the interface 1.\<close>

definition route1 :: Route where
  "route1 = (zeroroute (Rv4 OR Runi))\<lparr>rt_ifc := Some 1, rt_e4 := 0xffffffff\<rparr>"

definition ip_fs :: Fs where
  "ip_fs = \<lparr>f_v4root = \<lambda>_. Rnode Nilr route1 Nilr Nilr, f_v6root = \<lambda>_. Nilr,
     f_tab = \<lparr>t_v4free = 0, t_v6free = 0, t_mallocs = \<lambda>_. True, t_mnext = 0, t_queue = []\<rparr>,
     f_v4gen = 0, f_v6gen = 0, f_media = []\<rparr>"

definition ip_env :: "bool \<Rightarrow> Ienv" where
  "ip_env me = \<lparr>e_ifc = \<lambda>_. \<lparr>i_hsize = Some 14, i_maxtu = 114, i_reassemble = True\<rparr>, e_find = \<lambda>_ _. None, e_ifcid = \<lambda>_. 0,
     e_v4prefix = [], e_v4tov6 = \<lambda>_. [], e_forme = \<lambda>_. me, e_rcv = \<lambda>p. p = 17, e_now = 0\<rparr>"

definition ip_host :: Ips where
  "ip_host = \<lparr>s_fs = ip_fs, s_ip = iprouting 1 (case initfrag True 2 ip_zero of Inr ip \<Rightarrow> ip | Inl _ \<Rightarrow> ip_zero), s_kern = ip_kern,
     s_locks = \<lambda>_. \<lparr>w_head = None, w_tail = None, w_wproc = None, w_readers = 0, w_writer = 0\<rparr>,
     s_procs = \<lparr>p_qnext = \<lambda>_. None, p_state = \<lambda>_. Running, p_readied = [], rw_rlock = 0, rw_rlockq = 0, rw_wlock = 0,
       rw_wlockq = 0, rw_qlock = 0, rw_qlockq = 0\<rparr>, s_out = []\<rparr>"

definition frag1 :: Block where "frag1 = ip_block (pkthdr 0 36 0x20 0 @ nums 0 16)"
definition frag2 :: Block where "frag2 = ip_block (pkthdr 0 36 0 2 @ nums 16 32)"

section \<open>Fragmentation and reassembly\<close>

lemma cuts_distinct: "distinct (cuts seg a N)"
proof (induction seg a N rule: cuts.induct)
  case (1 seg a N)
  show ?case
  proof (cases "a < N \<and> 0 < seg")
    case True
    have "(a, n) \<notin> set (cuts seg (a + seg) N)" for n using cuts_mem [of a n seg "a + seg" N] True by auto
    then show ?thesis using 1 True by (simp add: cuts_step)
  qed (simp add: cuts_end)
qed

lemma list_all2_in: "list_all2 P xs (map f ys) \<Longrightarrow> x \<in> set xs \<Longrightarrow> \<exists>y \<in> set ys. P x (f y)"
  by (induction xs arbitrary: ys) (auto simp: list_all2_Cons1 Cons_eq_map_conv)

lemma bslice_take20: "i + n \<le> 20 \<Longrightarrow> bslice i n (take 20 p) = bslice i n p"
  by (simp add: bslice_def drop_take min_def)

text \<open>A copy of the block \<open>j\<close> that was sent arrives at a host that accepts the packet \<open>p\<close>.\<close>

definition arrives :: "byte list \<Rightarrow> Block list \<Rightarrow> Ienv \<times> nat \<times> Block \<Rightarrow> nat \<Rightarrow> bool" where
  "arrives p nbs x j \<longleftrightarrow> (case x of (e, ifc, b) \<Rightarrow> j < length nbs \<and> wfb b \<and> b_base b + 4 \<le> b_rp b \<and>
     bcont b = bcont (nbs ! j) \<and> e_forme e (bslice 16 4 p) \<and> e_rcv e (p ! 9))"

lemma arrivals_deliver:
  assumes h: "length h = 20" "h ! 0 = 0x45" and seg: "8 dvd seg" "0 < seg" "seg < length q" and Q: "length q + 20 < 65536"
    and nbs: "list_all2 newblk nbs (map (fragspec h lid 0 q) (cuts seg 0 (length q)))"
    and p: "bslice 16 4 p = bslice 16 4 h" "p ! 9 = h ! 9"
    and t: "ip_flist (s_ip t) = []" "ip_ffree (s_ip t) \<noteq> []" "mem_avail (s_kern t)"
    and xs: "list_all2 (arrives p nbs) (xs @ [x]) (js @ [j])" "insert j (set js) = {..<length nbs}" "j \<notin> set js"
  shows "kok (inputs (xs @ [x]) t) (\<lambda>_ t'. \<exists>i r. s_out t' = s_out t @ [Deliver (p ! 9) i r] \<and> wfp r \<and>
    ccont r = dhdr h lid seg (length q) @ q)"
proof -
  let ?cs = "cuts seg 0 (length q)" and ?N = "length q"
  have ln: "length nbs = length ?cs" and nb: "i < length nbs \<Longrightarrow> bcont (nbs ! i) = fragspec h lid 0 q (?cs ! i)" for i
    using nbs by (auto simp: list_all2_conv_all_nth newblk_def)
  have js: "i \<in> set (js @ [j]) \<Longrightarrow> i < length nbs" for i using xs(2) by auto
  have co: "list_all2 (copyof h lid q) (xs @ [x]) (map ((!) ?cs) (js @ [j]))"
    unfolding list_all2_map2 using xs(1) by (rule list_all2_mono) (auto simp: arrives_def copyof_def nb p)
  have sub: "set (map ((!) ?cs) (js @ [j])) \<subseteq> set ?cs" using js by (auto simp: ln)
  have inv: "rinv (\<lambda>_. dgram h lid seg q) t" using t by (simp add: rinv_def ginv_simps)
  have all: "\<Union>(set (map cspan (map ((!) ?cs) (js @ [j])))) = {..<?N}"
  proof -
    have "set (map ((!) ?cs) (js @ [j])) = set ?cs"
      using xs(2) by (simp add: ln) (metis image_insert lessThan_atLeast0 list.set_map map_nth set_upt)
    then have "\<Union>(set (map cspan (map ((!) ?cs) (js @ [j])))) = (\<Union>c \<in> set ?cs. cspan c)" by (metis list.set_map)
    then show ?thesis using cuts_cover [OF seg(2), of 0 ?N] by (simp add: atLeast0LessThan)
  qed
  have jl: "j < length ?cs" using xs(2) ln by auto
  then have "0 < snd (?cs ! j)" using cuts_mem [of "fst (?cs ! j)" "snd (?cs ! j)" seg 0 ?N] by simp
  then have mem: "fst (?cs ! j) \<in> cspan (?cs ! j)" by (simp add: cspan_def)
  have out: "fst (?cs ! j) \<notin> cspan (?cs ! i)" if "i \<in> set js" for i
  proof -
    have i: "i < length ?cs" "i \<noteq> j" using that xs(2,3) ln by auto
    then have "?cs ! i \<noteq> ?cs ! j" using cuts_distinct jl by (metis nth_eq_iff_index_eq)
    then show ?thesis using cuts_disjoint [of "?cs ! i" seg 0 ?N "?cs ! j"] i(1) jl mem by auto
  qed
  have "fst (?cs ! j) < ?N" using all mem by auto
  then have before: "\<Union>(set (map cspan (map ((!) ?cs) js))) \<noteq> {..<?N}" using out by auto
  have "deliver ?N {} (map cspan (map ((!) ?cs) js) @ [cspan (?cs ! j)]) = replicate (length js) False @ [True]"
    using deliver_last [of "{}" "map cspan (map ((!) ?cs) js)" "cspan (?cs ! j)" ?N] all before by simp
  then have one: "length (filter id (deliver ?N {} (map cspan (map ((!) ?cs) (js @ [j]))))) = 1" by simp
  have g0: "got (dkey h lid) (ip_flist (s_ip t)) = {}" using t(1) by simp
  show ?thesis
  proof (rule kok_mono [OF inputs_ok [OF h seg Q refl co sub inv g0, unfolded one]])
    fix u t'
    assume "rinv (\<lambda>_. dgram h lid seg q) t' \<and> (\<exists>ds. s_out t' = s_out t @ map (\<lambda>(ifc, r). Deliver (h ! 9) ifc r) ds \<and>
      length ds = 1 \<and> (\<forall>(ifc, r) \<in> set ds. wfp r \<and> ccont r = dhdr h lid seg (length q) @ q))"
    then show "\<exists>i r. s_out t' = s_out t @ [Deliver (p ! 9) i r] \<and> wfp r \<and> ccont r = dhdr h lid seg (length q) @ q"
      by (auto simp: length_Suc_conv p)
  qed
qed

text \<open>
  C4: The fragments of a packet make it to the other end: when \<^verbatim>\<open>ipoput4\<close> sends a packet that is too long for
  the medium, every fragment fits the medium, and a host that gets copies of the fragments through \<^verbatim>\<open>ipiput4\<close>, in any
  order and any number of times each, delivers exactly one packet to the protocol, when the last fragment has come: the
  payload byte for byte, behind a header with the addresses and the protocol of the packet and its whole length.
\<close>

theorem frag_roundtrip:
  assumes "wfc (b # nxt)" "20 \<le> BLEN b" "mem_avail (s_kern s)" "28 \<le> m" "m < blocklen (b # nxt)" "blocklen (b # nxt) < 65536"
    and "ccont (b # nxt) ! 6 AND ucast (drop_bit 8 IP_DF) = 0"
    and "v4lookup (e_find e) (e_ifcid e) (e_v4prefix e) (e_v4tov6 e) (s_fs s) (bslice 16 4 (ccont (b # nxt))) c = (Some r, fs, c')"
    and "rt_ifc r = Some ifc" "tst (rt_type r) (Rifc OR Runi)" "w_writer (s_locks s ifc) = 0" "w_head (s_locks s ifc) = None"
    and "i_hsize (e_ifc e ifc) = Some hs" "m = medialen (e_ifc e ifc) c' maxfrag hs"
    and "ip_flist (s_ip t) = []" "ip_ffree (s_ip t) \<noteq> []" "mem_avail (s_kern t)"
  shows "kok (ipoput4 e (b # nxt) False ttl tos c maxfrag s) (\<lambda>rv s'. rv = 0 \<and>
    (\<exists>nbs. s_out s' = s_out s @ map (\<lambda>nb. Bwrite ifc [nb] (bslice 16 4 (ccont (b # nxt)))) nbs \<and> (\<forall>nb \<in> set nbs. wfb nb \<and> b_base nb + 4 \<le> b_rp nb \<and> BLEN nb \<le> m) \<and>
      (\<forall>xs x js j. list_all2 (arrives (ccont (b # nxt)) nbs) (xs @ [x]) (js @ [j]) \<and> insert j (set js) = {..<length nbs} \<and> j \<notin> set js \<longrightarrow>
        kok (inputs (xs @ [x]) t) (\<lambda>_ t'. \<exists>i r h. s_out t' = s_out t @ [Deliver (ccont (b # nxt) ! 9) i r] \<and>
          wfp r \<and> ccont r = h @ drop 20 (ccont (b # nxt)) \<and> length h = 20 \<and> bslice 12 8 h = bslice 12 8 (ccont (b # nxt)) \<and>
          bslice 9 1 h = bslice 9 1 (ccont (b # nxt)) \<and> nhgets (bslice 2 2 h) = of_nat (length (ccont (b # nxt)))))))"
proof -
  define p where "p = ccont (b # nxt)"
  note a = assms [folded p_def]
  let ?seg = "8 * nat ((m - 20) div 8)" and ?h = "ohdr ttl tos (take 20 p)" and ?q = "drop 20 p" and ?lid = "of_int (ip_id4 (s_ip s) + 1) :: ushort"
  have bl: "blocklen (b # nxt) = int (length p)" using length_ccont [OF assms(1)] by (simp add: p_def)
  have len: "20 < length p" "length p < 65536" "m < int (length p)" using a(4-6) unfolding bl by linarith+
  have lh: "length (take 20 p) = 20" using len(1) by simp
  note oh = ohdr_fields [OF lh, of ttl tos]
  have sl: "bslice 12 8 (take 20 p) = bslice 12 8 p" "bslice 9 1 (take 20 p) = bslice 9 1 p"
    by (rule bslice_take20, simp)+
  have fields: "bslice 16 4 p = bslice 16 4 ?h" "p ! 9 = ?h ! 9"
    using arg_cong [OF oh(4), of "drop 4"] sl bslice_nth [of 0 1 9 ?h] bslice_nth [of 0 1 9 p] oh(1,5) len(1)
    by (simp_all add: drop_bslice)
  have seg: "8 dvd ?seg" "0 < ?seg" "?seg < length ?q" "int ?seg \<le> m - 20"
    using a(4) len pos_imp_zdiv_nonneg_iff [of 8 "m - 28"] by auto
  have Q: "length ?q + 20 < 65536" "length p - 20 = length ?q" "20 + length ?q = length p" using len by simp_all
  show ?thesis
    unfolding p_def [symmetric]
  proof (rule kok_mono [OF ipoput4_fragments [OF a(1,2) p_def a(3) len(1,2) a(4) len(3) a(7-14), of ttl tos]], elim conjE exE)
    fix rv s' nbs
    assume rv: "rv = 0" and out: "s_out s' = s_out s @ map (\<lambda>nb. Bwrite ifc [nb] (bslice 16 4 p)) nbs"
      and nbs: "list_all2 newblk nbs (map (fragspec ?h ?lid 0 ?q) (cuts ?seg 0 (length p - 20)))"
    note nbs = nbs [unfolded Q(2)]
    have fit: "wfb nb \<and> b_base nb + 4 \<le> b_rp nb \<and> BLEN nb \<le> m" if "nb \<in> set nbs" for nb
    proof -
      obtain c where c: "newblk nb (fragspec ?h ?lid 0 ?q c)" "c \<in> set (cuts ?seg 0 (length ?q))"
        using list_all2_in [OF nbs \<open>nb \<in> set nbs\<close>] by blast
      have m: "snd c \<le> ?seg" "fst c + snd c \<le> length ?q"
        using cuts_mem [of "fst c" "snd c" ?seg 0 "length ?q"] c(2) by auto
      have "length (bcont nb) = 20 + snd c"
        using c(1) m(2) oh(1) by (cases c) (simp add: newblk_def fragspec_def)
      moreover have "int (length (bcont nb)) = BLEN nb" by (rule int_length_bcont) (use c(1) in \<open>simp add: newblk_def\<close>)
      ultimately have "BLEN nb \<le> m" using m(1) seg(4) by linarith
      then show ?thesis using c(1) by (simp add: newblk_def)
    qed
    have "kok (inputs (xs @ [x]) t) (\<lambda>_ t'. \<exists>i r h. s_out t' = s_out t @ [Deliver (p ! 9) i r] \<and>
          wfp r \<and> ccont r = h @ ?q \<and> length h = 20 \<and> bslice 12 8 h = bslice 12 8 p \<and>
          bslice 9 1 h = bslice 9 1 p \<and> nhgets (bslice 2 2 h) = of_nat (length p))"
      if x: "list_all2 (arrives p nbs) (xs @ [x]) (js @ [j])" "insert j (set js) = {..<length nbs}" "j \<notin> set js" for xs x js j
      by (rule kok_mono [OF arrivals_deliver [OF oh(1,2) seg(1-3) Q(1) nbs fields a(15-17) x]])
         (use dhdr_fields [OF oh(1), of ?lid ?seg "length ?q"] oh(4,5) sl Q(3) in \<open>auto simp del: of_nat_add\<close>)
    then show "rv = 0 \<and> (\<exists>nbs. s_out s' = s_out s @ map (\<lambda>nb. Bwrite ifc [nb] (bslice 16 4 p)) nbs \<and> (\<forall>nb \<in> set nbs. wfb nb \<and> b_base nb + 4 \<le> b_rp nb \<and> BLEN nb \<le> m) \<and>
      (\<forall>xs x js j. list_all2 (arrives p nbs) (xs @ [x]) (js @ [j]) \<and> insert j (set js) = {..<length nbs} \<and> j \<notin> set js \<longrightarrow>
        kok (inputs (xs @ [x]) t) (\<lambda>_ t'. \<exists>i r h. s_out t' = s_out t @ [Deliver (p ! 9) i r] \<and>
          wfp r \<and> ccont r = h @ ?q \<and> length h = 20 \<and> bslice 12 8 h = bslice 12 8 p \<and>
          bslice 9 1 h = bslice 9 1 p \<and> nhgets (bslice 2 2 h) = of_nat (length p))))"
      using rv out fit by blast
  qed
qed

lemma ip_block_ok [simp]: "wfb (ip_block bs)" "bcont (ip_block bs) = bs" "BLEN (ip_block bs) = int (length bs)"
  "b_base (ip_block bs) = 0" "b_rp (ip_block bs) = 16"
  by (simp_all add: wfb_def bcont_def BLEN_def ip_block_def bslice_def)

lemma ip_host_ok [simp]: "mem_avail ip_kern" "s_kern ip_host = ip_kern" "ip_flist (s_ip ip_host) = []" "ip_ffree (s_ip ip_host) \<noteq> []"
  by (simp_all add: mem_avail_def ip_kern_def ip_host_def iprouting_def initfrag_def ip_zero_def)

text \<open>A packet of 60 bytes, sent over a connection with 50 bytes at most.\<close>

theorem frag_roundtrip_witness:
  "kok (ipoput4 (ip_env True) [ip_block (pkthdr 0 60 0 0 @ nums 0 40)] False 64 0 (Some \<lparr>c_r = Some route1, c_rgen = 0\<rparr>) 50 ip_host)
    (\<lambda>rv s'. rv = 0 \<and> (\<exists>nbs. s_out s' = map (\<lambda>nb. Bwrite 1 [nb] [10, 0, 0, 2]) nbs \<and> (\<forall>nb \<in> set nbs. BLEN nb \<le> 36)))"
proof -
  let ?b = "ip_block (pkthdr 0 60 0 0 @ nums 0 40)" and ?c = "Some \<lparr>c_r = Some route1, c_rgen = 0\<rparr>" and ?e = "ip_env True"
  have l: "length (pkthdr 0 60 0 0 @ nums 0 40) = 60" by (simp add: pkthdr_def nums_def)
  have h: "(pkthdr 0 60 0 0 @ nums 0 40) ! 6 = 0" "bslice 16 4 (pkthdr 0 60 0 0 @ nums 0 40) = [10, 0, 0, 2]" by code_simp+
  have 1: "wfc [?b]" "20 \<le> BLEN ?b" "36 < blocklen [?b]" "blocklen [?b] < 65536" "28 \<le> (36::int)" "mem_avail (s_kern ip_host)"
    using l by simp_all
  have 2: "ccont [?b] ! 6 AND ucast (drop_bit 8 IP_DF) = 0" "bslice 16 4 (ccont [?b]) = [10, 0, 0, 2]" using h by simp_all
  have 3: "v4lookup (e_find ?e) (e_ifcid ?e) (e_v4prefix ?e) (e_v4tov6 ?e) (s_fs ip_host) (bslice 16 4 (ccont [?b])) ?c = (Some route1, ip_fs, ?c)"
    by (simp add: v4lookup_def cached_def route1_def ip_host_def ip_fs_def)
  have 4: "rt_ifc route1 = Some 1" "tst (rt_type route1) (Rifc OR Runi)"
    by (simp add: route1_def, code_simp)
  have 5: "w_writer (s_locks ip_host 1) = 0" "w_head (s_locks ip_host 1) = None" "i_hsize (e_ifc ?e 1) = Some 14"
    "36 = medialen (e_ifc ?e 1) ?c 50 14" "s_out ip_host = []"
    by (simp_all add: ip_host_def ip_env_def medialen_def)
  show ?thesis
    by (rule kok_mono [OF frag_roundtrip [OF 1(1,2,6,5,3,4) 2(1) 3 4 5(1-4) ip_host_ok(3,4) 1(6), of 64 0]]) (use 2(2) 5(5) in auto)
qed
text \<open>
  A run: a forwarded datagram that was reassembled crashes the gateway. Two fragments that fit the outgoing interface
  as one packet, with \<^verbatim>\<open>reassemble\<close> set on it, end in \<^verbatim>\<open>assert(bp->next == nil)\<close> of \<^verbatim>\<open>ipoput4\<close>, because
  \<^verbatim>\<open>ip4reassemble\<close> returns a chain.
\<close>

lemma forward_reassembled_panics:
  "case inputs [(ip_env False, 0, frag1), (ip_env False, 0, frag2)] ip_host of Inl (Panic m) \<Rightarrow> m = ''assert'' | _ \<Rightarrow> False"
  by code_simp

text \<open>
  C5: Reassembly implements its specification, for the fragments of one datagram in any order, with duplicates and with
  overlaps, except those of a fragment that runs over the end of a first fragment that arrived before it
  (\<open>arrivals\<close>): the results of \<^verbatim>\<open>ip4reassemble\<close> are those of the set of the bytes received, which
  delivers the datagram exactly when the set is complete and then starts again from nothing. The exception is the
  code's (\<^verbatim>\<open>ip.c:607\<close>, see \<open>overlap_corrupts\<close> below).
\<close>

theorem reasm_refines:
  assumes "ginv D (ip_flist ip)" "ip_flist ip \<noteq> [] \<or> ip_ffree ip \<noteq> []" "mem_avail k" "arrivals D xs" "\<forall>x \<in> set xs. akey x = \<kappa>"
  shows "kok (reasm_run xs ip k) (\<lambda>(rs, ip') k'.
    list_all2 (delivered (fold seen xs D \<kappa>)) rs (deliver (length (d_data (D \<kappa>))) (got \<kappa> (ip_flist ip)) (map aspan xs)))"
  using assms by (rule reasm_run_one)

text \<open>Three fragments of 24 bytes that overlap; the last one first.\<close>

definition over1 :: "ulong \<times> ushort \<times> Block" where "over1 = (0, 1, ip_block (pkthdr 0 36 0 1 @ nums 8 24))"
definition over2 :: "ulong \<times> ushort \<times> Block" where "over2 = (5, 0x2000, ip_block (pkthdr 1 28 0x20 0 @ nums 0 8))"
definition over3 :: "ulong \<times> ushort \<times> Block" where "over3 = (9, 0x2001, ip_block (pkthdr 1 28 0x20 1 @ nums 8 16))"
definition over_dgram :: Dgram where "over_dgram = \<lparr>d_hdrs = {}, d_data = nums 0 24\<rparr>"

lemma over_key: "akey over1 = (0x0a000001, 0x0a000002, 7)" "akey over2 = (0x0a000001, 0x0a000002, 7)"
  "akey over3 = (0x0a000001, 0x0a000002, 7)"
  by code_simp+

lemma over_pkt: "okfrag over_dgram (fst (snd over1)) (snd (snd over1))" "okfrag over_dgram (fst (snd over2)) (snd (snd over2))"
  "okfrag over_dgram (fst (snd over3)) (snd (snd over3))"
  by code_simp+

lemma over_place: "aoff over1 = 8" "aoff over2 = 0" "aoff over3 = 8" "plen (ahdr over2) = 8"
  by code_simp+

lemma okfrag_hdrs: "d_data d = d_data e \<Longrightarrow> okfrag d frag b = okfrag e frag b"
  by (simp only: okfrag_def)

text \<open>Arrivals after which no first fragment is longer than 8 bytes.\<close>

lemma arrivals_short:
  assumes "okfrag (D (akey x)) (fst (snd x)) (snd (snd x))" "length (d_data (D (akey x))) < 65536"
    "\<forall>h \<in> d_hdrs (D (akey x)). plen h \<le> 8" "aoff x = 0 \<or> 8 \<le> aoff x" "arrivals (seen x D) xs"
  shows "arrivals D (x # xs)"
  using assms by (auto simp: overruns_def)

lemma over_deliver: "deliver 24 {} (map aspan [over1, over3, over2, over1]) = [False, False, True, False]"
  by code_simp

lemma over_arrivals:
  assumes "D (0x0a000001, 0x0a000002, 7) = over_dgram"
  shows "arrivals D [over1, over3, over2, over1]"
proof -
  have d: "length (d_data over_dgram) < 65536" by (simp add: over_dgram_def nums_def)
  note o = over_key over_place over_pkt assms d
  have "d_hdrs over_dgram = {}" by (simp add: over_dgram_def)
  with o show ?thesis
    by (intro arrivals_short) (auto simp: seen_def okfrag_hdrs [of "over_dgram\<lparr>d_hdrs := _\<rparr>" over_dgram])
qed

theorem reasm_refines_witness:
  "kok (reasm_run [over1, over3, over2, over1] (s_ip ip_host) ip_kern) (\<lambda>(rs, ip') k'.
    list_all2 (delivered (fold seen [over1, over3, over2, over1] (\<lambda>_. over_dgram) (0x0a000001, 0x0a000002, 7))) rs
      [False, False, True, False])"
proof -
  have d: "length (d_data over_dgram) = 24" by (simp add: over_dgram_def nums_def)
  show ?thesis
    using reasm_refines [of "\<lambda>_. over_dgram" "s_ip ip_host" ip_kern "[over1, over3, over2, over1]" "(0x0a000001, 0x0a000002, 7)"]
      over_arrivals [of "\<lambda>_. over_dgram"] over_deliver over_key unfolding d by (simp add: ginv_simps del: arrivals.simps fold_simps)
qed

text \<open>
  C6: Fragments of many datagrams may arrive interleaved, with queues that time out and queues that are dropped for
  want of a descriptor. As long as no fragment runs over the end of a first fragment of its datagram that arrived
  before it (\<open>arrivals\<close>), whatever \<^verbatim>\<open>ip4reassemble\<close> returns is a datagram that was sent, whole; the
  descriptors are all in one of the two lists, and no block leaks or is freed twice.
\<close>

theorem reasm_interleaved:
  assumes "ginv D (ip_flist ip)" "ip_flist ip \<noteq> [] \<or> ip_ffree ip \<noteq> []" "mem_avail k" "arrivals D xs"
  shows "kok (reasm_run xs ip k) (\<lambda>(rs, ip') k'. list_all2 (\<lambda>r x. r = [] \<or> whole (fold seen xs D (akey x)) r) rs xs \<and>
    ginv (fold seen xs D) (ip_flist ip') \<and> length (ip_flist ip') + length (ip_ffree ip') = length (ip_flist ip) + length (ip_ffree ip) \<and>
    acct k' (concat rs @ heldb (ip_flist ip')) = acct k (map (\<lambda>x. snd (snd x)) xs @ heldb (ip_flist ip)))"
proof (rule kok_pairE [OF reasm_run_all [OF assms]], elim conjE)
  fix rs ip' k'
  assume r: "reasm_run xs ip k = Inr ((rs, ip'), k')" "ginv (fold seen xs D) (ip_flist ip')" "list_all2 (\<lambda>r x. r = [] \<or> whole (fold seen xs D (akey x)) r) rs xs"
    "length (ip_flist ip') + length (ip_ffree ip') = length (ip_flist ip) + length (ip_ffree ip)"
    and a: "\<forall>cs. acct k' (cs @ concat rs @ heldb (ip_flist ip')) = acct k (cs @ map (\<lambda>x. snd (snd x)) xs @ heldb (ip_flist ip))"
  show ?thesis using r a [rule_format, of "[]"] by simp
qed

definition other1 :: "ulong \<times> ushort \<times> Block" where
  "other1 = (40000, 0x2000, ip_block (withcsum [0x45, 1, 0, 28, 0, 8, 0x20, 0, 64, 17, 0, 0, 10, 0, 0, 9, 10, 0, 0, 2] @ nums 0 8))"
definition other_dgram :: Dgram where
  "other_dgram = \<lparr>d_hdrs = {}, d_data = nums 0 64\<rparr>"

definition two_dgrams :: "Fkey \<Rightarrow> Dgram" where
  "two_dgrams \<kappa> = (if \<kappa> = (0x0a000001, 0x0a000002, 7) then over_dgram else other_dgram)"

lemma other_pkt: "okfrag other_dgram (fst (snd other1)) (snd (snd other1))" "akey other1 = (0x0a000009, 0x0a000002, 8)"
  "aoff other1 = 0"
  by code_simp+

lemma two_arrivals: "arrivals two_dgrams [over1, other1, over2]"
proof -
  have d: "length (d_data over_dgram) < 65536" "length (d_data other_dgram) < 65536" "d_hdrs over_dgram = {}" "d_hdrs other_dgram = {}"
    by (simp_all add: over_dgram_def other_dgram_def nums_def)
  have t: "two_dgrams (0x0a000001, 0x0a000002, 7) = over_dgram" "two_dgrams (0x0a000009, 0x0a000002, 8) = other_dgram"
    by (simp_all add: two_dgrams_def)
  note o = over_key over_place over_pkt other_pkt t d
  from o show ?thesis by (intro arrivals_short) (auto simp: seen_def)
qed

theorem reasm_interleaved_witness:
  "kok (reasm_run [over1, other1, over2] (s_ip ip_host) ip_kern) (\<lambda>(rs, ip') k'.
    list_all2 (\<lambda>r x. r = [] \<or> whole (fold seen [over1, other1, over2] two_dgrams (akey x)) r) rs [over1, other1, over2] \<and>
    length (ip_flist ip') + length (ip_ffree ip') = 2)"
proof -
  have n: "length (ip_flist (s_ip ip_host)) + length (ip_ffree (s_ip ip_host)) = 2"
    by (simp add: ip_host_def iprouting_def initfrag_def ip_zero_def)
  have "ginv two_dgrams (ip_flist (s_ip ip_host))" by (simp add: ginv_simps)
  then show ?thesis
    by (rule kok_mono [OF reasm_interleaved [OF _ _ _ two_arrivals]]) (use n in auto)
qed

text \<open>
  The exception of \<open>arrivals\<close> is needed: in this run a second fragment that runs over the end of the first leaves a
  datagram that is 8 bytes too long, with the overlap in it twice, because the assembly goes by the length in the header of the first
  fragment and not by the length that the trimming has set.
\<close>

lemma overlap_corrupts:
  "case reasm_run [(0, 0x2000, ip_block (pkthdr 1 36 0x20 0 @ nums 0 16)), (0, 1, ip_block (pkthdr 0 36 0 1 @ nums 8 24))]
      (s_ip ip_host) ip_kern of
     Inr ((rs, _), _) \<Rightarrow> map ccont rs = [[], bsplice 2 [0, 52] (pkthdr 1 36 0x20 0) @ nums 0 16 @ nums 8 24] | Inl _ \<Rightarrow> False"
  by code_simp

text \<open>
  C23: The header checksum of \<^verbatim>\<open>ipcsum\<close> is the internet checksum of the header, and a header with its
  checksum in place sums to zero, which is what \<^verbatim>\<open>ipiput4\<close> asks of it.
\<close>

theorem ipcsum_internet:
  assumes "hdrlen (h ! 0) = int (length h)" "20 \<le> length h"
  shows "ipcsum h = inet_csum h \<and> ipcsum (withcsum h) = 0"
  using ipcsum_inet [OF assms(1)] ipcsum_verify [OF assms(1)] assms(2) by (simp add: withcsum_def)

theorem ipcsum_internet_witness: "ipcsum (withcsum (0x46 # replicate 23 7)) = 0"
  using ipcsum_internet [of "0x46 # replicate 23 7"] by (simp add: hdrlen_def)

end
