(* ===== verification/Iphash.thy ===== *)
theory Iphash
  imports Prelude
begin

text \<open>
  The tables that find the conversation a packet belongs to, and the address helpers beside them
  (\<^verbatim>\<open>ip/ipaux.c\<close>). A hash cell holds a pointer to its conversation: the addresses and ports are
  those the conversation has when the cell is looked at, so the routines take the store \<open>s\<close> of
  conversations. In the hash, uchar and ushort operands are shifted and mixed as 32-bit unsigned
  numbers (the Plan 9 compiler keeps unsigned short operands unsigned).
\<close>

section \<open>Tables\<close>

record Cnv =
  c_laddr :: "byte list"
  c_raddr :: "byte list"
  c_lport :: ushort
  c_rport :: ushort

datatype ipmatch = IPmatchexact | IPmatchany | IPmatchport | IPmatchaddr | IPmatchpa

type_synonym ipht = "nat \<Rightarrow> (nat \<times> ipmatch) list"

definition IPaddrlen :: nat where "IPaddrlen = 16"
definition Nhash :: ulong where "Nhash = 64"

definition IPnoaddr :: "byte list" where "IPnoaddr = replicate IPaddrlen 0"

definition ipcmp :: "byte list \<Rightarrow> byte list \<Rightarrow> bool" where
  "ipcmp x y \<longleftrightarrow> x ! (IPaddrlen - 1) \<noteq> y ! (IPaddrlen - 1) \<or> take IPaddrlen x \<noteq> take IPaddrlen y"

definition iphash :: "byte list \<Rightarrow> ushort \<Rightarrow> byte list \<Rightarrow> ushort \<Rightarrow> nat" where
  "iphash sa sp da dp =
     unat ((push_bit 24 (ucast (sa ! (IPaddrlen - 1))) XOR push_bit 16 (ucast sp) XOR
            push_bit 8 (ucast (da ! (IPaddrlen - 1))) XOR ucast dp) mod Nhash)"

definition ipclass :: "Cnv \<Rightarrow> ipmatch" where
  "ipclass c =
     (if ipcmp (c_raddr c) IPnoaddr then IPmatchexact
      else if ipcmp (c_laddr c) IPnoaddr then (if c_lport c = 0 then IPmatchaddr else IPmatchpa)
      else if c_lport c = 0 then IPmatchany else IPmatchport)"

definition convhash :: "Cnv \<Rightarrow> nat" where
  "convhash c = iphash (c_raddr c) (c_rport c) (c_laddr c) (c_lport c)"

definition iphtadd :: "(nat \<Rightarrow> Cnv) \<Rightarrow> ipht \<Rightarrow> nat \<Rightarrow> ipht" where
  "iphtadd s ht c = (let hv = convhash (s c) in ht(hv := (c, ipclass (s c)) # ht hv))"

fun remcell :: "nat \<Rightarrow> (nat \<times> ipmatch) list \<Rightarrow> (nat \<times> ipmatch) list" where
  "remcell c [] = []"
| "remcell c (h # hs) = (if fst h = c then hs else h # remcell c hs)"

definition iphtrem :: "(nat \<Rightarrow> Cnv) \<Rightarrow> ipht \<Rightarrow> nat \<Rightarrow> ipht" where
  "iphtrem s ht c = (let hv = convhash (s c) in ht(hv := remcell c (ht hv)))"

text \<open>One of the five loops: the first cell of the class whose conversation passes the test.\<close>

fun lookcell :: "ipmatch \<Rightarrow> (nat \<Rightarrow> bool) \<Rightarrow> (nat \<times> ipmatch) list \<Rightarrow> nat option" where
  "lookcell m ok [] = None"
| "lookcell m ok ((c, m') # hs) = (if m' = m \<and> ok c then Some c else lookcell m ok hs)"

definition iphtlook :: "(nat \<Rightarrow> Cnv) \<Rightarrow> ipht \<Rightarrow> byte list \<Rightarrow> ushort \<Rightarrow> byte list \<Rightarrow> ushort \<Rightarrow> nat option" where
  "iphtlook s ht sa sp da dp =
     (case lookcell IPmatchexact (\<lambda>c. sp = c_rport (s c) \<and> dp = c_lport (s c) \<and> \<not> ipcmp sa (c_raddr (s c)) \<and> \<not> ipcmp da (c_laddr (s c)))
             (ht (iphash sa sp da dp)) of
        Some c \<Rightarrow> Some c
      | None \<Rightarrow>
     (case lookcell IPmatchpa (\<lambda>c. dp = c_lport (s c) \<and> \<not> ipcmp da (c_laddr (s c))) (ht (iphash IPnoaddr 0 da dp)) of
        Some c \<Rightarrow> Some c
      | None \<Rightarrow>
     (case lookcell IPmatchport (\<lambda>c. dp = c_lport (s c)) (ht (iphash IPnoaddr 0 IPnoaddr dp)) of
        Some c \<Rightarrow> Some c
      | None \<Rightarrow>
     (case lookcell IPmatchaddr (\<lambda>c. \<not> ipcmp da (c_laddr (s c))) (ht (iphash IPnoaddr 0 da 0)) of
        Some c \<Rightarrow> Some c
      | None \<Rightarrow> lookcell IPmatchany (\<lambda>c. True) (ht (iphash IPnoaddr 0 IPnoaddr 0))))))"

section \<open>The table as a set of conversations\<close>

text \<open>
  \<open>rep s ht M\<close>: the table holds exactly the conversations \<open>M\<close>, each once, in the bucket and
  with the class that its addresses and ports say. An announced conversation has no remote port.
\<close>

definition okcnv :: "Cnv \<Rightarrow> bool" where
  "okcnv c \<longleftrightarrow> length (c_laddr c) = IPaddrlen \<and> length (c_raddr c) = IPaddrlen \<and> (c_raddr c = IPnoaddr \<longrightarrow> c_rport c = 0)"

definition rep :: "(nat \<Rightarrow> Cnv) \<Rightarrow> ipht \<Rightarrow> nat set \<Rightarrow> bool" where
  "rep s ht M \<longleftrightarrow> (\<forall>c \<in> M. okcnv (s c)) \<and> (\<forall>hv. distinct (map fst (ht hv)) \<and>
     set (ht hv) = {(c, ipclass (s c)) | c. c \<in> M \<and> convhash (s c) = hv})"

lemma ipcmp_eq: "length x = IPaddrlen \<Longrightarrow> length y = IPaddrlen \<Longrightarrow> ipcmp x y \<longleftrightarrow> x \<noteq> y"
  by (auto simp: ipcmp_def)

lemma length_IPnoaddr [simp]: "length IPnoaddr = IPaddrlen"
  by (simp add: IPnoaddr_def)

lemma rep_member: "rep s ht M \<Longrightarrow> (c, m) \<in> set (ht hv) \<longleftrightarrow> c \<in> M \<and> m = ipclass (s c) \<and> convhash (s c) = hv"
  by (auto simp: rep_def)

lemma rep_empty: "rep s (\<lambda>_. []) {}"
  by (simp add: rep_def)

lemma iphtadd_ok:
  assumes "rep s ht M" "c \<notin> M" "okcnv (s c)"
  shows "rep s (iphtadd s ht c) (insert c M)"
  using assms by (auto simp: rep_def iphtadd_def Let_def image_iff)

lemma set_remcell: "distinct (map fst hs) \<Longrightarrow> set (remcell c hs) = {h \<in> set hs. fst h \<noteq> c} \<and> distinct (map fst (remcell c hs))"
proof (induction hs)
  case (Cons h hs)
  have "fst x \<noteq> c" if "fst h = c" "x \<in> set hs" for x using Cons.prems that by (auto simp: image_iff)
  then show ?case using Cons by auto
qed simp

lemma iphtrem_ok:
  assumes "rep s ht M"
  shows "rep s (iphtrem s ht c) (M - {c})"
proof -
  have "set (remcell c (ht hv)) = {h \<in> set (ht hv). fst h \<noteq> c}" "distinct (map fst (remcell c (ht hv)))" for hv
    using set_remcell [of "ht hv" c] assms by (auto simp: rep_def)
  then show ?thesis using assms by (auto simp: rep_def iphtrem_def Let_def)
qed

text \<open>The conversations that a packet may belong to, class by class.\<close>

fun accepts :: "ipmatch \<Rightarrow> Cnv \<Rightarrow> byte list \<Rightarrow> ushort \<Rightarrow> byte list \<Rightarrow> ushort \<Rightarrow> bool" where
  "accepts IPmatchexact c sa sp da dp \<longleftrightarrow> sa = c_raddr c \<and> sp = c_rport c \<and> da = c_laddr c \<and> dp = c_lport c"
| "accepts IPmatchpa c sa sp da dp \<longleftrightarrow> da = c_laddr c \<and> dp = c_lport c"
| "accepts IPmatchport c sa sp da dp \<longleftrightarrow> dp = c_lport c"
| "accepts IPmatchaddr c sa sp da dp \<longleftrightarrow> da = c_laddr c"
| "accepts IPmatchany c sa sp da dp \<longleftrightarrow> True"

definition takers :: "(nat \<Rightarrow> Cnv) \<Rightarrow> nat set \<Rightarrow> ipmatch \<Rightarrow> byte list \<Rightarrow> ushort \<Rightarrow> byte list \<Rightarrow> ushort \<Rightarrow> nat set" where
  "takers s M m sa sp da dp = {c \<in> M. ipclass (s c) = m \<and> accepts m (s c) sa sp da dp}"

definition precedence :: "ipmatch list" where
  "precedence = [IPmatchexact, IPmatchpa, IPmatchport, IPmatchaddr, IPmatchany]"

lemma lookcell_ok:
  assumes "rep s ht M" "\<And>c. c \<in> M \<Longrightarrow> ipclass (s c) = m \<Longrightarrow> ok c \<longleftrightarrow> accepts m (s c) sa sp da dp"
    "\<And>c. c \<in> takers s M m sa sp da dp \<Longrightarrow> convhash (s c) = hv"
  shows "case lookcell m ok (ht hv) of None \<Rightarrow> takers s M m sa sp da dp = {} | Some c \<Rightarrow> c \<in> takers s M m sa sp da dp"
proof -
  have l: "case lookcell m ok hs of None \<Rightarrow> (\<forall>c. (c, m) \<in> set hs \<longrightarrow> \<not> ok c) | Some c \<Rightarrow> (c, m) \<in> set hs \<and> ok c" for hs
    by (induction m ok hs rule: lookcell.induct) (auto split: option.splits)
  show ?thesis
    using l [of "ht hv"] rep_member [OF assms(1)] assms(2,3) by (auto simp: takers_def split: option.splits)
qed

lemma class_fields:
  assumes "okcnv c"
  shows "ipclass c = IPmatchexact \<longleftrightarrow> c_raddr c \<noteq> IPnoaddr"
    "ipclass c \<noteq> IPmatchexact \<Longrightarrow> c_raddr c = IPnoaddr \<and> c_rport c = 0"
    "ipclass c = IPmatchport \<or> ipclass c = IPmatchany \<Longrightarrow> c_laddr c = IPnoaddr"
    "ipclass c = IPmatchaddr \<or> ipclass c = IPmatchany \<Longrightarrow> c_lport c = 0"
  using assms by (auto simp: ipclass_def okcnv_def ipcmp_eq split: if_splits)

text \<open>The bucket that each loop searches holds all conversations that can take the packet in its class.\<close>

lemma taker_hash:
  assumes "rep s ht M" "c \<in> takers s M m sa sp da dp"
  shows "convhash (s c) = (case m of
      IPmatchexact \<Rightarrow> iphash sa sp da dp
    | IPmatchpa \<Rightarrow> iphash IPnoaddr 0 da dp
    | IPmatchport \<Rightarrow> iphash IPnoaddr 0 IPnoaddr dp
    | IPmatchaddr \<Rightarrow> iphash IPnoaddr 0 da 0
    | IPmatchany \<Rightarrow> iphash IPnoaddr 0 IPnoaddr 0)"
proof -
  have "okcnv (s c)" using assms by (auto simp: takers_def rep_def)
  then show ?thesis using assms(2) class_fields [of "s c"] by (cases m) (auto simp: takers_def convhash_def)
qed

lemma iphtlook_ok:
  assumes "rep s ht M" "length sa = IPaddrlen" "length da = IPaddrlen"
  shows "case iphtlook s ht sa sp da dp of
      None \<Rightarrow> \<forall>m. takers s M m sa sp da dp = {}
    | Some c \<Rightarrow> \<exists>i < length precedence. c \<in> takers s M (precedence ! i) sa sp da dp \<and>
        (\<forall>j < i. takers s M (precedence ! j) sa sp da dp = {})"
proof -
  have ok: "okcnv (s c)" if "c \<in> M" for c using assms(1) that by (simp add: rep_def)
  have eq: "ipcmp a (c_raddr (s c)) \<longleftrightarrow> a \<noteq> c_raddr (s c)" "ipcmp a (c_laddr (s c)) \<longleftrightarrow> a \<noteq> c_laddr (s c)"
    if "c \<in> M" "length a = IPaddrlen" for c a using ok [OF that(1)] that(2) by (simp_all add: okcnv_def ipcmp_eq)
  let ?T = "\<lambda>m. takers s M m sa sp da dp"
  have 1: "case lookcell IPmatchexact (\<lambda>c. sp = c_rport (s c) \<and> dp = c_lport (s c) \<and> \<not> ipcmp sa (c_raddr (s c)) \<and> \<not> ipcmp da (c_laddr (s c)))
      (ht (iphash sa sp da dp)) of None \<Rightarrow> ?T IPmatchexact = {} | Some c \<Rightarrow> c \<in> ?T IPmatchexact"
    using taker_hash [OF assms(1), of _ IPmatchexact sa sp da dp] by (intro lookcell_ok [OF assms(1)]) (auto simp: eq assms)
  have 2: "case lookcell IPmatchpa (\<lambda>c. dp = c_lport (s c) \<and> \<not> ipcmp da (c_laddr (s c))) (ht (iphash IPnoaddr 0 da dp)) of
      None \<Rightarrow> ?T IPmatchpa = {} | Some c \<Rightarrow> c \<in> ?T IPmatchpa"
    using taker_hash [OF assms(1), of _ IPmatchpa sa sp da dp] by (intro lookcell_ok [OF assms(1)]) (auto simp: eq assms)
  have 3: "case lookcell IPmatchport (\<lambda>c. dp = c_lport (s c)) (ht (iphash IPnoaddr 0 IPnoaddr dp)) of
      None \<Rightarrow> ?T IPmatchport = {} | Some c \<Rightarrow> c \<in> ?T IPmatchport"
    using taker_hash [OF assms(1), of _ IPmatchport sa sp da dp] by (intro lookcell_ok [OF assms(1)]) auto
  have 4: "case lookcell IPmatchaddr (\<lambda>c. \<not> ipcmp da (c_laddr (s c))) (ht (iphash IPnoaddr 0 da 0)) of
      None \<Rightarrow> ?T IPmatchaddr = {} | Some c \<Rightarrow> c \<in> ?T IPmatchaddr"
    using taker_hash [OF assms(1), of _ IPmatchaddr sa sp da dp] by (intro lookcell_ok [OF assms(1)]) (auto simp: eq assms)
  have 5: "case lookcell IPmatchany (\<lambda>c. True) (ht (iphash IPnoaddr 0 IPnoaddr 0)) of
      None \<Rightarrow> ?T IPmatchany = {} | Some c \<Rightarrow> c \<in> ?T IPmatchany"
    using taker_hash [OF assms(1), of _ IPmatchany sa sp da dp] by (intro lookcell_ok [OF assms(1)]) auto
  define f :: "ipmatch list \<Rightarrow> nat option \<Rightarrow> bool" where
    "f ms r \<longleftrightarrow> (case r of None \<Rightarrow> (\<forall>m \<in> set ms. ?T m = {}) | Some c \<Rightarrow> \<exists>i < length ms. c \<in> ?T (ms ! i) \<and> (\<forall>j < i. ?T (ms ! j) = {}))" for ms r
  have step: "f (m # ms) (case r1 of Some c \<Rightarrow> Some c | None \<Rightarrow> r2)"
    if "case r1 of None \<Rightarrow> ?T m = {} | Some c \<Rightarrow> c \<in> ?T m" "f ms r2" for m ms r1 r2
  proof (cases r1)
    case None
    note t1 = that(1) and r2 = that(2)
    show ?thesis
    proof (cases r2)
      case (Some c)
      then obtain i where "i < length ms" "c \<in> ?T (ms ! i)" "\<forall>j < i. ?T (ms ! j) = {}" using r2 by (auto simp: f_def)
      then have "Suc i < length (m # ms) \<and> c \<in> ?T ((m # ms) ! Suc i) \<and> (\<forall>j < Suc i. ?T ((m # ms) ! j) = {})"
        using None t1 by (auto simp: less_Suc_eq_0_disj)
      then show ?thesis using None Some unfolding f_def by auto
    qed (use None that in \<open>auto simp: f_def\<close>)
  qed (use that(1) in \<open>auto simp: f_def intro!: exI [of _ 0]\<close>)
  have last: "f [IPmatchany] (lookcell IPmatchany (\<lambda>c. True) (ht (iphash IPnoaddr 0 IPnoaddr 0)))"
    using 5 by (auto simp: f_def split: option.splits)
  have F: "f precedence (iphtlook s ht sa sp da dp)"
    unfolding precedence_def iphtlook_def by (intro step 1 2 3 4 last)
  have "set precedence = UNIV"
  proof -
    have "m \<in> set precedence" for m by (cases m) (simp_all add: precedence_def)
    then show ?thesis by blast
  qed
  then show ?thesis using F unfolding f_def by (simp split: option.splits)
qed


section \<open>Hardware and multicast addresses\<close>

text \<open>
  \<^verbatim>\<open>parsemac\<close> reads at most \<open>len\<close> pairs of characters, each followed by an optional colon, and
  returns their number; the rest of the address is zero. \<open>strtoul16\<close> is the value of
  \<^verbatim>\<open>strtoul\<close> in base 16 of the two characters.
\<close>

fun macloop :: "(char \<Rightarrow> char \<Rightarrow> ulong) \<Rightarrow> string \<Rightarrow> nat \<Rightarrow> byte list" where
  "macloop strtoul16 p 0 = []"
| "macloop strtoul16 (c0 # c1 # p) (Suc n) =
     ucast (strtoul16 c0 c1) # macloop strtoul16 (case p of c # q \<Rightarrow> if c = CHR '':'' then q else p | [] \<Rightarrow> p) n"
| "macloop strtoul16 p (Suc n) = []"

definition parsemac :: "(char \<Rightarrow> char \<Rightarrow> ulong) \<Rightarrow> string \<Rightarrow> nat \<Rightarrow> nat \<times> byte list" where
  "parsemac strtoul16 from len =
     (let to = macloop strtoul16 from len in (length to, to @ replicate (len - length to) 0))"

definition v6solicitednode :: "byte list" where
  "v6solicitednode = [0xff, 2, 0, 0, 0, 0, 0, 0, 0, 0, 0, 1, 0xff, 0, 0, 0]"

definition ipv62smcast :: "byte list \<Rightarrow> byte list" where
  "ipv62smcast a = v6solicitednode[13 := a ! 13, 14 := a ! 14, 15 := a ! 15]"

text \<open>The text of a hardware address, with or without colons.\<close>

fun macfmt :: "(byte \<Rightarrow> char \<times> char) \<Rightarrow> bool \<Rightarrow> byte list \<Rightarrow> string" where
  "macfmt hex colon [] = []"
| "macfmt hex colon [a] = (let (c0, c1) = hex a in [c0, c1])"
| "macfmt hex colon (a # as) = (let (c0, c1) = hex a in [c0, c1] @ (if colon then '':'' else []) @ macfmt hex colon as)"

lemma macfmt_Cons: "as \<noteq> [] \<Longrightarrow> macfmt hex colon (a # as) = fst (hex a) # snd (hex a) # (if colon then '':'' else []) @ macfmt hex colon as"
  by (cases as) (auto split: prod.splits)

lemma ucast_byte: "ucast (ucast (a::byte) :: ulong) = a"
  by (auto simp: bit_simps intro!: bit_word_eqI)

lemma macloop_fmt:
  assumes "\<And>a. strtoul16 (fst (hex a)) (snd (hex a)) = ucast a" "\<And>a. fst (hex a) \<noteq> CHR '':''" "length as \<le> n"
  shows "macloop strtoul16 (macfmt hex colon as) n = as"
  using assms(3)
proof (induction as arbitrary: n)
  case Nil
  then show ?case by (cases n) simp_all
next
  case (Cons a as)
  then obtain m where n: "n = Suc m" "length as \<le> m" by (cases n) auto
  show ?case
  proof (cases as)
    case Nil
    then show ?thesis using n assms(1) [of a] by (cases m) (simp_all add: case_prod_beta ucast_byte)
  next
    case (Cons b bs)
    then obtain r where r: "macfmt hex colon as = fst (hex b) # r" by (cases bs) (auto simp: case_prod_beta)
    then show ?thesis using n Cons Cons.IH [OF n(2)] assms(1) [of a] assms(2) [of b] macfmt_Cons [of as hex colon a]
      by (cases colon) (simp_all add: ucast_byte)
  qed
qed


section \<open>Properties\<close>

text \<open>A history of additions and removals; a conversation is added only when it is not in the table.\<close>

datatype htop = HAdd nat | HRem nat

fun runht :: "(nat \<Rightarrow> Cnv) \<Rightarrow> htop list \<Rightarrow> ipht \<Rightarrow> ipht" where
  "runht s [] ht = ht"
| "runht s (HAdd c # ops) ht = runht s ops (iphtadd s ht c)"
| "runht s (HRem c # ops) ht = runht s ops (iphtrem s ht c)"

fun members :: "htop list \<Rightarrow> nat set \<Rightarrow> nat set" where
  "members [] M = M"
| "members (HAdd c # ops) M = members ops (insert c M)"
| "members (HRem c # ops) M = members ops (M - {c})"

fun okops :: "(nat \<Rightarrow> Cnv) \<Rightarrow> htop list \<Rightarrow> nat set \<Rightarrow> bool" where
  "okops s [] M \<longleftrightarrow> True"
| "okops s (HAdd c # ops) M \<longleftrightarrow> c \<notin> M \<and> okcnv (s c) \<and> okops s ops (insert c M)"
| "okops s (HRem c # ops) M \<longleftrightarrow> okops s ops (M - {c})"

lemma runht_ok: "rep s ht M \<Longrightarrow> okops s ops M \<Longrightarrow> rep s (runht s ops ht) (members ops M)"
  by (induction s ops ht arbitrary: M rule: runht.induct) (simp_all add: iphtadd_ok iphtrem_ok)

definition peer :: "byte list" where "peer = [0, 0, 0, 0, 0, 0, 0, 0, 0, 0, 0xff, 0xff, 10, 0, 0, 2]"
definition self :: "byte list" where "self = [0, 0, 0, 0, 0, 0, 0, 0, 0, 0, 0xff, 0xff, 10, 0, 0, 1]"

definition sample_convs :: "nat \<Rightarrow> Cnv" where
  "sample_convs c = (if c = 0 then \<lparr>c_laddr = self, c_raddr = peer, c_lport = 80, c_rport = 5000\<rparr>
     else \<lparr>c_laddr = IPnoaddr, c_raddr = IPnoaddr, c_lport = 80, c_rport = 0\<rparr>)"

lemma sample_convs_ok: "okcnv (sample_convs c)" "length peer = IPaddrlen" "length self = IPaddrlen"
proof -
  show l: "length peer = IPaddrlen" "length self = IPaddrlen" by (simp_all add: self_def peer_def IPaddrlen_def)
  have "peer ! 15 \<noteq> IPnoaddr ! 15" by (simp add: peer_def IPnoaddr_def IPaddrlen_def)
  then have "peer \<noteq> IPnoaddr" by metis
  then show "okcnv (sample_convs c)" by (simp add: okcnv_def sample_convs_def l)
qed

text \<open>C24: After any history of additions and removals, a packet is given to a conversation of the table
  that takes it, of the first class in the order of precedence (connected; announced address and port;
  port; address; anything) that has one, and to none only if no conversation takes it. Only five
  buckets are searched.\<close>

theorem ipht_precedence:
  assumes "okops s ops {}" "length sa = IPaddrlen" "length da = IPaddrlen"
  shows "case iphtlook s (runht s ops (\<lambda>_. [])) sa sp da dp of
      None \<Rightarrow> \<forall>m. takers s (members ops {}) m sa sp da dp = {}
    | Some c \<Rightarrow> \<exists>i < length precedence. c \<in> takers s (members ops {}) (precedence ! i) sa sp da dp \<and>
        (\<forall>j < i. takers s (members ops {}) (precedence ! j) sa sp da dp = {})"
  using iphtlook_ok [OF runht_ok [OF rep_empty assms(1)] assms(2,3)] .

theorem ipht_precedence_witness:
  "case iphtlook sample_convs (runht sample_convs [HAdd 0, HAdd 1, HRem 0] (\<lambda>_. [])) peer 5000 self 80 of
      None \<Rightarrow> \<forall>m. takers sample_convs {1} m peer 5000 self 80 = {}
    | Some c \<Rightarrow> \<exists>i < length precedence. c \<in> takers sample_convs {1} (precedence ! i) peer 5000 self 80 \<and>
        (\<forall>j < i. takers sample_convs {1} (precedence ! j) peer 5000 self 80 = {})"
proof -
  have m: "members [HAdd 0, HAdd 1, HRem 0] {} = {1::nat}" by auto
  have "okops sample_convs [HAdd 0, HAdd 1, HRem 0] {}" using sample_convs_ok(1) by simp
  from ipht_precedence [OF this sample_convs_ok(2,3), of 5000 80] show ?thesis unfolding m .
qed

text \<open>A hardware address that is printed in hexadecimal, with or without colons, is read back;
  the result counts its bytes and the rest of the buffer is zero.\<close>

theorem parsemac_roundtrip:
  assumes "\<And>a. strtoul16 (fst (hex a)) (snd (hex a)) = ucast a" "\<And>a. fst (hex a) \<noteq> CHR '':''" "length mac \<le> len"
  shows "parsemac strtoul16 (macfmt hex colon mac) len = (length mac, mac @ replicate (len - length mac) 0)"
  using macloop_fmt [of strtoul16 hex mac len colon] assms by (simp add: parsemac_def)

definition hexdigit :: "nat \<Rightarrow> char" where "hexdigit n = ''0123456789abcdef'' ! n"
definition hexval :: "char \<Rightarrow> nat" where "hexval c = length (takeWhile (\<lambda>d. d \<noteq> c) ''0123456789abcdef'')"

lemma hexval_digit:
  assumes "n < 16"
  shows "hexval (hexdigit n) = n \<and> hexdigit n \<noteq> CHR '':''"
proof -
  have "\<forall>n \<in> set [0..<16]. hexval (hexdigit n) = n \<and> hexdigit n \<noteq> CHR '':''" by code_simp
  then show ?thesis using assms by simp
qed

theorem parsemac_roundtrip_witness:
  "parsemac (\<lambda>c d. of_nat (16 * hexval c + hexval d)) (macfmt (\<lambda>a. (hexdigit (unat a div 16), hexdigit (unat a mod 16))) True [0, 0x1b]) 6 =
     (2, [0, 0x1b, 0, 0, 0, 0])"
proof -
  have d: "unat (a::byte) div 16 < 16" for a using unsigned_less [of a, where ?'a = nat] by simp
  have v: "(of_nat (16 * hexval (hexdigit (unat a div 16)) + hexval (hexdigit (unat a mod 16))) :: ulong) = ucast a" for a :: byte
    using hexval_digit [OF d] hexval_digit [of "unat a mod 16"] by simp
  have c: "hexdigit (unat (a::byte) div 16) \<noteq> CHR '':''" for a using hexval_digit [OF d] by blast
  have r: "(length [0, 0x1b :: byte], [0, 0x1b] @ replicate (6 - length [0, 0x1b :: byte]) 0) = (2, [0, 0x1b, 0, 0, 0, 0 :: byte])"
  proof -
    have "replicate 4 (0 :: byte) = [0, 0, 0, 0]" by (simp add: numeral_eq_Suc)
    then show ?thesis by simp
  qed
  show ?thesis
    unfolding r [symmetric] 
    by (rule parsemac_roundtrip; (simp only: fst_conv snd_conv v c not_False_eq_True)?) simp
qed

end
