(* ===== verification/Fgrp.thy ===== *)
theory Fgrp
  imports Prelude
begin

text \<open>
  File descriptor groups: the table of a process group (\<^verbatim>\<open>port/sysfile.c\<close>, the Fgrp routines of
  \<^verbatim>\<open>port/pgrp.c\<close>, \<^verbatim>\<open>port/devdup.c\<close>), with the references of the channels it holds
  (\<^verbatim>\<open>cclose\<close>, \<^verbatim>\<open>ccloseq\<close> of \<^verbatim>\<open>port/chan.c\<close>, \<^verbatim>\<open>incref\<close> and \<^verbatim>\<open>decref\<close>).

  The state \<open>Fds\<close> holds the table of the current process, the channels, the channels whose last
  reference was dropped (closed by the caller or handed to the close processes), and a tape of the
  results of \<^verbatim>\<open>malloc\<close>. A routine returns \<open>Inl e\<close> when it raises the error \<open>e\<close>; the state
  it leaves is there in both cases.
\<close>

section \<open>State\<close>

datatype syserr = Ebadfd | Ebadusefd | Enofd | Ebadarg | Enomem

definition CMSG :: ushort where "CMSG = 2"
definition CFREE :: ushort where "CFREE = 0x10"

definition OREAD :: int where "OREAD = 0"
definition OWRITE :: int where "OWRITE = 1"
definition ORDWR :: int where "ORDWR = 2"
definition OEXEC :: int where "OEXEC = 3"
definition OTRUNC :: int where "OTRUNC = 16"
definition OCEXEC :: int where "OCEXEC = 32"
definition ORCLOSE :: int where "ORCLOSE = 64"
definition OBEHIND :: int where "OBEHIND = 0x2000"

definition DELTAFD :: nat where "DELTAFD = 20"

record Chan =
  ch_ref :: int
  ch_flag :: ushort
  ch_mode :: int

text \<open>\<^verbatim>\<open>nfd\<close> is the length of \<open>f_fd\<close>.\<close>

record Fgrp =
  f_ref :: int
  f_fd :: "nat option list"
  f_maxfd :: int
  f_exceed :: int

record Fds =
  d_f :: Fgrp
  d_chan :: "nat \<Rightarrow> Chan"
  d_closed :: "nat list"
  d_queued :: "nat list"
  d_mallocs :: "nat \<Rightarrow> bool"
  d_mnext :: nat

section \<open>Channels\<close>

definition cincref :: "nat \<Rightarrow> Fds \<Rightarrow> Fds" where
  "cincref c s = s\<lparr>d_chan := (d_chan s)(c := (d_chan s c)\<lparr>ch_ref := ch_ref (d_chan s c) + 1\<rparr>)\<rparr>"

text \<open>Dropping a reference; the last one frees the channel (\<^verbatim>\<open>caterm\<close> marks it).\<close>

definition cdecref :: "nat \<Rightarrow> Fds \<Rightarrow> (int, Fds) kres" where
  "cdecref c s =
     (if tst (ch_flag (d_chan s c)) CFREE then Inl (Panic ''cclose'')
      else let x = ch_ref (d_chan s c) - 1 in
        if x < 0 then Inl (Panic ''decref'')
        else Inr (x, s\<lparr>d_chan := (d_chan s)(c := (d_chan s c)\<lparr>ch_ref := x\<rparr>)\<rparr>))"

definition cclose :: "nat \<Rightarrow> Fds \<Rightarrow> (unit, Fds) kres" where
  "cclose c s = kbind (cdecref c s) (\<lambda>x s.
     if x \<noteq> 0 then Inr ((), s)
     else Inr ((), s\<lparr>d_closed := d_closed s @ [c], d_chan := (d_chan s)(c := (d_chan s c)\<lparr>ch_flag := CFREE\<rparr>)\<rparr>))"

text \<open>\<^verbatim>\<open>ccloseq\<close> leaves the last close to a kernel process.\<close>

definition ccloseq :: "nat \<Rightarrow> Fds \<Rightarrow> (unit, Fds) kres" where
  "ccloseq c s = kbind (cdecref c s) (\<lambda>x s.
     if x \<noteq> 0 then Inr ((), s) else Inr ((), s\<lparr>d_queued := d_queued s @ [c]\<rparr>))"

section \<open>The descriptor table\<close>

definition unlockfgrp :: "Fds \<Rightarrow> Fds" where
  "unlockfgrp s = s\<lparr>d_f := (d_f s)\<lparr>f_exceed := 0\<rparr>\<rparr>"

definition growfd :: "int \<Rightarrow> Fds \<Rightarrow> int \<times> Fds" where
  "growfd fd s =
     (let f = d_f s; nfd = int (length (f_fd f)) in
      if fd < nfd then (0, s)
      else if fd \<ge> nfd + int DELTAFD then (-1, s)
      else if nfd \<ge> 5000 then (-1, s)
      else
        let ok = d_mallocs s (d_mnext s); s = s\<lparr>d_mnext := Suc (d_mnext s)\<rparr> in
        if \<not> ok then (-1, s)
        else
          let f = f\<lparr>f_fd := f_fd f @ replicate DELTAFD None\<rparr>;
              f = (if fd > f_maxfd f then
                     (if fd div 100 > f_maxfd f div 100 then f\<lparr>f_exceed := fd div 100 * 100\<rparr> else f)\<lparr>f_maxfd := fd\<rparr>
                   else f)
          in (1, s\<lparr>d_f := f\<rparr>))"

function scanfd :: "nat option list \<Rightarrow> nat \<Rightarrow> nat" where
  "scanfd fds fd = (if fd < length fds \<and> fds ! fd \<noteq> None then scanfd fds (Suc fd) else fd)"
  by pat_completeness auto
termination by (relation "measure (\<lambda>(fds, fd). length fds - fd)") auto

declare scanfd.simps [simp del]

definition findfreefd :: "nat \<Rightarrow> Fds \<Rightarrow> int \<times> Fds" where
  "findfreefd start s =
     (let fd = scanfd (f_fd (d_f s)) start in
      if fd \<ge> length (f_fd (d_f s)) then
        (let (r, s) = growfd (int fd) s in if r < 0 then (-1, s) else (int fd, s))
      else (int fd, s))"

definition setfd :: "int \<Rightarrow> nat option \<Rightarrow> Fds \<Rightarrow> Fds" where
  "setfd fd c s = s\<lparr>d_f := (d_f s)\<lparr>f_fd := (f_fd (d_f s))[nat fd := c]\<rparr>\<rparr>"

definition raisemax :: "int \<Rightarrow> Fds \<Rightarrow> Fds" where
  "raisemax fd s = (if fd > f_maxfd (d_f s) then s\<lparr>d_f := (d_f s)\<lparr>f_maxfd := fd\<rparr>\<rparr> else s)"

definition newfd :: "nat \<Rightarrow> Fds \<Rightarrow> int \<times> Fds" where
  "newfd c s =
     (let (fd, s) = findfreefd 0 s in
      if fd < 0 then (-1, unlockfgrp s)
      else (fd, unlockfgrp (setfd fd (Some c) (raisemax fd s))))"

definition newfd2 :: "nat \<Rightarrow> nat \<Rightarrow> Fds \<Rightarrow> (int \<times> int) option \<times> Fds" where
  "newfd2 c0 c1 s =
     (let (fd0, s) = findfreefd 0 s in
      if fd0 < 0 then (None, unlockfgrp s)
      else let (fd1, s) = findfreefd (nat fd0 + 1) s in
        if fd1 < 0 then (None, unlockfgrp s)
        else (Some (fd0, fd1), unlockfgrp (setfd fd1 (Some c1) (setfd fd0 (Some c0) (raisemax fd1 s)))))"

definition fdtochan :: "int \<Rightarrow> int \<Rightarrow> bool \<Rightarrow> bool \<Rightarrow> Fds \<Rightarrow> (syserr + nat, Fds) kres" where
  "fdtochan fd mode chkmnt iref s =
     (case (if fd < 0 \<or> int (length (f_fd (d_f s))) \<le> fd then None else f_fd (d_f s) ! nat fd) of
        None \<Rightarrow> Inr (Inl Ebadfd, s)
      | Some c \<Rightarrow>
          let s = (if iref then cincref c s else s); ch = d_chan s c;
              bad = (if iref then kbind (cclose c s) (\<lambda>_ s. Inr (Inl Ebadusefd, s)) else Inr (Inl Ebadusefd, s)) in
          if chkmnt \<and> tst (ch_flag ch) CMSG then bad
          else if mode < 0 \<or> ch_mode ch = ORDWR then Inr (Inr c, s)
          else if mode AND OTRUNC \<noteq> 0 \<and> ch_mode ch = OREAD then bad
          else if mode AND NOT OTRUNC \<noteq> ch_mode ch then bad
          else Inr (Inr c, s))"

definition openmode :: "int \<Rightarrow> syserr + int" where
  "openmode omode =
     (let omode = omode AND NOT (OTRUNC OR OCEXEC OR ORCLOSE OR OBEHIND) in
      if omode > OEXEC then Inl Ebadarg else if omode = OEXEC then Inr OREAD else Inr omode)"

text \<open>The loop that lowers \<^verbatim>\<open>maxfd\<close>; it runs from \<open>i\<close> downwards.\<close>

fun lowermax :: "nat option list \<Rightarrow> nat \<Rightarrow> int \<Rightarrow> int" where
  "lowermax fds 0 m = m"
| "lowermax fds (Suc i) m = (if fds ! i = None then lowermax fds i (int i) else m)"

definition fdclose :: "int \<Rightarrow> ushort \<Rightarrow> Fds \<Rightarrow> (unit, Fds) kres" where
  "fdclose fd flag s =
     (if fd < 0 \<or> int (length (f_fd (d_f s))) \<le> fd then Inl Fault
      else case f_fd (d_f s) ! nat fd of
        None \<Rightarrow> Inr ((), s)
      | Some c \<Rightarrow>
          if flag \<noteq> 0 \<and> \<not> tst (ch_flag (d_chan s c)) flag then Inr ((), s)
          else
            let s = setfd fd None s; f = d_f s;
                s = (if fd = f_maxfd f then s\<lparr>d_f := f\<lparr>f_maxfd := lowermax (f_fd f) (nat fd) (f_maxfd f)\<rparr>\<rparr> else s)
            in cclose c s)"

definition sysclose :: "int \<Rightarrow> Fds \<Rightarrow> (syserr + unit, Fds) kres" where
  "sysclose fd s = kbind (fdtochan fd (-1) False False s) (\<lambda>r s.
     case r of Inl e \<Rightarrow> Inr (Inl e, s) | Inr _ \<Rightarrow> kbind (fdclose fd 0 s) (\<lambda>_ s. Inr (Inr (), s)))"

definition sysdup :: "int \<Rightarrow> int \<Rightarrow> Fds \<Rightarrow> (syserr + int, Fds) kres" where
  "sysdup ofd nfd s = kbind (fdtochan ofd (-1) False True s) (\<lambda>r s.
     case r of
       Inl e \<Rightarrow> Inr (Inl e, s)
     | Inr oc \<Rightarrow>
         if nfd \<noteq> -1 then
           let (g, s) = (if nfd < 0 then (-1, s) else growfd nfd s) in
           if g < 0 then kbind (cclose oc (unlockfgrp s)) (\<lambda>_ s. Inr (Inl Ebadfd, s))
           else
             let s = raisemax nfd s; nc = f_fd (d_f s) ! nat nfd; s = unlockfgrp (setfd nfd (Some oc) s) in
             case nc of
               None \<Rightarrow> Inr (Inr nfd, s)
             | Some c \<Rightarrow> kbind (cclose c s) (\<lambda>_ s. Inr (Inr nfd, s))
         else
           let (nfd, s) = newfd oc s in
           if nfd < 0 then kbind (cclose oc s) (\<lambda>_ s. Inr (Inl Enofd, s)) else Inr (Inr nfd, s))"

section \<open>Whole groups\<close>

text \<open>\<^verbatim>\<open>dupfgrp\<close>: the copy, and the references it adds; None for the group a first process gets.\<close>

fun dupfds :: "nat option list \<Rightarrow> Fds \<Rightarrow> Fds" where
  "dupfds [] s = s"
| "dupfds (None # fds) s = dupfds fds s"
| "dupfds (Some c # fds) s = dupfds fds (cincref c s)"

definition dupfgrp :: "Fgrp option \<Rightarrow> Fds \<Rightarrow> (syserr + Fgrp) \<times> Fds" where
  "dupfgrp fo s = (case fo of
       None \<Rightarrow> (Inr \<lparr>f_ref = 1, f_fd = replicate DELTAFD None, f_maxfd = 0, f_exceed = 0\<rparr>, s)
     | Some f \<Rightarrow>
         let n = nat (f_maxfd f + 1); i = n mod DELTAFD; nfd = (if i \<noteq> 0 then n + (DELTAFD - i) else n);
             ok = d_mallocs s (d_mnext s); s = s\<lparr>d_mnext := Suc (d_mnext s)\<rparr> in
         if \<not> ok then (Inl Enomem, s)
         else (Inr \<lparr>f_ref = 1, f_fd = take n (f_fd f) @ replicate (nfd - n) None, f_maxfd = f_maxfd f, f_exceed = 0\<rparr>,
               dupfds (take n (f_fd f)) s))"

fun closefds :: "(nat \<Rightarrow> Fds \<Rightarrow> (unit, Fds) kres) \<Rightarrow> nat list \<Rightarrow> Fds \<Rightarrow> (unit, Fds) kres" where
  "closefds close [] s = Inr ((), s)"
| "closefds close (i # is) s = (case f_fd (d_f s) ! i of
       None \<Rightarrow> closefds close is s
     | Some c \<Rightarrow> kbind (close c (setfd (int i) None s)) (\<lambda>_ s. closefds close is s))"

text \<open>
  \<^verbatim>\<open>closefgrp\<close> and \<^verbatim>\<open>forceclosefgrp\<close> on the group of the current process; the second acts only
  if the process was told to exit (\<open>exitme\<close>) while it closes its group (\<open>closing\<close>).
\<close>

definition closefgrp :: "Fds \<Rightarrow> (unit, Fds) kres" where
  "closefgrp s =
     (let x = f_ref (d_f s) - 1; s = s\<lparr>d_f := (d_f s)\<lparr>f_ref := x\<rparr>\<rparr> in
      if x < 0 then Inl (Panic ''decref'')
      else if x \<noteq> 0 then Inr ((), s)
      else closefds cclose [0..<nat (f_maxfd (d_f s) + 1)] s)"

definition forceclosefgrp :: "bool \<Rightarrow> bool \<Rightarrow> Fds \<Rightarrow> (unit, Fds) kres" where
  "forceclosefgrp exitme closing s =
     (if \<not> exitme \<or> \<not> closing then Inr ((), s)
      else closefds ccloseq [0..<nat (f_maxfd (d_f s) + 1)] s)"


section \<open>The table as a map with counted references\<close>

definition fdmap :: "Fgrp \<Rightarrow> int \<Rightarrow> nat option" where
  "fdmap f i = (if 0 \<le> i \<and> i < int (length (f_fd f)) then f_fd f ! nat i else None)"

definition hold :: "(int \<Rightarrow> nat option) \<Rightarrow> nat \<Rightarrow> nat" where
  "hold m c = card {i. m i = Some c}"

text \<open>No descriptor above \<^verbatim>\<open>maxfd\<close> is in use.\<close>

definition wff :: "Fgrp \<Rightarrow> bool" where
  "wff f \<longleftrightarrow> 0 \<le> f_maxfd f \<and> f_maxfd f < int (length (f_fd f)) \<and> length (f_fd f) mod DELTAFD = 0 \<and>
     (\<forall>i > f_maxfd f. fdmap f i = None)"

text \<open>
  \<open>fdrel x s m\<close>: the table is the map \<open>m\<close>, and the reference count of each channel is the number of
  descriptors that name it plus the references \<open>x\<close> held elsewhere; a referenced channel is not free.
\<close>

definition fdrel :: "(nat \<Rightarrow> int) \<Rightarrow> Fds \<Rightarrow> (int \<Rightarrow> nat option) \<Rightarrow> bool" where
  "fdrel x s m \<longleftrightarrow> wff (d_f s) \<and> fdmap (d_f s) = m \<and>
     (\<forall>c. ch_ref (d_chan s c) = int (hold m c) + x c \<and> 0 \<le> x c \<and>
          (0 < ch_ref (d_chan s c) \<longrightarrow> \<not> tst (ch_flag (d_chan s c)) CFREE))"

lemma fdrel_ref: "fdrel x s m \<Longrightarrow> ch_ref (d_chan s c) = int (hold m c) + x c" "fdrel x s m \<Longrightarrow> 0 \<le> x c"
  by (simp_all add: fdrel_def)

lemma fdrel_nonneg: "fdrel x s m \<Longrightarrow> 0 \<le> ch_ref (d_chan s c)"
  using fdrel_ref [of x s m c] by linarith

lemma fdmap_finite: "finite {i. fdmap f i = Some c}"
proof -
  have "{i. fdmap f i = Some c} \<subseteq> {0..<int (length (f_fd f))}" by (auto simp: fdmap_def split: if_splits)
  then show ?thesis by (rule finite_subset) simp
qed

lemma hold_upd:
  assumes "finite {i. m i = Some c}"
  shows "int (hold (m(fd := v)) c) = int (hold m c) - (if m fd = Some c then 1 else 0) + (if v = Some c then 1 else 0)"
proof -
  let ?A = "{i. m i = Some c} - {fd}"
  have "{i. (m(fd := v)) i = Some c} = (if v = Some c then insert fd ?A else ?A)" by auto
  moreover have "card ?A = card {i. m i = Some c} - (if m fd = Some c then 1 else 0)" using assms by simp
  moreover have "0 < card {i. m i = Some c}" if "m fd = Some c" using that assms by (auto simp: card_gt_0_iff)
  ultimately show ?thesis using assms by (auto simp: hold_def card_insert_if)
qed

lemma fdmap_setfd:
  "0 \<le> fd \<Longrightarrow> fd < int (length (f_fd (d_f s))) \<Longrightarrow> fdmap (d_f (setfd fd v s)) = (fdmap (d_f s))(fd := v)"
  by (auto simp: fdmap_def setfd_def fun_eq_iff nth_list_update)

lemma fdmap_cong: "f_fd f = f_fd g \<Longrightarrow> fdmap f = fdmap g"
  by (simp add: fdmap_def fun_eq_iff)

text \<open>What does not touch the channels: only the table and the allocator change.\<close>

definition quiet :: "Fds \<Rightarrow> Fds \<Rightarrow> bool" where
  "quiet s s' \<longleftrightarrow> d_chan s' = d_chan s \<and> d_closed s' = d_closed s \<and> d_queued s' = d_queued s \<and> f_ref (d_f s') = f_ref (d_f s)"

lemma quiet_refl [simp]: "quiet s s" by (simp add: quiet_def)

lemma quiet_trans: "quiet s t \<Longrightarrow> quiet t u \<Longrightarrow> quiet s u" by (simp add: quiet_def)

lemma growfd_ok:
  assumes "wff (d_f s)" "0 \<le> fd" "growfd fd s = (r, s')"
  shows "wff (d_f s') \<and> fdmap (d_f s') = fdmap (d_f s) \<and> quiet s s' \<and> length (f_fd (d_f s)) \<le> length (f_fd (d_f s')) \<and>
    (if r < 0 then f_fd (d_f s') = f_fd (d_f s) \<and> int (length (f_fd (d_f s))) \<le> fd \<and>
        (int (length (f_fd (d_f s))) + int DELTAFD \<le> fd \<or> length (f_fd (d_f s)) \<ge> 5000 \<or> \<not> d_mallocs s (d_mnext s))
     else fd < int (length (f_fd (d_f s'))))"
proof -
  have ext: "fdmap g = fdmap f" if "f_fd g = f_fd f @ replicate DELTAFD None" for f g :: Fgrp
    using that by (auto simp: fdmap_def fun_eq_iff nth_append)
  let ?n = "int (length (f_fd (d_f s)))"
  consider "fd < ?n" | "?n \<le> fd" "r < 0" | "?n \<le> fd" "\<not> r < 0" by linarith
  then show ?thesis
  proof cases
    case 3
    have b: "fd < ?n + int DELTAFD" using assms(3) 3 by (auto simp: growfd_def Let_def split: if_splits)
    have e: "f_fd (d_f s') = f_fd (d_f s) @ replicate DELTAFD None" "f_maxfd (d_f s') = fd" "quiet s s'"
      using assms 3 by (auto simp: growfd_def Let_def quiet_def wff_def split: if_splits)
    have m: "fdmap (d_f s') = fdmap (d_f s)" by (rule ext [OF e(1)])
    then have "wff (d_f s')" using assms(1,2) b 3 by (auto simp: wff_def e DELTAFD_def)
    then show ?thesis using m e b 3 by simp
  qed (use assms in \<open>auto simp: growfd_def Let_def quiet_def wff_def fdmap_def split: if_splits\<close>)
qed

lemma scanfd_ok:
  assumes "start \<le> length fds"
  shows "start \<le> scanfd fds start \<and> scanfd fds start \<le> length fds \<and> (\<forall>i. start \<le> i \<and> i < scanfd fds start \<longrightarrow> fds ! i \<noteq> None) \<and>
    (scanfd fds start < length fds \<longrightarrow> fds ! scanfd fds start = None)"
  using assms
proof (induction fds start rule: scanfd.induct)
  case (1 fds fd)
  show ?case
  proof (cases "fd < length fds \<and> fds ! fd \<noteq> None")
    case True
    then have "scanfd fds fd = scanfd fds (Suc fd)" by (simp add: scanfd.simps [of fds fd])
    moreover have "fds ! i \<noteq> None" if "fd \<le> i" "i < scanfd fds (Suc fd)" for i
      using 1 True that by (cases "i = fd") auto
    ultimately show ?thesis using 1 True by auto
  next
    case False
    then show ?thesis using 1(2) by (auto simp: scanfd.simps [of fds fd])
  qed
qed

lemma findfreefd_ok:
  assumes "wff (d_f s)" "start \<le> length (f_fd (d_f s))" "findfreefd start s = (fd, s')"
  shows "wff (d_f s') \<and> fdmap (d_f s') = fdmap (d_f s) \<and> quiet s s' \<and> length (f_fd (d_f s)) \<le> length (f_fd (d_f s')) \<and>
    (\<forall>i. int start \<le> i \<and> i < (if fd < 0 then int (length (f_fd (d_f s))) else fd) \<longrightarrow> fdmap (d_f s) i \<noteq> None) \<and>
    (if fd < 0 then length (f_fd (d_f s)) \<ge> 5000 \<or> \<not> d_mallocs s (d_mnext s)
     else int start \<le> fd \<and> fd < int (length (f_fd (d_f s'))) \<and> fdmap (d_f s) fd = None)"
proof -
  let ?fds = "f_fd (d_f s)" and ?k = "scanfd (f_fd (d_f s)) start"
  note sc = scanfd_ok [OF assms(2)]
  have used: "fdmap (d_f s) i \<noteq> None" if "int start \<le> i" "i < int ?k" for i
  proof -
    have "0 \<le> i" using that(1) by linarith
    then obtain j where "i = int j" using zero_le_imp_eq_int by blast
    then show ?thesis using sc that by (simp add: fdmap_def)
  qed
  show ?thesis
  proof (cases "?k < length ?fds")
    case True
    then have "fd = int ?k" "s' = s" using assms(3) by (auto simp: findfreefd_def Let_def)
    then show ?thesis using assms(1) sc True used by (auto simp: fdmap_def)
  next
    case False
    then have k: "?k = length ?fds" using sc by simp
    obtain r t where g: "growfd (int ?k) s = (r, t)" by fastforce
    have e: "s' = t" "fd = (if r < 0 then -1 else int ?k)" using assms(3) False g by (auto simp: findfreefd_def Let_def split: if_splits)
    note gr = growfd_ok [OF assms(1) _ g, simplified]
    have "fdmap (d_f s) (int ?k) = None" by (simp add: fdmap_def k)
    then show ?thesis using gr used k sc unfolding e by (auto simp: DELTAFD_def split: if_splits)
  qed
qed


lemma fdrel_quiet:
  assumes "fdrel x s m" "wff (d_f s')" "fdmap (d_f s') = fdmap (d_f s)" "d_chan s' = d_chan s"
  shows "fdrel x s' m"
  using assms by (simp add: fdrel_def)

lemma fdrel_set:
  assumes "fdrel x s m" "0 \<le> fd" "fd < int (length (f_fd (d_f s)))" "v \<noteq> None \<Longrightarrow> fd \<le> f_maxfd (d_f s)"
    "\<And>c. v = Some c \<Longrightarrow> 0 < x c"
  shows "fdrel (\<lambda>c. x c + (if m fd = Some c then 1 else 0) - (if v = Some c then 1 else 0)) (setfd fd v s) (m(fd := v))"
proof -
  have w: "wff (d_f s)" and m: "m = fdmap (d_f s)"
    and r: "\<And>c. ch_ref (d_chan s c) = int (hold m c) + x c \<and> 0 \<le> x c \<and> (0 < ch_ref (d_chan s c) \<longrightarrow> \<not> tst (ch_flag (d_chan s c)) CFREE)"
    using assms(1) by (auto simp: fdrel_def)
  have m': "fdmap (d_f (setfd fd v s)) = m(fd := v)" using fdmap_setfd [OF assms(2,3), of v] m by simp
  have "wff (d_f (setfd fd v s))"
    unfolding wff_def m' using w m assms(4) by (cases v) (auto simp: wff_def setfd_def)
  moreover have "int (hold (m(fd := v)) c) = int (hold m c) - (if m fd = Some c then 1 else 0) + (if v = Some c then 1 else 0)" for c
    unfolding m by (rule hold_upd [OF fdmap_finite])
  moreover have "d_chan (setfd fd v s) = d_chan s" by (simp add: setfd_def)
  ultimately show ?thesis using m' r assms(5) unfolding fdrel_def by (auto simp: int_one_le_iff_zero_less [symmetric] add_increasing2)
qed

lemma hold_pos: "fdmap f fd = Some c \<Longrightarrow> 0 < hold (fdmap f) c"
  using fdmap_finite [of f c] by (auto simp: hold_def card_gt_0_iff)

lemma cclose_ok:
  assumes "fdrel x s m" "0 < x c"
  shows "\<exists>s'. cclose c s = Inr ((), s') \<and> fdrel (x(c := x c - 1)) s' m \<and> d_f s' = d_f s \<and> d_queued s' = d_queued s \<and>
    d_closed s' = d_closed s @ (if ch_ref (d_chan s c) = 1 then [c] else [])"
proof -
  have r: "ch_ref (d_chan s c) = int (hold m c) + x c" "\<not> tst (ch_flag (d_chan s c)) CFREE"
    using assms by (auto simp: fdrel_def)
  have ge: "0 \<le> ch_ref (d_chan s c) - 1" using r(1) assms(2) by linarith
  show ?thesis using assms r ge by (auto simp: cclose_def cdecref_def Let_def fdrel_def)
qed

text \<open>The form the callers use: one reference more than the rest is dropped.\<close>

lemma cclose_extra:
  assumes "fdrel (x(c := x c + 1)) s m" "0 \<le> x c"
  shows "\<exists>s'. cclose c s = Inr ((), s') \<and> fdrel x s' m \<and> d_f s' = d_f s \<and> d_queued s' = d_queued s \<and>
    d_closed s' = d_closed s @ (if ch_ref (d_chan s c) = 1 then [c] else [])"
proof -
  have "0 < (x(c := x c + 1)) c" "(x(c := x c + 1))(c := (x(c := x c + 1)) c - 1) = x" using assms(2) by simp_all
  then show ?thesis using cclose_ok [OF assms(1), of c] by metis
qed

lemma ccloseq_ok:
  assumes "fdrel x s m" "0 < x c"
  shows "\<exists>s'. ccloseq c s = Inr ((), s') \<and> fdrel (x(c := x c - 1)) s' m \<and> d_f s' = d_f s \<and> d_closed s' = d_closed s \<and>
    d_queued s' = d_queued s @ (if ch_ref (d_chan s c) = 1 then [c] else [])"
proof -
  have r: "ch_ref (d_chan s c) = int (hold m c) + x c" "\<not> tst (ch_flag (d_chan s c)) CFREE"
    using assms by (auto simp: fdrel_def)
  have ge: "0 \<le> ch_ref (d_chan s c) - 1" using r(1) assms(2) by linarith
  show ?thesis using assms r ge by (auto simp: ccloseq_def cdecref_def Let_def fdrel_def)
qed

lemma cincref_ok:
  assumes "fdrel x s m" "m fd = Some c"
  shows "fdrel (x(c := x c + 1)) (cincref c s) m \<and> d_f (cincref c s) = d_f s"
proof -
  have "0 < hold m c" using hold_pos [of "d_f s" fd c] assms by (simp add: fdrel_def)
  moreover have "ch_ref (d_chan s c) = int (hold m c) + x c" "0 \<le> x c" using assms(1) by (auto simp: fdrel_def)
  ultimately have "0 < ch_ref (d_chan s c)" by linarith
  then have "\<not> tst (ch_flag (d_chan s c)) CFREE" using assms(1) unfolding fdrel_def by blast
  then show ?thesis using assms(1) by (auto simp: fdrel_def cincref_def)
qed

lemma quiet_steps [simp]: "quiet s (unlockfgrp t) = quiet s t" "quiet s (setfd fd v t) = quiet s t" "quiet s (raisemax fd t) = quiet s t"
  by (simp_all add: quiet_def unlockfgrp_def setfd_def raisemax_def)

lemma unlock_ok: "fdrel x s m \<Longrightarrow> fdrel x (unlockfgrp s) m" "d_f (unlockfgrp s) = (d_f s)\<lparr>f_exceed := 0\<rparr>"
  by (auto simp: fdrel_def unlockfgrp_def wff_def fdmap_def)

lemma raisemax_ok:
  assumes "fdrel x s m" "fd < int (length (f_fd (d_f s)))"
  shows "fdrel x (raisemax fd s) m \<and> f_fd (d_f (raisemax fd s)) = f_fd (d_f s) \<and> fd \<le> f_maxfd (d_f (raisemax fd s))"
proof -
  have f: "f_fd (d_f (raisemax fd s)) = f_fd (d_f s)" by (simp add: raisemax_def)
  then have m: "fdmap (d_f (raisemax fd s)) = fdmap (d_f s)" by (rule fdmap_cong)
  have mx: "f_maxfd (d_f (raisemax fd s)) = max fd (f_maxfd (d_f s))" by (simp add: raisemax_def)
  have "wff (d_f (raisemax fd s))" using assms unfolding wff_def fdrel_def f m mx by (auto simp: max_def)
  then have "fdrel x (raisemax fd s) m" by (rule fdrel_quiet [OF assms(1) _ m]) (simp add: raisemax_def)
  then show ?thesis using f mx by simp
qed

text \<open>Putting a channel in a free slot, as the routines that return a descriptor do.\<close>

lemma place_ok:
  assumes "fdrel x s m" "0 \<le> fd" "fd < int (length (f_fd (d_f s)))" "m fd = None" "0 < x c"
  shows "fdrel (x(c := x c - 1)) (setfd fd (Some c) (raisemax fd s)) (m(fd \<mapsto> c))"
proof -
  note r = raisemax_ok [OF assms(1,3)]
  have "fdrel (\<lambda>d. x d + (if m fd = Some d then 1 else 0) - (if Some c = Some d then 1 else 0)) (setfd fd (Some c) (raisemax fd s)) (m(fd \<mapsto> c))"
    using r assms by (intro fdrel_set) auto
  moreover have "(\<lambda>d. x d + (if m fd = Some d then 1 else 0) - (if Some c = Some d then 1 else 0)) = x(c := x c - 1)"
    using assms(4) by (auto simp: fun_eq_iff)
  ultimately show ?thesis by simp
qed

definition least_free :: "(int \<Rightarrow> nat option) \<Rightarrow> int \<Rightarrow> int \<Rightarrow> bool" where
  "least_free m start fd \<longleftrightarrow> start \<le> fd \<and> m fd = None \<and> (\<forall>i. start \<le> i \<and> i < fd \<longrightarrow> m i \<noteq> None)"

lemma newfd_ok:
  assumes "fdrel x s m" "0 < x c" "newfd c s = (fd, s')"
  shows "fd = -1 \<and> fdrel x s' m \<and> quiet s s' \<and> (length (f_fd (d_f s)) \<ge> 5000 \<or> \<not> d_mallocs s (d_mnext s)) \<or>
    least_free m 0 fd \<and> fdrel (x(c := x c - 1)) s' (m(fd \<mapsto> c)) \<and> quiet s s'"
proof -
  obtain k t where f: "findfreefd 0 s = (k, t)" by fastforce
  have w: "wff (d_f s)" "fdmap (d_f s) = m" using assms(1) by (simp_all add: fdrel_def)
  note ff = findfreefd_ok [OF w(1) _ f, simplified, unfolded w(2)]
  have t: "fdrel x t m" "quiet s t" using fdrel_quiet [OF assms(1)] ff w by (auto simp: quiet_def)
  show ?thesis
  proof (cases "k < 0")
    case True
    then have "fd = -1" "s' = unlockfgrp t" using assms(3) f by (auto simp: newfd_def)
    then show ?thesis using ff True t unlock_ok(1) by auto
  next
    case False
    then have e: "fd = k" "s' = unlockfgrp (setfd k (Some c) (raisemax k t))" using assms(3) f by (auto simp: newfd_def)
    have "fdrel (x(c := x c - 1)) (setfd k (Some c) (raisemax k t)) (m(k \<mapsto> c))"
      using ff False assms(2) by (intro place_ok t(1)) auto
    from unlock_ok(1) [OF this] show ?thesis using ff False t(2) unfolding e least_free_def by simp
  qed
qed


lemma newfd2_ok:
  assumes "fdrel x s m" "0 < x c0" "0 < x c1" "c0 = c1 \<Longrightarrow> 1 < x c0" "newfd2 c0 c1 s = (r, s')"
  shows "quiet s s' \<and> (case r of
      None \<Rightarrow> fdrel x s' m
    | Some (fd0, fd1) \<Rightarrow> least_free m 0 fd0 \<and> least_free m (fd0 + 1) fd1 \<and>
        fdrel ((x(c0 := x c0 - 1))(c1 := (x(c0 := x c0 - 1)) c1 - 1)) s' (m(fd0 \<mapsto> c0, fd1 \<mapsto> c1)))"
proof -
  have w: "wff (d_f s)" "fdmap (d_f s) = m" using assms(1) by (simp_all add: fdrel_def)
  obtain k t where f: "findfreefd 0 s = (k, t)" by fastforce
  note ff = findfreefd_ok [OF w(1) _ f, simplified, unfolded w(2)]
  have t: "fdrel x t m" "quiet s t" using fdrel_quiet [OF assms(1)] ff w by (auto simp: quiet_def)
  have wt: "wff (d_f t)" "fdmap (d_f t) = m" using t(1) by (simp_all add: fdrel_def)
  show ?thesis
  proof (cases "k < 0")
    case True
    then have "r = None" "s' = unlockfgrp t" using assms(5) f by (auto simp: newfd2_def)
    then show ?thesis using t unlock_ok(1) by auto
  next
    case False
    obtain l u where g: "findfreefd (nat k + 1) t = (l, u)" by fastforce
    have "nat k + 1 \<le> length (f_fd (d_f t))" using ff False by auto
    note gg = findfreefd_ok [OF wt(1) this g, unfolded wt(2)]
    have u: "fdrel x u m" "quiet s u" using fdrel_quiet [OF t(1)] quiet_trans [OF t(2)] gg wt by (auto simp: quiet_def)
    show ?thesis
    proof (cases "l < 0")
      case True
      then have "r = None" "s' = unlockfgrp u" using assms(5) f g False by (auto simp: newfd2_def)
      then show ?thesis using u unlock_ok(1) by auto
    next
      case l: False
      have e: "r = Some (k, l)" "s' = unlockfgrp (setfd l (Some c1) (setfd k (Some c0) (raisemax l u)))"
        using assms(5) f g False l by (auto simp: newfd2_def)
      note rm = raisemax_ok [OF u(1), of l]
      have kl: "k < l" "l < int (length (f_fd (d_f u)))" "m k = None" "m l = None" using ff gg False l by auto
      have a: "fdrel (\<lambda>d. x d + (if m k = Some d then 1 else 0) - (if Some c0 = Some d then 1 else 0))
          (setfd k (Some c0) (raisemax l u)) (m(k \<mapsto> c0))"
        using rm kl False assms(2) by (intro fdrel_set) auto
      have b: "(\<lambda>d. x d + (if m k = Some d then 1 else 0) - (if Some c0 = Some d then 1 else 0)) = x(c0 := x c0 - 1)"
        using kl(3) by (auto simp: fun_eq_iff)
      have raise: "raisemax l (setfd k (Some c0) (raisemax l u)) = setfd k (Some c0) (raisemax l u)"
        using rm kl by (simp add: raisemax_def setfd_def)
      have "fdrel ((x(c0 := x c0 - 1))(c1 := (x(c0 := x c0 - 1)) c1 - 1))
          (setfd l (Some c1) (raisemax l (setfd k (Some c0) (raisemax l u)))) (m(k \<mapsto> c0, l \<mapsto> c1))"
        using kl False l assms(3,4) a unfolding b by (intro place_ok) (auto simp: setfd_def raisemax_def)
      from unlock_ok(1) [OF this] show ?thesis
        using ff gg False l u(2) unfolding e raise least_free_def by simp
    qed
  qed
qed

text \<open>Whether \<^verbatim>\<open>fdtochan\<close> accepts a channel for the use asked for.\<close>

definition usable :: "int \<Rightarrow> bool \<Rightarrow> Chan \<Rightarrow> bool" where
  "usable mode chkmnt ch \<longleftrightarrow> \<not> (chkmnt \<and> tst (ch_flag ch) CMSG) \<and>
     (mode < 0 \<or> ch_mode ch = ORDWR \<or>
      \<not> (mode AND OTRUNC \<noteq> 0 \<and> ch_mode ch = OREAD) \<and> mode AND NOT OTRUNC = ch_mode ch)"

lemma fdrel_look:
  assumes "fdrel x s m"
  shows "(if fd < 0 \<or> int (length (f_fd (d_f s))) \<le> fd then None else f_fd (d_f s) ! nat fd) = m fd"
proof -
  have "m fd = fdmap (d_f s) fd" using assms by (simp add: fdrel_def)
  then show ?thesis by (simp add: fdmap_def)
qed

lemma fdtochan_ok:
  assumes "fdrel x s m"
  shows "case m fd of
      None \<Rightarrow> fdtochan fd mode chkmnt iref s = Inr (Inl Ebadfd, s)
    | Some c \<Rightarrow>
        if usable mode chkmnt (d_chan s c) then
          fdtochan fd mode chkmnt iref s = Inr (Inr c, if iref then cincref c s else s) \<and>
          fdrel (if iref then x(c := x c + 1) else x) (if iref then cincref c s else s) m
        else \<exists>s'. fdtochan fd mode chkmnt iref s = Inr (Inl Ebadusefd, s') \<and> fdrel x s' m \<and>
          d_f s' = d_f s \<and> d_closed s' = d_closed s"
proof -
  have look: "(if fd < 0 \<or> int (length (f_fd (d_f s))) \<le> fd then None else f_fd (d_f s) ! nat fd) = m fd"
    by (rule fdrel_look [OF assms])
  show ?thesis
  proof (cases "m fd")
    case None
    then show ?thesis unfolding fdtochan_def look by simp
  next
    case (Some c)
    note inc = cincref_ok [OF assms Some]
    have ch: "ch_flag (d_chan (cincref c s) c) = ch_flag (d_chan s c)" "ch_mode (d_chan (cincref c s) c) = ch_mode (d_chan s c)"
      by (simp_all add: cincref_def)
    have same: "d_closed (cincref c s) = d_closed s" "ch_ref (d_chan (cincref c s) c) = ch_ref (d_chan s c) + 1"
      by (simp_all add: cincref_def)
    have "m = fdmap (d_f s)" using assms by (simp add: fdrel_def)
    then have "0 < ch_ref (d_chan s c)" using assms Some hold_pos [of "d_f s" fd c] by (simp add: fdrel_def add_pos_nonneg)
    moreover have "0 \<le> x c" using assms by (simp add: fdrel_def)
    ultimately obtain s' where cl: "cclose c (cincref c s) = Inr ((), s')" "fdrel x s' m" "d_f s' = d_f s" "d_closed s' = d_closed s"
      using cclose_extra [OF inc [THEN conjunct1]] inc same by auto
    have "fdtochan fd mode chkmnt iref s =
        (if usable mode chkmnt (d_chan s c) then Inr (Inr c, if iref then cincref c s else s)
         else Inr (Inl Ebadusefd, if iref then s' else s))"
      unfolding fdtochan_def look Some by (simp add: Let_def usable_def ch cl)
    then show ?thesis using Some inc assms cl by simp
  qed
qed


lemma lowermax_ok:
  "lowermax fds i (int i) \<le> int i \<and> 0 \<le> lowermax fds i (int i) \<and> (\<forall>j. lowermax fds i (int i) \<le> int j \<and> j < i \<longrightarrow> fds ! j = None)"
proof (induction i)
  case (Suc i)
  show ?case
  proof (cases "fds ! i = None")
    case True
    then have "lowermax fds (Suc i) (int (Suc i)) = lowermax fds i (int i)" by simp
    then show ?thesis using Suc True by (auto simp: less_Suc_eq)
  qed auto
qed simp

lemma lower_wff:
  assumes "wff f" "f_maxfd f = fd" "fdmap f fd = None"
  shows "wff (f\<lparr>f_maxfd := lowermax (f_fd f) (nat fd) fd\<rparr>)"
proof -
  have fd: "0 \<le> fd" "fd < int (length (f_fd f))" using assms by (auto simp: wff_def)
  let ?k = "lowermax (f_fd f) (nat fd) fd" and ?g = "f\<lparr>f_maxfd := lowermax (f_fd f) (nat fd) fd\<rparr>"
  have k: "?k \<le> fd" "0 \<le> ?k" "\<forall>j. ?k \<le> int j \<and> j < nat fd \<longrightarrow> f_fd f ! j = None"
    using lowermax_ok [of "f_fd f" "nat fd"] fd by auto
  have m: "fdmap ?g = fdmap f" by (rule fdmap_cong) simp
  have "fdmap f i = None" if "?k < i" for i
  proof (cases "i < fd")
    case True
    then have "f_fd f ! nat i = None" using k that by (auto intro: k(3) [rule_format])
    then show ?thesis by (simp add: fdmap_def)
  next
    case False
    then show ?thesis using assms by (cases "i = fd") (auto simp: wff_def)
  qed
  then show ?thesis using assms(1) k fd unfolding wff_def m by simp
qed

lemma fdclose_ok:
  assumes "fdrel x s m" "m fd = Some c" "flag = 0 \<or> tst (ch_flag (d_chan s c)) flag"
  shows "\<exists>s'. fdclose fd flag s = Inr ((), s') \<and> fdrel x s' (m(fd := None)) \<and>
    d_closed s' = d_closed s @ (if ch_ref (d_chan s c) = 1 then [c] else []) \<and> d_queued s' = d_queued s"
proof -
  have m: "m = fdmap (d_f s)" using assms(1) by (simp add: fdrel_def)
  have fd: "0 \<le> fd" "fd < int (length (f_fd (d_f s)))" "f_fd (d_f s) ! nat fd = Some c"
    using assms(2) unfolding m by (auto simp: fdmap_def split: if_splits)
  define t where "t = setfd fd None s"
  define u where "u = (if fd = f_maxfd (d_f t) then t\<lparr>d_f := (d_f t)\<lparr>f_maxfd := lowermax (f_fd (d_f t)) (nat fd) (f_maxfd (d_f t))\<rparr>\<rparr> else t)"
  have "fdrel (\<lambda>d. x d + (if m fd = Some d then 1 else 0) - (if None = Some d then 1 else 0)) t (m(fd := None))"
    unfolding t_def by (rule fdrel_set [OF assms(1) fd(1,2)]) auto
  moreover have "(\<lambda>d. x d + (if m fd = Some d then 1 else 0) - (if None = Some d then 1 else 0)) = x(c := x c + 1)"
    using assms(2) by (auto simp: fun_eq_iff)
  ultimately have t: "fdrel (x(c := x c + 1)) t (m(fd := None))" by simp
  then have mt: "fdmap (d_f t) fd = None" and wt: "wff (d_f t)" by (auto simp: fdrel_def)
  have "wff (d_f u)" using lower_wff [OF wt _ mt] wt unfolding u_def by auto
  then have u: "fdrel (x(c := x c + 1)) u (m(fd := None))"
    by (rule fdrel_quiet [OF t]) (auto simp: u_def fdmap_def)
  have x: "0 \<le> x c" using assms(1) by (simp add: fdrel_def)
  have same: "d_chan u = d_chan s" "d_closed u = d_closed s" "d_queued u = d_queued s" by (simp_all add: u_def t_def setfd_def)
  have "fdclose fd flag s = cclose c u"
    using fd assms(3) by (auto simp: fdclose_def Let_def t_def [symmetric] u_def [symmetric])
  then show ?thesis using cclose_extra [OF u x] same by auto
qed

lemma sysclose_ok:
  assumes "fdrel x s m"
  shows "case m fd of
      None \<Rightarrow> sysclose fd s = Inr (Inl Ebadfd, s)
    | Some c \<Rightarrow> \<exists>s'. sysclose fd s = Inr (Inr (), s') \<and> fdrel x s' (m(fd := None)) \<and>
        d_closed s' = d_closed s @ (if ch_ref (d_chan s c) = 1 then [c] else [])"
proof (cases "m fd")
  case None
  then show ?thesis using fdtochan_ok [OF assms, of fd "-1" False False] by (simp add: sysclose_def)
next
  case (Some c)
  then have "fdtochan fd (-1) False False s = Inr (Inr c, s)"
    using fdtochan_ok [OF assms, of fd "-1" False False] by (simp add: usable_def)
  then show ?thesis using fdclose_ok [OF assms Some, of 0] Some by (auto simp: sysclose_def)
qed

text \<open>\<^verbatim>\<open>dup\<close> onto a given descriptor.\<close>

lemma dup_onto_ok:
  assumes "fdrel x s m" "0 \<le> n" "n < int (length (f_fd (d_f s)))" "0 < x c"
  shows "fdrel (\<lambda>d. (x(c := x c - 1)) d + (if m n = Some d then 1 else 0)) (unlockfgrp (setfd n (Some c) (raisemax n s))) (m(n \<mapsto> c))"
proof -
  note r = raisemax_ok [OF assms(1,3)]
  have "fdrel (\<lambda>d. x d + (if m n = Some d then 1 else 0) - (if Some c = Some d then 1 else 0)) (setfd n (Some c) (raisemax n s)) (m(n \<mapsto> c))"
    using r assms by (intro fdrel_set) auto
  moreover have "(\<lambda>d. x d + (if m n = Some d then 1 else 0) - (if Some c = Some d then 1 else 0)) =
      (\<lambda>d. (x(c := x c - 1)) d + (if m n = Some d then 1 else 0))" by (auto simp: fun_eq_iff)
  ultimately show ?thesis using unlock_ok(1) by simp
qed


definition closes :: "Fds \<Rightarrow> nat \<Rightarrow> nat option \<Rightarrow> nat list" where
  "closes s c old = (case old of None \<Rightarrow> [] | Some d \<Rightarrow> if d \<noteq> c \<and> ch_ref (d_chan s d) = 1 then [d] else [])"

lemma sysdup_onto_ok:
  assumes "fdrel x s m" "m ofd = Some c" "nfd \<noteq> -1"
  shows "\<exists>s'. sysdup ofd nfd s = Inr (Inl Ebadfd, s') \<and> fdrel x s' m \<and> d_closed s' = d_closed s \<and>
      (nfd < 0 \<or> int (length (f_fd (d_f s))) \<le> nfd) \<or>
    sysdup ofd nfd s = Inr (Inr nfd, s') \<and> 0 \<le> nfd \<and> fdrel x s' (m(nfd \<mapsto> c)) \<and>
      d_closed s' = d_closed s @ closes s c (m nfd)"
proof -
  define s1 where "s1 = cincref c s"
  let ?x = "x(c := x c + 1)"
  have f: "fdtochan ofd (-1) False True s = Inr (Inr c, s1)" and r1: "fdrel ?x s1 m"
    using fdtochan_ok [OF assms(1), of ofd "-1" False True] assms(2) by (simp_all add: usable_def s1_def)
  have refs: "ch_ref (d_chan s1 d) = ch_ref (d_chan s d) + (if d = c then 1 else 0)" for d by (simp add: s1_def cincref_def)
  have s1: "d_closed s1 = d_closed s" "d_f s1 = d_f s" by (simp_all add: s1_def cincref_def)
  have x0: "0 \<le> x d" for d using assms(1) by (simp add: fdrel_def)
  have "m = fdmap (d_f s)" using assms(1) by (simp add: fdrel_def)
  then have pos: "0 < ch_ref (d_chan s d)" if "m i = Some d" for i d
    using that hold_pos [of "d_f s" i d] assms(1) by (simp add: fdrel_def add_pos_nonneg)
  define g where "g = (if nfd < 0 then (-1, s1) else growfd nfd s1)"
  obtain r s2 where g2: "g = (r, s2)" by fastforce
  have w1: "wff (d_f s1)" using r1 by (simp add: fdrel_def)
  have gr: "wff (d_f s2) \<and> fdmap (d_f s2) = fdmap (d_f s1) \<and> quiet s1 s2 \<and>
      (if r < 0 then nfd < 0 \<or> int (length (f_fd (d_f s))) \<le> nfd else 0 \<le> nfd \<and> nfd < int (length (f_fd (d_f s2))))"
    using growfd_ok [OF w1, of nfd r s2] g2 w1 s1 by (auto simp: g_def split: if_splits)
  then have r2: "fdrel ?x s2 m" using fdrel_quiet [OF r1] by (simp add: quiet_def)
  have same: "d_chan s2 = d_chan s1" "d_closed s2 = d_closed s" using gr s1 by (simp_all add: quiet_def)
  show ?thesis
  proof (cases "r < 0")
    case True
    have "sysdup ofd nfd s = kbind (cclose c (unlockfgrp s2)) (\<lambda>_ s. Inr (Inl Ebadfd, s))"
      using f g2 True assms(3) by (simp add: sysdup_def g_def [symmetric])
    moreover note cclose_extra [OF unlock_ok(1) [OF r2] x0]
    moreover have "ch_ref (d_chan (unlockfgrp s2) c) \<noteq> 1" using refs [of c] pos [OF assms(2)] same by (simp add: unlockfgrp_def)
    ultimately show ?thesis using gr True same by (auto simp: unlockfgrp_def)
  next
    case False
    define u where "u = unlockfgrp (setfd nfd (Some c) (raisemax nfd s2))"
    have n: "0 \<le> nfd" "nfd < int (length (f_fd (d_f s2)))" using gr False by auto
    have ru: "fdrel (\<lambda>d. x d + (if m nfd = Some d then 1 else 0)) u (m(nfd \<mapsto> c))"
      using dup_onto_ok [OF r2 n, of c] x0 [of c] by (simp add: u_def)
    have u: "d_chan u = d_chan s1" "d_closed u = d_closed s" by (simp_all add: u_def unlockfgrp_def setfd_def raisemax_def same)
    have old: "f_fd (d_f (raisemax nfd s2)) ! nat nfd = m nfd"
      using raisemax_ok [OF r2 n(2)] fdrel_look [OF r2, of nfd] n by simp
    have e: "sysdup ofd nfd s = (case m nfd of None \<Rightarrow> Inr (Inr nfd, u) | Some d \<Rightarrow> kbind (cclose d u) (\<lambda>_ s. Inr (Inr nfd, s)))"
      using f g2 False assms(3) unfolding u_def by (simp add: sysdup_def g_def [symmetric] Let_def old)
    show ?thesis
    proof (cases "m nfd")
      case None
      then show ?thesis using e ru u n by (auto simp: closes_def)
    next
      case (Some d)
      have x': "(\<lambda>e. x e + (if m nfd = Some e then 1 else 0)) = x(d := x d + 1)" using Some by (auto simp: fun_eq_iff)
      have "ch_ref (d_chan u d) = 1 \<longleftrightarrow> d \<noteq> c \<and> ch_ref (d_chan s d) = 1" using refs [of d] pos [OF Some] u by auto
      then show ?thesis using cclose_extra [OF ru [unfolded x'] x0] e Some u n by (auto simp: closes_def)
    qed
  qed
qed

lemma sysdup_new_ok:
  assumes "fdrel x s m" "m ofd = Some c"
  shows "\<exists>s'. sysdup ofd (-1) s = Inr (Inl Enofd, s') \<and> fdrel x s' m \<and> d_closed s' = d_closed s \<or>
    (\<exists>fd. sysdup ofd (-1) s = Inr (Inr fd, s') \<and> least_free m 0 fd \<and> fdrel x s' (m(fd \<mapsto> c)) \<and> d_closed s' = d_closed s)"
proof -
  define s1 where "s1 = cincref c s"
  let ?x = "x(c := x c + 1)"
  have f: "fdtochan ofd (-1) False True s = Inr (Inr c, s1)" and r1: "fdrel ?x s1 m"
    using fdtochan_ok [OF assms(1), of ofd "-1" False True] assms(2) by (simp_all add: usable_def s1_def)
  have x1: "0 \<le> x c" using assms(1) by (simp add: fdrel_def)
  then have x0: "0 < ?x c" by simp
  have m: "m = fdmap (d_f s)" using assms(1) by (simp add: fdrel_def)
  have "0 < ch_ref (d_chan s c)" using hold_pos [of "d_f s" ofd c] assms unfolding m by (simp add: fdrel_def add_pos_nonneg)
  then have ref: "ch_ref (d_chan s1 c) \<noteq> 1" "d_closed s1 = d_closed s" by (simp_all add: s1_def cincref_def)
  obtain fd t where n: "newfd c s1 = (fd, t)" by fastforce
  from newfd_ok [OF r1 x0 n] show ?thesis
  proof
    assume "fd = - 1 \<and> fdrel ?x t m \<and> quiet s1 t \<and> (5000 \<le> length (f_fd (d_f s1)) \<or> \<not> d_mallocs s1 (d_mnext s1))"
    then show ?thesis using cclose_extra [of x c t m] x1 f n ref by (auto simp: sysdup_def quiet_def)
  next
    assume a: "least_free m 0 fd \<and> fdrel (?x(c := ?x c - 1)) t (m(fd \<mapsto> c)) \<and> quiet s1 t"
    then have "\<not> fd < 0" by (simp add: least_free_def)
    then show ?thesis using a f n ref by (auto simp: sysdup_def quiet_def)
  qed
qed


section \<open>Copying and closing a whole group\<close>

lemma hold_count: "hold (fdmap f) c = length (filter ((=) (Some c)) (f_fd f))"
proof -
  have "{i. fdmap f i = Some c} = int ` {i. i < length (f_fd f) \<and> Some c = f_fd f ! i}"
  proof (intro set_eqI iffI)
    fix i assume "i \<in> {i. fdmap f i = Some c}"
    then show "i \<in> int ` {i. i < length (f_fd f) \<and> Some c = f_fd f ! i}"
      by (intro image_eqI [of _ _ "nat i"]) (auto simp: fdmap_def split: if_splits)
  qed (auto simp: fdmap_def)
  then show ?thesis by (simp add: hold_def card_image length_filter_conv_card)
qed

lemma dupfds_ok:
  "d_f (dupfds fds s) = d_f s \<and> ch_flag (d_chan (dupfds fds s) c) = ch_flag (d_chan s c) \<and>
   ch_ref (d_chan (dupfds fds s) c) = ch_ref (d_chan s c) + int (length (filter ((=) (Some c)) fds)) \<and>
   d_closed (dupfds fds s) = d_closed s"
  by (induction fds s rule: dupfds.induct) (auto simp: cincref_def)

lemma wff_take:
  assumes "wff f" and n: "n = nat (f_maxfd f + 1)"
  shows "n \<le> length (f_fd f)" "0 < n" "filter ((=) (Some c)) (take n (f_fd f)) = filter ((=) (Some c)) (f_fd f)"
    "n \<le> i \<Longrightarrow> i < length (f_fd f) \<Longrightarrow> f_fd f ! i = None"
proof -
  show le: "n \<le> length (f_fd f)" "0 < n" using assms by (auto simp: wff_def)
  show none: "f_fd f ! i = None" if "n \<le> i" "i < length (f_fd f)" for i
  proof -
    have "fdmap f (int i) = None" using assms that by (auto simp: wff_def)
    then show ?thesis using that by (simp add: fdmap_def)
  qed
  have "filter ((=) (Some c)) (drop n (f_fd f)) = []" using none by (auto simp: filter_empty_conv in_set_conv_nth)
  then show "filter ((=) (Some c)) (take n (f_fd f)) = filter ((=) (Some c)) (f_fd f)"
    by (metis append_Nil2 append_take_drop_id filter_append)
qed

lemma round_up:
  fixes n :: nat
  defines "k \<equiv> (if n mod DELTAFD \<noteq> 0 then n + (DELTAFD - n mod DELTAFD) else n)"
  shows "n \<le> k" "k mod DELTAFD = 0" "n \<le> l \<Longrightarrow> l mod DELTAFD = 0 \<Longrightarrow> k \<le> l"
proof -
  have d: "n = 20 * (n div 20) + n mod 20" "n mod 20 < 20" by simp_all
  have k: "k = (if n mod 20 \<noteq> 0 then 20 * (n div 20 + 1) else n)" 
  proof (cases "n mod 20 = 0")
    case False
    define q r where "q = n div 20" and "r = n mod 20"
    have "n = 20 * q + r" "r < 20" by (simp_all add: q_def r_def)
    then have "n + (20 - r) = 20 * (q + 1)" by simp
    then have "n + (20 - n mod 20) = 20 * (n div 20 + 1)" by (simp only: q_def r_def)
    then show ?thesis using False by (simp add: k_def DELTAFD_def)
  qed (simp add: k_def DELTAFD_def)
  show "n \<le> k" by (simp add: k_def)
  show "k mod DELTAFD = 0" using k by (auto simp: DELTAFD_def)
  show "k \<le> l" if l: "n \<le> l" "l mod DELTAFD = 0"
  proof (cases "n mod 20 = 0")
    case False
    obtain q where q: "l = 20 * q" using l(2) by (auto simp: DELTAFD_def)
    then have "n div 20 < q" using l(1) d False by linarith
    then show ?thesis using k q False by simp
  qed (use k l in simp)
qed

lemma dupfgrp_ok:
  assumes "fdrel x s m" "dupfgrp (Some (d_f s)) s = (r, s')"
  shows "d_f s' = d_f s \<and> d_closed s' = d_closed s \<and>
    (r = Inl Enomem \<and> \<not> d_mallocs s (d_mnext s) \<and> fdrel x s' m \<or>
     (\<exists>g. r = Inr g \<and> wff g \<and> fdmap g = m \<and> f_ref g = 1 \<and> length (f_fd g) \<le> length (f_fd (d_f s)) \<and>
       fdrel (\<lambda>c. x c + int (hold m c)) s' m))"
proof (cases "d_mallocs s (d_mnext s)")
  case False
  then show ?thesis using assms by (auto simp: dupfgrp_def Let_def fdrel_def)
next
  case True
  have w: "wff (d_f s)" and m: "m = fdmap (d_f s)" using assms(1) by (auto simp: fdrel_def)
  define n where "n = nat (f_maxfd (d_f s) + 1)"
  define k where "k = (if n mod DELTAFD \<noteq> 0 then n + (DELTAFD - n mod DELTAFD) else n)"
  note tk = wff_take [OF w n_def] and ru = round_up [of n, folded k_def]
  define g where "g = \<lparr>f_ref = 1, f_fd = take n (f_fd (d_f s)) @ replicate (k - n) None, f_maxfd = f_maxfd (d_f s), f_exceed = 0\<rparr>"
  let ?t = "s\<lparr>d_mnext := Suc (d_mnext s)\<rparr>"
  have e: "r = Inr g" "s' = dupfds (take n (f_fd (d_f s))) ?t"
    using assms(2) True by (auto simp: dupfgrp_def Let_def g_def n_def [symmetric] k_def)
  have kl: "k \<le> length (f_fd (d_f s))" using ru(3) tk(1) w by (simp add: wff_def)
  have mg: "fdmap g = m"
    using tk kl ru(1) by (auto simp: m fdmap_def g_def fun_eq_iff nth_append min_def)
  have "wff g" using w mg m ru tk by (auto simp: wff_def g_def n_def min_def)
  moreover have "fdrel (\<lambda>c. x c + int (hold m c)) s' m"
    unfolding fdrel_def
  proof (intro conjI allI)
    fix c
    have r: "ch_ref (d_chan s c) = int (hold m c) + x c" "0 \<le> x c" "0 < ch_ref (d_chan s c) \<longrightarrow> \<not> tst (ch_flag (d_chan s c)) CFREE"
      using assms(1) by (auto simp: fdrel_def)
    have s': "ch_ref (d_chan s' c) = ch_ref (d_chan s c) + int (hold m c)" "ch_flag (d_chan s' c) = ch_flag (d_chan s c)"
      unfolding e(2) by (simp_all add: dupfds_ok tk(3) m hold_count)
    show "ch_ref (d_chan s' c) = int (hold m c) + (x c + int (hold m c))" "0 \<le> x c + int (hold m c)" using r s' by simp_all
    show "0 < ch_ref (d_chan s' c) \<longrightarrow> \<not> tst (ch_flag (d_chan s' c)) CFREE" using r s' by auto
  qed (use w m in \<open>simp_all add: e(2) dupfds_ok\<close>)
  ultimately show ?thesis using e mg kl ru(1) tk(1) by (auto simp: dupfds_ok g_def)
qed

locale closing =
  fixes close :: "nat \<Rightarrow> Fds \<Rightarrow> (unit, Fds) kres" and log :: "Fds \<Rightarrow> nat list"
  assumes close_ok: "fdrel x s m \<Longrightarrow> 0 < x c \<Longrightarrow> \<exists>s'. close c s = Inr ((), s') \<and> fdrel (x(c := x c - 1)) s' m \<and>
      d_f s' = d_f s \<and> log s' = log s @ (if ch_ref (d_chan s c) = 1 then [c] else [])"
    and log_set: "log (setfd i v s) = log s"
begin

lemma close_step:
  assumes "fdrel x s m" "i < length (f_fd (d_f s))" "m (int i) = Some c"
  obtains u where "close c (setfd (int i) None s) = Inr ((), u)" "fdrel x u (m(int i := None))"
    "length (f_fd (d_f u)) = length (f_fd (d_f s))" "log u = log s @ (if ch_ref (d_chan s c) = 1 then [c] else [])"
    "\<And>d. ch_ref (d_chan u d) = ch_ref (d_chan s d) - (if d = c then 1 else 0)"
proof -
  let ?x = "x(c := x c + 1)"
  define t where "t = setfd (int i) None s"
  have "fdrel (\<lambda>d. x d + (if m (int i) = Some d then 1 else 0) - (if None = Some d then 1 else 0)) t (m(int i := None))"
    unfolding t_def using assms(1,2) by (intro fdrel_set) auto
  moreover have "(\<lambda>d. x d + (if m (int i) = Some d then 1 else 0) - (if None = Some d then 1 else 0)) = ?x"
    using assms(3) by (auto simp: fun_eq_iff)
  ultimately have t: "fdrel ?x t (m(int i := None))" by simp
  have x: "0 < ?x c" "?x(c := ?x c - 1) = x" using fdrel_ref(2) [OF assms(1), of c] by simp_all
  have ts: "d_chan t = d_chan s" "length (f_fd (d_f t)) = length (f_fd (d_f s))" by (simp_all add: t_def setfd_def)
  have lt: "log t = log s" by (simp add: t_def log_set)
  obtain u where u: "close c t = Inr ((), u)" "fdrel x u (m(int i := None))" "d_f u = d_f t"
      "log u = log s @ (if ch_ref (d_chan s c) = 1 then [c] else [])"
    using close_ok [OF t x(1), unfolded x(2) lt ts(1)] by (elim exE conjE) (rule that)
  have "ch_ref (d_chan u d) = ch_ref (d_chan s d) - (if d = c then 1 else 0)" for d
    using fdrel_ref(1) [OF u(2), of d] fdrel_ref(1) [OF t, of d] ts(1) by simp
  then show ?thesis using that u ts(2) unfolding t_def by simp
qed

lemma closefds_ok:
  assumes "fdrel x s m" "\<forall>i \<in> set is. i < length (f_fd (d_f s))"
  shows "\<exists>s' cs. closefds close is s = Inr ((), s') \<and> fdrel x s' (\<lambda>i. if i \<in> int ` set is then None else m i) \<and>
    log s' = log s @ cs \<and> distinct cs \<and> (\<forall>c. ch_ref (d_chan s' c) \<le> ch_ref (d_chan s c)) \<and>
    set cs = {c. 0 < ch_ref (d_chan s c) \<and> ch_ref (d_chan s' c) = 0}"
  using assms
proof (induction "is" arbitrary: s m)
  case Nil
  then show ?case by auto
next
  case (Cons i "is")
  have look: "f_fd (d_f s) ! i = m (int i)" using fdrel_look [OF Cons.prems(1), of "int i"] Cons.prems(2) by simp
  show ?case
  proof (cases "m (int i)")
    case None
    then have eq: "(\<lambda>j. if j \<in> int ` set (i # is) then None else m j) = (\<lambda>j. if j \<in> int ` set is then None else m j)" by auto
    show ?thesis using Cons.IH [OF Cons.prems(1)] Cons.prems(2) None look unfolding eq by simp
  next
    case (Some c)
    have "i < length (f_fd (d_f s))" using Cons.prems(2) by simp
    from close_step [OF Cons.prems(1) this Some] obtain u where u: "close c (setfd (int i) None s) = Inr ((), u)" "fdrel x u (m(int i := None))"
      "length (f_fd (d_f u)) = length (f_fd (d_f s))" "log u = log s @ (if ch_ref (d_chan s c) = 1 then [c] else [])"
      and ref: "\<And>d. ch_ref (d_chan u d) = ch_ref (d_chan s d) - (if d = c then 1 else 0)" by blast
    have "\<forall>i \<in> set is. i < length (f_fd (d_f u))" using Cons.prems(2) u(3) by simp
    from Cons.IH [OF u(2) this] obtain s' cs where
      s': "closefds close is u = Inr ((), s')" "fdrel x s' (\<lambda>j. if j \<in> int ` set is then None else (m(int i := None)) j)"
        "log s' = log u @ cs" "distinct cs" "\<forall>c. ch_ref (d_chan s' c) \<le> ch_ref (d_chan u c)"
        "set cs = {c. 0 < ch_ref (d_chan u c) \<and> ch_ref (d_chan s' c) = 0}"
      by (elim exE conjE) (rule that)
    define cs' where "cs' = (if ch_ref (d_chan s c) = 1 then [c] else []) @ cs"
    have le: "ch_ref (d_chan s' d) \<le> ch_ref (d_chan u d)" for d using s'(5) by blast
    have eq: "(\<lambda>j. if j \<in> int ` set (i # is) then None else m j) = (\<lambda>j. if j \<in> int ` set is then None else (m(int i := None)) j)" by auto
    show ?thesis
    proof (intro exI conjI allI)
      show "closefds close (i # is) s = Inr ((), s')" using look Some u(1) s'(1) by simp
      show "fdrel x s' (\<lambda>j. if j \<in> int ` set (i # is) then None else m j)" unfolding eq by (rule s'(2))
      show "log s' = log s @ cs'" using s'(3) u(4) by (simp add: cs'_def)
      show "distinct cs'" using s'(4,6) ref [of c] by (auto simp: cs'_def)
      show "ch_ref (d_chan s' d) \<le> ch_ref (d_chan s d)" for d using le [of d] ref [of d] by (simp split: if_splits)
      show "set cs' = {c. 0 < ch_ref (d_chan s c) \<and> ch_ref (d_chan s' c) = 0}"
      proof (intro set_eqI)
        fix d
        have "(d = c \<and> ch_ref (d_chan s c) = 1) \<or> (0 < ch_ref (d_chan u d) \<and> ch_ref (d_chan s' d) = 0) \<longleftrightarrow>
            0 < ch_ref (d_chan s d) \<and> ch_ref (d_chan s' d) = 0"
          using le [of d] ref [of d] fdrel_nonneg [OF s'(2), of d] by (cases "d = c") auto
        then show "d \<in> set cs' \<longleftrightarrow> d \<in> {c. 0 < ch_ref (d_chan s c) \<and> ch_ref (d_chan s' c) = 0}"
          by (auto simp: cs'_def s'(6))
      qed
    qed
  qed
qed

lemma close_group:
  assumes "fdrel x s m"
  shows "\<exists>s' cs. closefds close [0..<nat (f_maxfd (d_f s) + 1)] s = Inr ((), s') \<and> fdrel x s' (\<lambda>_. None) \<and>
    log s' = log s @ cs \<and> distinct cs \<and> set cs = {c. 0 < hold m c \<and> x c = 0}"
proof -
  have w: "wff (d_f s)" and m: "fdmap (d_f s) = m" using assms by (auto simp: fdrel_def)
  let ?is = "[0..<nat (f_maxfd (d_f s) + 1)]"
  have b: "\<forall>i \<in> set ?is. i < length (f_fd (d_f s))" using w by (auto simp: wff_def)
  have eq: "(\<lambda>i. if i \<in> int ` set ?is then None else m i) = (\<lambda>_. None)"
  proof
    fix i
    have "m i = None" if "i \<notin> int ` set ?is"
    proof (cases "i < 0")
      case True
      then show ?thesis unfolding m [symmetric] by (simp add: fdmap_def)
    next
      case False
      then have "i = int (nat i)" by simp
      then have "nat i \<notin> set ?is" using that by (metis imageI)
      then have "f_maxfd (d_f s) < i" using False by auto
      then show ?thesis using w unfolding wff_def m by blast
    qed
    then show "(if i \<in> int ` set ?is then None else m i) = None" by simp
  qed
  from closefds_ok [OF assms b, unfolded eq] obtain s' cs where s': "closefds close ?is s = Inr ((), s')" "fdrel x s' (\<lambda>_. None)"
      "log s' = log s @ cs" "distinct cs" "set cs = {c. 0 < ch_ref (d_chan s c) \<and> ch_ref (d_chan s' c) = 0}"
    by (elim exE conjE) (rule that)
  have "hold (\<lambda>_. None) c = 0" for c by (simp add: hold_def)
  then have "set cs = {c. 0 < hold m c \<and> x c = 0}"
    unfolding s'(5) using fdrel_ref [OF assms] fdrel_ref(1) [OF s'(2)] by auto
  then show ?thesis using s' by blast
qed

end

interpretation cc: closing cclose d_closed
proof
  show "\<exists>s'. cclose c s = Inr ((), s') \<and> fdrel (x(c := x c - 1)) s' m \<and> d_f s' = d_f s \<and>
      d_closed s' = d_closed s @ (if ch_ref (d_chan s c) = 1 then [c] else [])" if "fdrel x s m" "0 < x c" for x s m c
    using cclose_ok [OF that] by blast
qed (simp add: setfd_def)

interpretation cq: closing ccloseq d_queued
proof
  show "\<exists>s'. ccloseq c s = Inr ((), s') \<and> fdrel (x(c := x c - 1)) s' m \<and> d_f s' = d_f s \<and>
      d_queued s' = d_queued s @ (if ch_ref (d_chan s c) = 1 then [c] else [])" if "fdrel x s m" "0 < x c" for x s m c
    using ccloseq_ok [OF that] by blast
qed (simp add: setfd_def)


section \<open>System calls on a table\<close>

text \<open>
  \<^verbatim>\<open>sysopen\<close> after \<^verbatim>\<open>namec\<close>, whose outcome \<open>nc\<close> is an error or a channel with a reference for
  the caller.
\<close>

definition sysopen :: "int \<Rightarrow> syserr + nat \<Rightarrow> Fds \<Rightarrow> (syserr + int, Fds) kres" where
  "sysopen omode nc s = (case openmode omode of
     Inl e \<Rightarrow> Inr (Inl e, s)
   | Inr _ \<Rightarrow> (case nc of
       Inl e \<Rightarrow> Inr (Inl e, s)
     | Inr c \<Rightarrow>
         let (fd, s) = newfd c s in
         if fd < 0 then kbind (cclose c s) (\<lambda>_ s. Inr (Inl Enofd, s)) else Inr (Inr fd, s)))"

datatype fdcall = Open nat | Close int | Dup int int

definition fdexec :: "fdcall \<Rightarrow> Fds \<Rightarrow> (syserr + int, Fds) kres" where
  "fdexec op s = (case op of
     Open c \<Rightarrow> sysopen OREAD (Inr c) s
   | Close fd \<Rightarrow> kbind (sysclose fd s) (\<lambda>r s. Inr (case r of Inl e \<Rightarrow> Inl e | Inr _ \<Rightarrow> Inr 0, s))
   | Dup ofd nfd \<Rightarrow> sysdup ofd nfd s)"

fun fdrun :: "fdcall list \<Rightarrow> Fds \<Rightarrow> ((syserr + int) list, Fds) kres" where
  "fdrun [] s = Inr ([], s)"
| "fdrun (op # ops) s = kbind (fdexec op s) (\<lambda>r s. kbind (fdrun ops s) (\<lambda>rs s. Inr (r # rs, s)))"

text \<open>The specification: what a call may answer on the map \<open>m\<close> and the map it leaves.\<close>

definition fdspec :: "fdcall \<Rightarrow> (int \<Rightarrow> nat option) \<Rightarrow> syserr + int \<Rightarrow> (int \<Rightarrow> nat option) \<Rightarrow> bool" where
  "fdspec op m r m' \<longleftrightarrow> (case op of
     Open c \<Rightarrow> r = Inl Enofd \<and> m' = m \<or> (\<exists>fd. r = Inr fd \<and> least_free m 0 fd \<and> m' = m(fd \<mapsto> c))
   | Close fd \<Rightarrow> (case m fd of None \<Rightarrow> r = Inl Ebadfd \<and> m' = m | Some c \<Rightarrow> r = Inr 0 \<and> m' = m(fd := None))
   | Dup ofd nfd \<Rightarrow> (case m ofd of
       None \<Rightarrow> r = Inl Ebadfd \<and> m' = m
     | Some c \<Rightarrow>
         if nfd = -1 then r = Inl Enofd \<and> m' = m \<or> (\<exists>fd. r = Inr fd \<and> least_free m 0 fd \<and> m' = m(fd \<mapsto> c))
         else r = Inl Ebadfd \<and> m' = m \<and> m nfd = None \<or> r = Inr nfd \<and> 0 \<le> nfd \<and> m' = m(nfd \<mapsto> c)))"

fun fdtrace :: "fdcall list \<Rightarrow> (int \<Rightarrow> nat option) \<Rightarrow> (syserr + int) list \<Rightarrow> (int \<Rightarrow> nat option) \<Rightarrow> bool" where
  "fdtrace [] m rs m' \<longleftrightarrow> rs = [] \<and> m' = m"
| "fdtrace (op # ops) m rs m' \<longleftrightarrow> (\<exists>r rs' n. rs = r # rs' \<and> fdspec op m r n \<and> fdtrace ops n rs' m')"

text \<open>The references the calls consume: one of the channel for each \<open>Open\<close>.\<close>

definition spent :: "fdcall \<Rightarrow> nat \<Rightarrow> int" where
  "spent op c = (if op = Open c then 1 else 0)"

fun allspent :: "fdcall list \<Rightarrow> nat \<Rightarrow> int" where
  "allspent [] c = 0"
| "allspent (op # ops) c = spent op c + allspent ops c"

locale fd_table =
  fixes rel :: "(nat \<Rightarrow> int) \<Rightarrow> 's \<Rightarrow> (int \<Rightarrow> nat option) \<Rightarrow> bool"
    and exec :: "fdcall \<Rightarrow> 's \<Rightarrow> (syserr + int, 's) kres"
    and run :: "fdcall list \<Rightarrow> 's \<Rightarrow> ((syserr + int) list, 's) kres"
  assumes exec_ok: "rel x s m \<Longrightarrow> \<forall>c. spent op c \<le> x c \<Longrightarrow>
      \<exists>r s' m'. exec op s = Inr (r, s') \<and> fdspec op m r m' \<and> rel (\<lambda>c. x c - spent op c) s' m'"
    and run_Nil: "run [] s = Inr ([], s)"
    and run_Cons: "run (op # ops) s = kbind (exec op s) (\<lambda>r s. kbind (run ops s) (\<lambda>rs s. Inr (r # rs, s)))"
begin

lemma run_ok:
  assumes "rel x s m" "\<forall>c. allspent ops c \<le> x c"
  shows "\<exists>rs s' m'. run ops s = Inr (rs, s') \<and> fdtrace ops m rs m' \<and> rel (\<lambda>c. x c - allspent ops c) s' m'"
  using assms
proof (induction ops arbitrary: x s m)
  case Nil
  then show ?case by (simp add: run_Nil)
next
  case (Cons op ops)
  have nn: "0 \<le> allspent ops c" for c ops by (induction ops) (auto simp: spent_def)
  have "spent op c \<le> x c" for c using Cons.prems(2) nn [of ops c] by (auto dest: spec [of _ c])
  then obtain r t n where e: "exec op s = Inr (r, t)" "fdspec op m r n" "rel (\<lambda>c. x c - spent op c) t n"
    using exec_ok [OF Cons.prems(1), of op] by blast
  have "\<forall>c. allspent ops c \<le> x c - spent op c" using Cons.prems(2) by (auto simp: algebra_simps)
  from Cons.IH [OF e(3) this] obtain rs s' m' where
    r: "run ops t = Inr (rs, s')" "fdtrace ops n rs m'" "rel (\<lambda>c. x c - spent op c - allspent ops c) s' m'" by blast
  have "(\<lambda>c. x c - spent op c - allspent ops c) = (\<lambda>c. x c - allspent (op # ops) c)" by (simp add: fun_eq_iff)
  then show ?case using e r by (auto simp: run_Cons)
qed

end

lemma sysopen_ok:
  assumes "fdrel x s m" "1 \<le> x c"
  shows "\<exists>r s' m'. fdexec (Open c) s = Inr (r, s') \<and> fdspec (Open c) m r m' \<and> fdrel (x(c := x c - 1)) s' m'"
proof -
  obtain fd t where n: "newfd c s = (fd, t)" by fastforce
  have om: "openmode OREAD = Inr OREAD" by (simp add: openmode_def Let_def OREAD_def OEXEC_def)
  have pos: "0 < x c" using assms(2) by simp
  from newfd_ok [OF assms(1) pos n] show ?thesis
  proof
    assume a: "fd = - 1 \<and> fdrel x t m \<and> quiet s t \<and> (5000 \<le> length (f_fd (d_f s)) \<or> \<not> d_mallocs s (d_mnext s))"
    then obtain s' where "cclose c t = Inr ((), s')" "fdrel (x(c := x c - 1)) s' m" using cclose_ok [of x t m c] pos by blast
    then show ?thesis using a n om by (auto simp: fdexec_def sysopen_def fdspec_def)
  next
    assume a: "least_free m 0 fd \<and> fdrel (x(c := x c - 1)) t (m(fd \<mapsto> c)) \<and> quiet s t"
    then have "\<not> fd < 0" by (simp add: least_free_def)
    then show ?thesis using a n om by (auto simp: fdexec_def sysopen_def fdspec_def)
  qed
qed

lemma fdexec_ok:
  assumes "fdrel x s m" "\<forall>c. spent op c \<le> x c"
  shows "\<exists>r s' m'. fdexec op s = Inr (r, s') \<and> fdspec op m r m' \<and> fdrel (\<lambda>c. x c - spent op c) s' m'"
proof (cases op)
  case (Open c)
  have "(\<lambda>d. x d - spent op d) = x(c := x c - 1)" by (auto simp: Open spent_def fun_eq_iff)
  moreover have "1 \<le> x c" using assms(2) [rule_format, of c] by (simp add: Open spent_def)
  ultimately show ?thesis using sysopen_ok [OF assms(1)] Open by simp
next
  case (Close fd)
  have x: "(\<lambda>d. x d - spent op d) = x" by (simp add: Close spent_def)
  show ?thesis unfolding x using sysclose_ok [OF assms(1), of fd] assms(1)
    by (cases "m fd") (auto simp: Close fdexec_def fdspec_def)
next
  case (Dup ofd nfd)
  have x: "(\<lambda>d. x d - spent op d) = x" by (simp add: Dup spent_def)
  show ?thesis
  proof (cases "m ofd")
    case None
    then have "fdtochan ofd (-1) False True s = Inr (Inl Ebadfd, s)" using fdtochan_ok [OF assms(1), of ofd "-1" False True] by simp
    then show ?thesis unfolding x using assms(1) None by (auto simp: Dup fdexec_def fdspec_def sysdup_def)
  next
    case (Some c)
    have free: "m nfd = None" if "nfd < 0 \<or> int (length (f_fd (d_f s))) \<le> nfd" using fdrel_look [OF assms(1), of nfd] that by auto
    show ?thesis
      unfolding x using sysdup_new_ok [OF assms(1) Some] sysdup_onto_ok [OF assms(1) Some, of nfd] Some free
      by (cases "nfd = -1") (auto simp: Dup fdexec_def fdspec_def)
  qed
qed

interpretation ft: fd_table fdrel fdexec fdrun
  by unfold_locales (rule fdexec_ok, simp_all)


section \<open>Properties\<close>

text \<open>A table of one segment with a channel on descriptors 0 and 2; the caller holds a reference of channel 8.\<close>

definition fdsample :: Fds where
  "fdsample = \<lparr>d_f = \<lparr>f_ref = 1, f_fd = Some 7 # None # Some 7 # replicate 17 None, f_maxfd = 2, f_exceed = 0\<rparr>,
     d_chan = (\<lambda>c. \<lparr>ch_ref = (if c = 7 then 2 else if c = 8 then 1 else 0), ch_flag = 0, ch_mode = OREAD\<rparr>),
     d_closed = [], d_queued = [], d_mallocs = (\<lambda>_. True), d_mnext = 0\<rparr>"

lemma fdsample_map: "fdmap (d_f fdsample) = (\<lambda>i. if i = 0 \<or> i = 2 then Some 7 else None)"
  by (auto simp: fdmap_def fdsample_def fun_eq_iff nth_Cons' numeral_eq_Suc)

lemma fdsample_hold: "hold (fdmap (d_f fdsample)) c = (if c = 7 then 2 else 0)"
  unfolding hold_count by (simp add: fdsample_def)

lemma fdsample_rel: "fdrel (\<lambda>c. if c = 8 then 1 else 0) fdsample (fdmap (d_f fdsample))"
  unfolding fdrel_def fdsample_hold
proof (intro conjI allI)
  show "wff (d_f fdsample)" unfolding wff_def fdsample_map by (simp add: fdsample_def DELTAFD_def)
qed (auto simp: fdsample_def tst_def)

text \<open>
  C19: any sequence of open, close and dup calls runs to its end without a panic, its answers and the table it leaves are
  those the specification allows, and the reference count of every channel stays the number of descriptors that
  name it plus the references held outside the table: no reference is lost and none is dropped twice.
\<close>

theorem fd_calls:
  assumes "fdrel x s m" "\<forall>c. allspent ops c \<le> x c"
  shows "\<exists>rs s' m'. fdrun ops s = Inr (rs, s') \<and> fdtrace ops m rs m' \<and> fdrel (\<lambda>c. x c - allspent ops c) s' m'"
  by (rule ft.run_ok [OF assms])

theorem fd_calls_witness:
  "\<exists>rs s' m'. fdrun [Open 8, Dup 1 0, Close 2, Dup 5 6] fdsample = Inr (rs, s') \<and>
     fdtrace [Open 8, Dup 1 0, Close 2, Dup 5 6] (fdmap (d_f fdsample)) rs m' \<and>
     fdrel (\<lambda>c. (if c = 8 then 1 else 0) - allspent [Open 8, Dup 1 0, Close 2, Dup 5 6] c) s' m'"
  by (rule fd_calls [OF fdsample_rel]) (simp add: spent_def)

text \<open>
  \<^verbatim>\<open>newfd2\<close> either leaves the table as it was or puts the two channels in the two lowest free
  descriptors, without touching any channel.
\<close>

theorem newfd2_pair:
  assumes "fdrel x s m" "0 < x c0" "0 < x c1" "c0 \<noteq> c1" "newfd2 c0 c1 s = (r, s')"
  shows "quiet s s' \<and> (case r of
      None \<Rightarrow> fdrel x s' m
    | Some (fd0, fd1) \<Rightarrow> least_free m 0 fd0 \<and> least_free m (fd0 + 1) fd1 \<and>
        fdrel (x(c0 := x c0 - 1, c1 := x c1 - 1)) s' (m(fd0 \<mapsto> c0, fd1 \<mapsto> c1)))"
  using newfd2_ok [OF assms(1-3) _ assms(5)] assms(4) by (auto split: option.splits)

definition fdsample2 :: Fds where
  "fdsample2 = fdsample\<lparr>d_chan := (d_chan fdsample)(9 := \<lparr>ch_ref = 1, ch_flag = 0, ch_mode = OREAD\<rparr>)\<rparr>"

lemma fdsample_rel2: "fdrel (\<lambda>c. if c = 8 \<or> c = 9 then 1 else 0) fdsample2 (fdmap (d_f fdsample))"
  using fdsample_rel fdsample_hold [of 9] by (auto simp: fdrel_def tst_def fdsample2_def)

theorem newfd2_pair_witness:
  "\<exists>r s'. newfd2 8 9 fdsample2 = (r, s') \<and> quiet fdsample2 s' \<and> (case r of
      None \<Rightarrow> fdrel (\<lambda>c. if c = 8 \<or> c = 9 then 1 else 0) s' (fdmap (d_f fdsample))
    | Some (fd0, fd1) \<Rightarrow> least_free (fdmap (d_f fdsample)) 0 fd0 \<and> least_free (fdmap (d_f fdsample)) (fd0 + 1) fd1)"
proof -
  obtain r s' where e: "newfd2 8 9 fdsample2 = (r, s')" by fastforce
  show ?thesis using newfd2_pair [OF fdsample_rel2 _ _ _ e] e by (auto split: option.splits)
qed

text \<open>
  \<^verbatim>\<open>fdtochan\<close> raises Ebadfd exactly for a descriptor that is not open, Ebadusefd exactly for a
  channel that does not allow the use, and then leaves the references as they were; otherwise it returns the channel,
  with a reference more if the caller asked for one.
\<close>

theorem fdtochan_result:
  assumes "fdrel x s m"
  shows "case m fd of
      None \<Rightarrow> fdtochan fd mode chkmnt iref s = Inr (Inl Ebadfd, s)
    | Some c \<Rightarrow>
        if usable mode chkmnt (d_chan s c) then
          fdtochan fd mode chkmnt iref s = Inr (Inr c, if iref then cincref c s else s) \<and>
          fdrel (if iref then x(c := x c + 1) else x) (if iref then cincref c s else s) m
        else \<exists>s'. fdtochan fd mode chkmnt iref s = Inr (Inl Ebadusefd, s') \<and> fdrel x s' m \<and>
          d_f s' = d_f s \<and> d_closed s' = d_closed s"
  by (rule fdtochan_ok [OF assms])

theorem fdtochan_result_witness:
  "fdtochan 1 OREAD True True fdsample = Inr (Inl Ebadfd, fdsample) \<and>
   fdtochan 2 OREAD True True fdsample = Inr (Inr 7, cincref 7 fdsample) \<and>
   (\<exists>s'. fdtochan 2 (OREAD OR OTRUNC) True True fdsample = Inr (Inl Ebadusefd, s') \<and> d_closed s' = [])"
  using fdtochan_result [OF fdsample_rel, of 1 OREAD True True] fdtochan_result [OF fdsample_rel, of 2 OREAD True True]
    fdtochan_result [OF fdsample_rel, of 2 "OREAD OR OTRUNC" True True]
  unfolding fdsample_map by (auto simp: usable_def fdsample_def OREAD_def OTRUNC_def ORDWR_def tst_def split: if_splits)

text \<open>
  C26: the copy \<^verbatim>\<open>dupfgrp\<close> makes has the same descriptors in a table no longer than the original,
  and every channel gains one reference for each of them; without memory nothing changes.
\<close>

theorem dupfgrp_copy:
  assumes "fdrel x s m" "dupfgrp (Some (d_f s)) s = (r, s')"
  shows "d_f s' = d_f s \<and> d_closed s' = d_closed s \<and>
    (r = Inl Enomem \<and> \<not> d_mallocs s (d_mnext s) \<and> fdrel x s' m \<or>
     (\<exists>g. r = Inr g \<and> wff g \<and> fdmap g = m \<and> f_ref g = 1 \<and> length (f_fd g) \<le> length (f_fd (d_f s)) \<and>
       fdrel (\<lambda>c. x c + int (hold m c)) s' m))"
  by (rule dupfgrp_ok [OF assms])

theorem dupfgrp_copy_witness:
  "\<exists>g s'. dupfgrp (Some (d_f fdsample)) fdsample = (Inr g, s') \<and> fdmap g = fdmap (d_f fdsample) \<and>
     fdrel (\<lambda>c. (if c = 8 then 1 else 0) + int (hold (fdmap (d_f fdsample)) c)) s' (fdmap (d_f fdsample))"
  using dupfgrp_copy [OF fdsample_rel prod.collapse [symmetric]] by (auto simp: fdsample_def [THEN arg_cong, of d_mallocs]) (metis prod.collapse)

text \<open>
  C25: when the last process leaves a group, \<^verbatim>\<open>closefgrp\<close> empties the table without a panic and closes, once
  each, exactly the channels no one else holds; before that it only drops its own reference.
\<close>

theorem closefgrp_last:
  assumes "fdrel x s m" "1 \<le> f_ref (d_f s)"
  shows "\<exists>s' cs. closefgrp s = Inr ((), s') \<and> d_closed s' = d_closed s @ cs \<and>
    (if f_ref (d_f s) = 1 then fdrel x s' (\<lambda>_. None) \<and> distinct cs \<and> set cs = {c. 0 < hold m c \<and> x c = 0}
     else fdrel x s' m \<and> cs = [] \<and> f_ref (d_f s') = f_ref (d_f s) - 1)"
proof -
  define t where "t = s\<lparr>d_f := (d_f s)\<lparr>f_ref := f_ref (d_f s) - 1\<rparr>\<rparr>"
  have t: "fdrel x t m" by (rule fdrel_quiet [OF assms(1)]) (use assms(1) in \<open>auto simp: t_def fdrel_def wff_def fdmap_def\<close>)
  have "closefgrp s = (if f_ref (d_f s) = 1 then closefds cclose [0..<nat (f_maxfd (d_f t) + 1)] t else Inr ((), t))"
    using assms(2) by (simp add: closefgrp_def Let_def t_def)
  then show ?thesis using cc.close_group [OF t] t by (auto simp: t_def)
qed

theorem closefgrp_last_witness:
  "\<exists>s' cs. closefgrp fdsample = Inr ((), s') \<and> d_closed s' = cs \<and> distinct cs \<and> set cs = {7} \<and>
     fdrel (\<lambda>c. if c = 8 then 1 else 0) s' (\<lambda>_. None)"
proof -
  have r: "f_ref (d_f fdsample) = 1" "d_closed fdsample = []" by (simp_all add: fdsample_def)
  have "{c. 0 < hold (fdmap (d_f fdsample)) c \<and> (if c = 8 then 1 else 0) = (0::int)} = {7}" by (auto simp: fdsample_hold)
  then show ?thesis using closefgrp_last [OF fdsample_rel] by (auto simp: r)
qed

text \<open>
  \<^verbatim>\<open>forceclosefgrp\<close> hands to the close processes, once each, exactly the channels no one else
  holds, and leaves an empty table.
\<close>

theorem forceclosefgrp_all:
  assumes "fdrel x s m"
  shows "\<exists>s' cs. forceclosefgrp True True s = Inr ((), s') \<and> d_queued s' = d_queued s @ cs \<and> fdrel x s' (\<lambda>_. None) \<and>
    distinct cs \<and> set cs = {c. 0 < hold m c \<and> x c = 0}"
  using cq.close_group [OF assms] by (auto simp: forceclosefgrp_def)

theorem forceclosefgrp_all_witness:
  "\<exists>s' cs. forceclosefgrp True True fdsample = Inr ((), s') \<and> d_queued s' = cs \<and> distinct cs \<and> set cs = {7}"
proof -
  have r: "d_queued fdsample = []" by (simp add: fdsample_def)
  have "{c. 0 < hold (fdmap (d_f fdsample)) c \<and> (if c = 8 then 1 else 0) = (0::int)} = {7}" by (auto simp: fdsample_hold)
  then show ?thesis using forceclosefgrp_all [OF fdsample_rel] by (auto simp: r)
qed

end
