(* ===== verification/Tod.thy ===== *)
theory Tod
  imports Prelude
begin

text \<open>
  The time of day (\<^verbatim>\<open>port/tod.c\<close>, \<^verbatim>\<open>port/mul64fract.c\<close>) and the control file that sets it
  (\<^verbatim>\<open>writebintime\<close> of \<^verbatim>\<open>port/devcons.c\<close>). A vlong is a 64-bit word read with \<open>sint\<close>; the readings of the
  fast clock and of \<^verbatim>\<open>sys->ticks\<close> are arguments. A division by zero traps: it is \<open>Inl Fault\<close>.
\<close>

type_synonym uvlong = "64 word"

section \<open>Fixed-point arithmetic\<close>

definition mul64fract :: "uvlong \<Rightarrow> uvlong \<Rightarrow> uvlong" where
  "mul64fract a b =
     (let bl = b AND 0xffffffff; bh = drop_bit 32 b; al = a AND 0xffffffff; ah = drop_bit 32 a;
          res = drop_bit 32 (al * bl);
          res = res + al * bh;
          res = res + ah * bl
      in res + push_bit 32 (ah * bh))"

definition mk64fract :: "uvlong \<Rightarrow> uvlong \<Rightarrow> fault + uvlong" where
  "mk64fract to from = (if from = 0 then Inl Fault else Inr (push_bit 32 to div from))"

section \<open>The clock\<close>

text \<open>The struct \<^verbatim>\<open>tod\<close> and, last, the global \<^verbatim>\<open>fasthz\<close> of \<^verbatim>\<open>devcons.c\<close>.\<close>

definition HZ :: "32 word" where "HZ = 100"
definition TODFREQ :: uvlong where "TODFREQ = 1000000000"
definition MicroFREQ :: uvlong where "MicroFREQ = 1000000"

record Tod =
  t_init :: bool
  t_cnt :: ulong
  t_multiplier :: uvlong
  t_divider :: uvlong
  t_umultiplier :: uvlong
  t_udivider :: uvlong
  t_hz :: uvlong
  t_last :: uvlong
  t_off :: uvlong
  t_lasttime :: uvlong
  t_delta :: uvlong
  t_sstart :: ulong
  t_send :: ulong
  t_fasthz :: uvlong

definition todsetfreq :: "uvlong \<Rightarrow> Tod \<Rightarrow> (unit, Tod) kres" where
  "todsetfreq f s =
     (case (mk64fract TODFREQ f, mk64fract f TODFREQ, mk64fract MicroFREQ f, mk64fract f MicroFREQ) of
        (Inr m, Inr d, Inr um, Inr ud) \<Rightarrow>
          Inr ((), s\<lparr>t_hz := f, t_multiplier := m, t_divider := d + 1, t_umultiplier := um, t_udivider := ud + 1\<rparr>)
      | _ \<Rightarrow> Inl Fault)"

text \<open>\<^verbatim>\<open>fastticks\<close> gives the reading \<open>ticks\<close> and the frequency \<open>hz\<close>. The link of \<^verbatim>\<open>todfix\<close> to clock 0 is apart.\<close>

definition todinit :: "uvlong \<Rightarrow> uvlong \<Rightarrow> Tod \<Rightarrow> (unit, Tod) kres" where
  "todinit ticks hz s =
     (if t_init s then Inr ((), s)
      else kbind (todsetfreq hz (s\<lparr>t_last := ticks, t_hz := hz\<rparr>)) (\<lambda>_ s. Inr ((), s\<lparr>t_init := True\<rparr>)))"

definition todset :: "uvlong \<Rightarrow> ulong \<Rightarrow> uvlong \<Rightarrow> uvlong \<Rightarrow> 32 word \<Rightarrow> Tod \<Rightarrow> (unit, Tod) kres" where
  "todset ticks systicks t delta n s =
     (if 0 \<le> sint t then
        Inr ((), s\<lparr>t_off := t, t_last := ticks, t_lasttime := 0, t_delta := 0, t_sstart := t_send s\<rparr>)
      else
        let n = (if sint n \<le> 0 then 1 else n);
            n = n * HZ;
            n = (if sint delta < 0 \<and> sint n > sint (- delta) then ucast (- delta) else n);
            n = (if sint delta > 0 \<and> sint n > sint delta then ucast delta else n)
        in if n = 0 then Inl Fault
           else Inr ((), s\<lparr>t_sstart := systicks, t_send := systicks + n, t_delta := word_of_int (sint delta sdiv sint n)\<rparr>))"

definition todget :: "uvlong \<Rightarrow> ulong \<Rightarrow> Tod \<Rightarrow> uvlong \<times> Tod" where
  "todget ticks systicks s =
     (let s = s\<lparr>t_cnt := t_cnt s + 1\<rparr>;
          s = (if t_sstart s \<noteq> t_send s then
                 let t = (if systicks \<ge> t_send s then t_send s else systicks)
                 in s\<lparr>t_off := t_off s + t_delta s * ucast (t - t_sstart s), t_sstart := t\<rparr>
               else s);
          diff = ticks - t_last s;
          diff = (if sint diff < 0 then 0 else diff);
          x = mul64fract diff (t_multiplier s) + t_off s
      in if x < t_lasttime s then (t_lasttime s, s) else (x, s\<lparr>t_lasttime := x\<rparr>))"

definition tod2fastticks :: "uvlong \<Rightarrow> Tod \<Rightarrow> uvlong" where
  "tod2fastticks ns s = mul64fract (ns - t_off s) (t_divider s) + t_last s"


definition fastticks2us :: "Tod \<Rightarrow> uvlong \<Rightarrow> uvlong" where "fastticks2us s ticks = mul64fract ticks (t_umultiplier s)"
definition us2fastticks :: "Tod \<Rightarrow> uvlong \<Rightarrow> uvlong" where "us2fastticks s us = mul64fract us (t_udivider s)"
definition ms2fastticks :: "Tod \<Rightarrow> ulong \<Rightarrow> uvlong" where "ms2fastticks s ms = (t_hz s * ucast ms) div 1000"
definition ns2fastticks :: "Tod \<Rightarrow> uvlong \<Rightarrow> uvlong" where "ns2fastticks s ns = mul64fract ns (t_divider s)"
definition fastticks2ns :: "Tod \<Rightarrow> uvlong \<Rightarrow> uvlong" where "fastticks2ns s ticks = mul64fract ticks (t_multiplier s)"

section \<open>The binary time file\<close>

text \<open>
  The bytes of a number in memory, on a machine that is little endian or not; the tables \<^verbatim>\<open>uvorder\<close> and
  \<^verbatim>\<open>order\<close> are the bytes of 0x0001..., as they lie in memory.
\<close>

definition memval :: "bool \<Rightarrow> byte list \<Rightarrow> 'a::len word" where
  "memval little t = (if little then horner_sum ucast 256 t else horner_sum ucast 256 (rev t))"

definition uvorder :: "bool \<Rightarrow> nat \<Rightarrow> nat list" where
  "uvorder little n = (if little then rev [0..<n] else [0..<n])"

definition le2bytes :: "bool \<Rightarrow> nat \<Rightarrow> byte list \<Rightarrow> byte list" where
  "le2bytes little n f = fold (\<lambda>i t. t[uvorder little n ! i := f ! i]) [0..<n] (replicate n 0)"

definition le2vlong :: "bool \<Rightarrow> byte list \<Rightarrow> uvlong" where "le2vlong little f = memval little (le2bytes little 8 f)"
definition le2long :: "bool \<Rightarrow> byte list \<Rightarrow> 32 word" where "le2long little f = memval little (le2bytes little 4 f)"

datatype timeerr = Ebadtimectl

text \<open>\<^verbatim>\<open>writebintime\<close> of the bytes \<open>buf\<close>: the command letter and its numbers.\<close>

definition writebintime :: "bool \<Rightarrow> uvlong \<Rightarrow> ulong \<Rightarrow> byte list \<Rightarrow> Tod \<Rightarrow> (timeerr + int, Tod) kres" where
  "writebintime little ticks systicks buf s = (case buf of
     [] \<Rightarrow> Inl Fault
   | c # p \<Rightarrow>
       let n = int (length p); ok = (\<lambda>_ s. Inr (Inr n, s)) in
       if c = 0x6e then
         if n < 8 then Inr (Inl Ebadtimectl, s) else kbind (todset ticks systicks (le2vlong little p) 0 0 s) ok
       else if c = 0x64 then
         if n < 12 then Inr (Inl Ebadtimectl, s)
         else kbind (todset ticks systicks (-1) (le2vlong little p) (le2long little (drop 8 p)) s) ok
       else if c = 0x66 then
         if n < 8 then Inr (Inl Ebadtimectl, s)
         else let f = le2vlong little p in kbind (todsetfreq f (s\<lparr>t_fasthz := f\<rparr>)) ok
       else ok () s)"

definition vlong2le :: "bool \<Rightarrow> uvlong \<Rightarrow> byte list" where
  "vlong2le little v =
     (let f = map (\<lambda>i. ucast (drop_bit (8 * i) v)) (if little then [0..<8] else rev [0..<8])
      in map (\<lambda>i. f ! (uvorder little 8 ! i)) [0..<8])"

text \<open>The bytes that \<^verbatim>\<open>readbintime\<close> puts in a buffer of \<open>n\<close>; \<open>hz\<close> is what \<^verbatim>\<open>fastticks\<close> stores.\<close>

definition readbintime :: "bool \<Rightarrow> uvlong \<Rightarrow> ulong \<Rightarrow> uvlong \<Rightarrow> int \<Rightarrow> Tod \<Rightarrow> byte list \<times> Tod" where
  "readbintime little ticks systicks hz n s =
     (let s = (if t_fasthz s = 0 then s\<lparr>t_fasthz := hz\<rparr> else s);
          (nsec, s) = todget ticks systicks s
      in ((if n \<ge> 8 then vlong2le little nsec else []) @ (if n \<ge> 16 then vlong2le little ticks else []) @
          (if n \<ge> 24 then vlong2le little (t_fasthz s) else []), s))"

section \<open>Fixed-point products\<close>

lemma mul64fract_exact:
  "unat (mul64fract a b) = (unat a * unat b) div 2 ^ 32 mod 2 ^ 64"
proof -
  define A B where "A = unat a" and "B = unat b"
  define al ah bl bh where "al = A mod 2^32" and "ah = A div 2^32" and "bl = B mod 2^32" and "bh = B div 2^32"
  have AB: "A = ah * 2^32 + al" "B = bh * 2^32 + bl" by (simp_all add: al_def ah_def bl_def bh_def)
  have lo: "unat (x AND 0xffffffff) = unat x mod 2^32" for x :: uvlong
  proof -
    have "x AND 0xffffffff = take_bit 32 x" by (simp add: take_bit_eq_mask mask_eq_exp_minus_1)
    then have "unat (x AND 0xffffffff) = take_bit 32 (unat x)" by (simp only: unsigned_take_bit_eq)
    then show ?thesis by (simp add: take_bit_eq_mod)
  qed
  have hi: "unat (drop_bit 32 x) = unat x div 2^32" for x :: uvlong by (simp add: drop_bit_eq_div unat_div)
  have small: "al < 2^32" "bl < 2^32" by (simp_all add: al_def bl_def)
  have "al * bl < 2^32 * 2^32" using small by (intro mult_strict_mono) auto
  then have prod: "al * bl < 2^64" by simp
  have "A * B = al * bl + (al * bh + ah * bl) * 2^32 + ah * bh * 2^64" unfolding AB by (simp add: algebra_simps)
  also have "\<dots> = al * bl + (al * bh + ah * bl + ah * bh * 2^32) * 2^32" by (simp add: algebra_simps)
  finally have "(A * B) div 2^32 = (al * bl) div 2^32 + (al * bh + ah * bl + ah * bh * 2^32)" by simp
  moreover have "unat (mul64fract a b) = ((al * bl) div 2^32 + al * bh + ah * bl + 2^32 * (ah * bh)) mod 2^64"
    using prod unfolding al_def ah_def bl_def bh_def A_def B_def
    by (simp add: mul64fract_def Let_def unat_word_ariths push_bit_eq_mult lo hi mod_simps mult.commute)
  ultimately show ?thesis unfolding A_def B_def by (simp add: algebra_simps)
qed


lemma unat_shift32: "unat x < 2^32 \<Longrightarrow> unat (push_bit 32 x) = unat x * 2^32" for x :: uvlong
  by (simp add: push_bit_eq_mult unat_word_ariths)

lemma mk64fract_exact:
  assumes "from \<noteq> 0" "unat to < 2^32"
  shows "\<exists>q. mk64fract to from = Inr q \<and> unat q = unat to * 2^32 div unat from"
  using assms by (simp add: mk64fract_def unat_div unat_shift32)

text \<open>Rounding of a quotient in fixed point, from below and (with one added) from above.\<close>

lemma fract_below:
  fixes k to f :: nat
  assumes "0 < f"
  shows "(k * (to * N div f)) div N * f \<le> k * to" and "0 < N \<Longrightarrow> k * to < ((k * (to * N div f)) div N + k div N + 2) * f"
proof -
  define q where "q = to * N div f"
  have q: "q * f \<le> to * N" "to * N < q * f + f" using assms by (simp_all add: q_def) (metis dividend_less_div_times add.commute)
  define r where "r = k * q div N"
  have r: "r * N \<le> k * q" by (simp add: r_def)
  show "(k * (to * N div f)) div N * f \<le> k * to"
  proof (cases "N = 0")
    case False
    have "r * f * N \<le> k * (q * f)" using mult_le_mono1 [OF r, of f] by (simp add: algebra_simps)
    also have "\<dots> \<le> k * to * N" using mult_le_mono2 [OF q(1), of k] by (simp add: algebra_simps)
    finally have "r * f \<le> k * to" using False by simp
    then show ?thesis by (simp add: r_def q_def)
  qed simp
  assume N: "0 < N"
  have r2: "k * q < r * N + N" unfolding r_def using N by (metis dividend_less_div_times add.commute)
  have kN: "k < (k div N) * N + N" using N by (metis dividend_less_div_times add.commute)
  have "k * to * N \<le> k * (q * f + f)" using mult_le_mono2 [OF less_imp_le [OF q(2)], of k] by (simp add: algebra_simps)
  also have "\<dots> = (k * q + k) * f" by (simp add: algebra_simps)
  also have "\<dots> < (r * N + N + ((k div N) * N + N)) * f" using r2 kN assms by (intro mult_strict_right_mono) auto
  also have "\<dots> = (r + k div N + 2) * f * N" by (simp add: algebra_simps)
  finally have "k * to < (r + k div N + 2) * f" using N by simp
  then show "k * to < ((k * (to * N div f)) div N + k div N + 2) * f" by (simp add: r_def q_def)
qed

lemma fract_above:
  fixes k f to :: nat
  assumes "0 < to" "0 < N"
  shows "k * f div to \<le> (k * (f * N div to + 1)) div N" and "(k * (f * N div to + 1)) div N \<le> k * f div to + k div N + 2"
proof -
  define d where "d = f * N div to + 1"
  have d: "f * N \<le> d * to" "d * to \<le> f * N + to"
    using assms(1) dividend_less_div_times [OF assms(1), of "f * N"] by (simp_all add: d_def algebra_simps)
  show "k * f div to \<le> (k * d) div N"
  proof -
    have "k * f div to * to \<le> k * f" by simp
    then have "k * f div to * to * N \<le> k * f * N" by simp
    also have "\<dots> \<le> k * d * to" using mult_le_mono2 [OF d(1), of k] by (simp add: algebra_simps)
    finally have "k * f div to * N \<le> k * d" using assms(1) by (simp add: algebra_simps)
    then show ?thesis using assms(2) by (simp add: less_eq_div_iff_mult_less_eq)
  qed
  have "k * f < (k * f div to + 1) * to" using dividend_less_div_times [OF assms(1), of "k * f"] by (simp add: algebra_simps)
  moreover have "k < (k div N + 1) * N" using dividend_less_div_times [OF assms(2), of k] by (simp add: algebra_simps)
  ultimately have "k * f * N + k * to < (k * f div to + 1) * to * N + (k div N + 1) * N * to"
    using assms by (intro add_strict_mono mult_strict_right_mono) auto
  moreover have "k * d * to \<le> k * f * N + k * to" using mult_le_mono2 [OF d(2), of k] by (simp add: algebra_simps)
  ultimately have "k * d * to < (k * f div to + k div N + 2) * N * to" by (simp add: algebra_simps)
  then have "k * d < (k * f div to + k div N + 2) * N" using assms(1) by simp
  then have "(k * d) div N < k * f div to + k div N + 2" using assms(2) by (simp add: div_less_iff_less_mult)
  then show "(k * d) div N \<le> k * f div to + k div N + 2" by simp
qed

lemma todsetfreq_ok:
  assumes "f \<noteq> 0" "unat f < 2^32"
  shows "\<exists>s'. todsetfreq f s = Inr ((), s') \<and> unat (t_multiplier s') = 1000000000 * 2^32 div unat f \<and>
    unat (t_divider s') = unat f * 2^32 div 1000000000 + 1 \<and> t_lasttime s' = t_lasttime s"
proof -
  obtain m where m: "mk64fract TODFREQ f = Inr m" "unat m = 1000000000 * 2^32 div unat f"
    using mk64fract_exact [OF assms(1), of TODFREQ] by (auto simp: TODFREQ_def)
  obtain um where um: "mk64fract MicroFREQ f = Inr um" using mk64fract_exact [OF assms(1), of MicroFREQ] by (auto simp: MicroFREQ_def)
  obtain d where d: "mk64fract f TODFREQ = Inr d" "unat d = unat f * 2^32 div 1000000000"
    using mk64fract_exact [of TODFREQ f] assms(2) by (auto simp: TODFREQ_def)
  obtain ud where ud: "mk64fract f MicroFREQ = Inr ud" using mk64fract_exact [of MicroFREQ f] assms(2) by (auto simp: MicroFREQ_def)
  have "unat f * 2^32 + 2^32 \<le> 2^64" using assms(2) by simp
  then have "unat d + 1 < 2^64" unfolding d(2) using div_le_dividend [of "unat f * 2^32" 1000000000] by simp
  then have "unat (d + 1) = unat d + 1" by (simp add: unat_word_ariths)
  then show ?thesis using m um d ud by (simp add: todsetfreq_def)
qed


section \<open>Settings that do not trap\<close>





lemma todget_last: "fst (todget ticks st s) = t_lasttime (snd (todget ticks st s)) \<and> t_lasttime s \<le> t_lasttime (snd (todget ticks st s))"
  by (auto simp: todget_def Let_def)

lemma le2bytes8:
  "le2bytes little 8 (a0 # a1 # a2 # a3 # a4 # a5 # a6 # a7 # r) =
     (if little then rev [a0, a1, a2, a3, a4, a5, a6, a7] else [a0, a1, a2, a3, a4, a5, a6, a7])"
  by (simp add: le2bytes_def uvorder_def upt_rec numeral_eq_Suc)






section \<open>Properties\<close>

text \<open>\<^verbatim>\<open>mul64fract\<close> is the exact product of its arguments without its low 32 bits, modulo 2 to the 64.\<close>

theorem mul64fract_middle: "unat (mul64fract a b) = (unat a * unat b) div 2 ^ 32 mod 2 ^ 64"
  by (rule mul64fract_exact)

text \<open>
  C31: with a clock below 4.29 GHz the conversions between nanoseconds and ticks of the fast clock are exact up to
  rounding for every argument whose result fits in 64 bits, although the product taken on the way may not fit. Ticks to
  nanoseconds is never more than the exact quotient; nanoseconds to ticks is never less than the exact quotient rounded
  down (it may be one tick early); either is off by at most one unit for each 2 to the 32 of the argument, plus two.
\<close>

theorem fastticks_accuracy:
  assumes "f \<noteq> 0" "unat f < 2^32" "unat ticks * 1000000000 div unat f < 2^64"
    "unat ns * unat f div 1000000000 + unat ns div 2^32 + 2 < 2^64"
  shows "\<exists>s'. todsetfreq f s = Inr ((), s') \<and>
    unat (fastticks2ns s' ticks) * unat f \<le> unat ticks * 1000000000 \<and>
    unat ticks * 1000000000 < (unat (fastticks2ns s' ticks) + unat ticks div 2^32 + 2) * unat f \<and>
    unat ns * unat f div 1000000000 \<le> unat (ns2fastticks s' ns) \<and>
    unat (ns2fastticks s' ns) \<le> unat ns * unat f div 1000000000 + unat ns div 2^32 + 2"
proof -
  obtain s' where s': "todsetfreq f s = Inr ((), s')" "unat (t_multiplier s') = 1000000000 * 2^32 div unat f"
      "unat (t_divider s') = unat f * 2^32 div 1000000000 + 1"
    using todsetfreq_ok [OF assms(1,2)] by blast
  have f: "0 < unat f" using assms(1) by (simp add: unat_gt_0)
  let ?k = "unat ticks" and ?n = "unat ns"
  let ?a = "?k * (1000000000 * 2^32 div unat f) div 2^32" and ?b = "?n * (unat f * 2^32 div 1000000000 + 1) div 2^32"
  note b = fract_below [OF f, where k = ?k and to = 1000000000 and N = "2^32"] and a = fract_above [of 1000000000 "2^32" ?n "unat f"]
  have "?a \<le> ?k * 1000000000 div unat f" using b(1) f by (simp add: less_eq_div_iff_mult_less_eq)
  then have "?a < 2^64" using assms(3) by (rule le_less_trans)
  then have ns: "unat (fastticks2ns s' ticks) = ?a" by (simp add: fastticks2ns_def mul64fract_exact s'(2))
  have "?b < 2^64" using a(2) assms(4) by simp
  then have tk: "unat (ns2fastticks s' ns) = ?b" by (simp add: ns2fastticks_def mul64fract_exact s'(3))
  show ?thesis
  proof (intro exI conjI)
    show "todsetfreq f s = Inr ((), s')" by (rule s'(1))
    show "unat (fastticks2ns s' ticks) * unat f \<le> ?k * 1000000000" unfolding ns by (rule b(1))
    show "?k * 1000000000 < (unat (fastticks2ns s' ticks) + ?k div 2^32 + 2) * unat f" unfolding ns by (rule b(2)) simp
    show "?n * unat f div 1000000000 \<le> unat (ns2fastticks s' ns)" unfolding tk by (rule a(1)) simp_all
    show "unat (ns2fastticks s' ns) \<le> ?n * unat f div 1000000000 + ?n div 2^32 + 2" unfolding tk by (rule a(2)) simp_all
  qed
qed


definition todsample :: Tod where
  "todsample = \<lparr>t_init = True, t_cnt = 0, t_multiplier = 0, t_divider = 0, t_umultiplier = 0, t_udivider = 0, t_hz = 0,
     t_last = 0, t_off = 0, t_lasttime = 0, t_delta = 0, t_sstart = 0, t_send = 0, t_fasthz = 0\<rparr>"

theorem fastticks_accuracy_witness:
  "\<exists>s'. todsetfreq 3000000000 todsample = Inr ((), s') \<and>
    unat (fastticks2ns s' 6000000000000000000) * 3000000000 \<le> 6000000000000000000 * 1000000000 \<and>
    2000000000 * 3000000000 \<le> unat (ns2fastticks s' 2000000000000000000)"
  using fastticks_accuracy [of 3000000000 6000000000000000000 2000000000000000000 todsample] by auto



section \<open>The numbers of the binary time file\<close>


lemma horner_bytes:
  "(horner_sum ucast 256 bs :: 'a::len word) = of_nat (horner_sum unat 256 (bs :: byte list))"
  by (induction bs) simp_all













lemma horner_drops:
  "horner_sum unat 256 (map (\<lambda>i. ucast (drop_bit (8 * i) v) :: byte) [0..<k]) = unat (v::uvlong) mod 256 ^ k"
proof (induction k arbitrary: v)
  case (Suc k)
  have b: "unat (ucast v :: byte) = unat v mod 256" by (simp add: unsigned_ucast_eq take_bit_eq_mod)
  have d: "unat (drop_bit 8 v) = unat v div 256" by (simp add: drop_bit_eq_div unat_div)
  have "map (\<lambda>i. ucast (drop_bit (8 * i) v) :: byte) [0..<Suc k] =
      ucast v # map (\<lambda>i. ucast (drop_bit (8 * i) (drop_bit 8 v))) [0..<k]"
    unfolding upt_conv_Cons [OF zero_less_Suc] map_Suc_upt [symmetric] by (simp add: add.commute)
  then show ?case using Suc.IH [of "drop_bit 8 v"] by (simp add: b d mod_mult2_eq)
qed simp

lemma le2vlong_vlong2le: "le2vlong little (vlong2le little v @ r) = v" "length (vlong2le little v) = 8"
proof -
  have v: "vlong2le little v = map (\<lambda>i. ucast (drop_bit (8 * i) v)) [7, 6, 5, 4, 3, 2, 1, 0]"
    by (cases little) (simp_all add: vlong2le_def uvorder_def upt_rec numeral_eq_Suc)
  have "(horner_sum ucast 256 (map (\<lambda>i. ucast (drop_bit (8 * i) v) :: byte) [0..<8]) :: uvlong) = of_nat (unat v mod 256 ^ 8)"
    by (simp only: horner_bytes horner_drops)
  also have "\<dots> = v" using unsigned_less [of v] by (subst mod_less) simp_all
  finally have h: "horner_sum ucast 256 (map (\<lambda>i. ucast (drop_bit (8 * i) v) :: byte) [0..<8]) = v" .
  have u: "[0..<8] = [0, 1, 2, 3, 4, 5, 6, 7 :: nat]" by (simp add: upt_rec numeral_eq_Suc)
  show "le2vlong little (vlong2le little v @ r) = v"
    using h unfolding u v by (cases little) (simp_all add: le2vlong_def le2bytes8 memval_def)
  show "length (vlong2le little v) = 8" by (simp add: vlong2le_def)
qed

text \<open>
  C35: the 24 bytes of a read of the binary time file are, for \<^verbatim>\<open>le2vlong\<close>, the time, the reading of the
  fast clock taken with it and the frequency; writing the first of them back sets the clock to the time read, and
  the time read next, at the same reading of the clock, is that time.
\<close>

theorem bintime_roundtrip:
  assumes "24 \<le> n" "readbintime little ticks systicks hz n s = (b, s1)"
  shows "length b = 24 \<and> le2vlong little b = t_lasttime s1 \<and> le2vlong little (drop 8 b) = ticks \<and>
    le2vlong little (drop 16 b) = (if t_fasthz s = 0 then hz else t_fasthz s) \<and>
    (0 \<le> sint (t_lasttime s1) \<longrightarrow>
      (\<exists>s2. writebintime little ticks systicks (0x6e # take 8 b) s1 = Inr (Inr 8, s2) \<and>
         fst (todget ticks systicks s2) = t_lasttime s1))"
proof -
  define s0 where "s0 = (if t_fasthz s = 0 then s\<lparr>t_fasthz := hz\<rparr> else s)"
  obtain x t where g: "todget ticks systicks s0 = (x, t)" by fastforce
  have xt: "x = t_lasttime t" using todget_last [of ticks systicks s0] g by simp
  have fz: "t_fasthz t = t_fasthz s0" using g by (auto simp: todget_def Let_def split: if_splits)
  have b: "b = vlong2le little x @ vlong2le little ticks @ vlong2le little (t_fasthz s0)" and s1: "s1 = t"
    using assms g fz by (auto simp: readbintime_def Let_def s0_def [symmetric])
  note L = le2vlong_vlong2le
  have t8: "take 8 b = vlong2le little x" by (simp add: b L(2))
  have "fst (todget ticks systicks s2) = x"
    if "todset ticks systicks x 0 0 s1 = Inr ((), s2)" "0 \<le> sint x" for s2
    using that by (auto simp: todset_def todget_def Let_def mul64fract_def)
  moreover have "le2vlong little (vlong2le little x) = x" using L(1) [of little x "[]"] by simp
  moreover have "\<exists>s2. todset ticks systicks x 0 0 s1 = Inr ((), s2)" if "0 \<le> sint x" using that by (simp add: todset_def)
  ultimately have "0 \<le> sint (t_lasttime s1) \<longrightarrow>
      (\<exists>s2. writebintime little ticks systicks (0x6e # take 8 b) s1 = Inr (Inr 8, s2) \<and>
         fst (todget ticks systicks s2) = t_lasttime s1)"
    by (auto simp: writebintime_def Let_def t8 L(2) s1 xt [symmetric])
  moreover have "t_fasthz s0 = (if t_fasthz s = 0 then hz else t_fasthz s)" by (simp add: s0_def)
  ultimately show ?thesis using L(1) [of little] L(1) [of little "t_fasthz s0" "[]"]
    by (simp add: b L(2) s1 xt [symmetric])
qed

theorem bintime_roundtrip_witness:
  "\<exists>b s1. readbintime True 1000 0 3000000000 24 todsample = (b, s1) \<and> length b = 24 \<and> le2vlong True (drop 16 b) = 3000000000"
proof -
  obtain b s1 where r: "readbintime True 1000 0 3000000000 24 todsample = (b, s1)" by fastforce
  from bintime_roundtrip [OF _ r] show ?thesis using r by (auto simp: todsample_def)
qed

end
