(* ===== verification/Timers.thy ===== *)
theory Timers
  imports Tod
begin

text \<open>
  Clocks and alarms: the per-processor timer queues of \<^verbatim>\<open>port/portclock.c\<close> and the alarm list of
  \<^verbatim>\<open>port/alarm.c\<close>.

  Timers and processes are numbered; a queue is the list of its elements in the order of the links.
  A vlong time is an \<open>int\<close>: the fast clock does not reach 2 to the 63. \<open>k_set m\<close> is the time the
  clock of processor \<open>m\<close> was last programmed with (\<^verbatim>\<open>timerset\<close>). The functions of the timers run outside the
  queue's lock; \<open>k_fired\<close> records their calls, with the time each was due.
\<close>

section \<open>Timers\<close>

datatype tmode = Trelative | Tperiodic | Tother

record Timer =
  tm_mode :: tmode
  tm_tns :: int
  tm_twhen :: int
  tm_tt :: "nat option"
  tm_tf :: bool

record Clk =
  k_timers :: "nat \<Rightarrow> nat list"
  k_tm :: "nat \<Rightarrow> Timer"
  k_set :: "nat \<Rightarrow> int"
  k_fired :: "(nat \<times> int) list"
  k_tod :: Tod

definition nsticks :: "Tod \<Rightarrow> int \<Rightarrow> int" where
  "nsticks tod ns = sint (ns2fastticks tod (word_of_int ns))"

text \<open>The search of both kinds of queue: before the first element that is due later.\<close>

fun insby :: "('a \<Rightarrow> 'k::linorder) \<Rightarrow> 'k \<Rightarrow> 'a \<Rightarrow> 'a list \<Rightarrow> 'a list" where
  "insby key k x [] = [x]"
| "insby key k x (y # ys) = (if key y > k then x # y # ys else y # insby key k x ys)"

text \<open>The time a timer is due: the first half of \<^verbatim>\<open>tadd\<close>.\<close>

definition tdue :: "nat \<Rightarrow> int \<Rightarrow> Timer \<Rightarrow> Clk \<Rightarrow> fault + Timer" where
  "tdue m now nt s = (case tm_mode nt of
     Tother \<Rightarrow> Inl (Panic ''timer'')
   | Trelative \<Rightarrow>
       let nt = (if tm_tns nt \<le> 0 then nt\<lparr>tm_tns := 1\<rparr> else nt)
       in Inr (nt\<lparr>tm_twhen := now + nsticks (k_tod s) (tm_tns nt)\<rparr>)
   | Tperiodic \<Rightarrow>
       if tm_tns nt < 100000 then Inl (Panic ''assert'')
       else
         let nt = (if tm_twhen nt = 0 then
                     nt\<lparr>tm_twhen := (case find (\<lambda>t. tm_mode (k_tm s t) = Tperiodic \<and> tm_tns (k_tm s t) = tm_tns nt) (k_timers s m) of
                          Some t \<Rightarrow> tm_twhen (k_tm s t) | None \<Rightarrow> now)\<rparr>
                   else nt);
             when = nsticks (k_tod s) (tm_tns nt);
             when = (if when = 0 then 1 else when)
         in Inr (nt\<lparr>tm_twhen := tm_twhen nt + when\<rparr>))"

definition tadd :: "nat \<Rightarrow> int \<Rightarrow> nat \<Rightarrow> Clk \<Rightarrow> (int, Clk) kres" where
  "tadd m now n s =
     (if tm_tt (k_tm s n) \<noteq> None then Inl (Panic ''assert'')
      else case tdue m now (k_tm s n) s of
        Inl e \<Rightarrow> Inl e
      | Inr nt \<Rightarrow>
          let q = insby (\<lambda>t. tm_twhen (k_tm s t)) (tm_twhen nt) n (k_timers s m)
          in Inr (if hd q = n then tm_twhen nt else 0,
               s\<lparr>k_timers := (k_timers s)(m := q), k_tm := (k_tm s)(n := nt\<lparr>tm_tt := Some m\<rparr>)\<rparr>))"

definition tdel :: "nat \<Rightarrow> Clk \<Rightarrow> int \<times> Clk" where
  "tdel d s = (case tm_tt (k_tm s d) of
     None \<Rightarrow> (0, s)
   | Some m \<Rightarrow>
       let q = k_timers s m in
       if d \<in> set q then
         let q' = remove1 d q; s' = s\<lparr>k_timers := (k_timers s)(m := q'), k_tm := (k_tm s)(d := (k_tm s d)\<lparr>tm_tt := None\<rparr>)\<rparr>
         in (if hd q = d \<and> q' \<noteq> [] then tm_twhen (k_tm s' (hd q')) else 0, s')
       else (0, s))"

definition timerset :: "nat \<Rightarrow> int \<Rightarrow> Clk \<Rightarrow> Clk" where
  "timerset m when s = s\<lparr>k_set := (k_set s)(m := when)\<rparr>"

definition timeradd :: "nat \<Rightarrow> int \<Rightarrow> nat \<Rightarrow> Clk \<Rightarrow> (unit, Clk) kres" where
  "timeradd m now n s =
     (let s = (if tm_tt (k_tm s n) \<noteq> None then snd (tdel n s) else s) in
      kbind (tadd m now n s) (\<lambda>when s. Inr ((), if when \<noteq> 0 then timerset m when s else s)))"

definition timerdel :: "nat \<Rightarrow> nat \<Rightarrow> Clk \<Rightarrow> Clk" where
  "timerdel m d s = (case tm_tt (k_tm s d) of
     None \<Rightarrow> s
   | Some m' \<Rightarrow>
       let (when, s) = tdel d s in
       if when \<noteq> 0 \<and> m' = m then timerset m (tm_twhen (k_tm s (hd (k_timers s m')))) s else s)"

text \<open>
  The interrupt: the loop runs at most \<open>fuel\<close> times, None means that it has not ended by then. The result says
  whether \<^verbatim>\<open>hzclock\<close> is called.
\<close>

fun tloop :: "nat \<Rightarrow> nat \<Rightarrow> int \<Rightarrow> bool \<Rightarrow> Clk \<Rightarrow> (bool, Clk) kres option" where
  "tloop 0 m now hz s = None"
| "tloop (Suc fuel) m now hz s = (case k_timers s m of
     [] \<Rightarrow> Some (Inr (False, s))
   | t # q \<Rightarrow>
       let when = tm_twhen (k_tm s t) in
       if when > now then Some (Inr (hz, timerset m when s))
       else if tm_tt (k_tm s t) \<noteq> Some m then Some (Inl (Panic ''assert''))
       else
         let s = s\<lparr>k_timers := (k_timers s)(m := q), k_tm := (k_tm s)(t := (k_tm s t)\<lparr>tm_tt := None\<rparr>),
                   k_fired := k_fired s @ [(t, when)]\<rparr>;
             hz = (hz \<or> \<not> tm_tf (k_tm s t))
         in if tm_mode (k_tm s t) = Tperiodic then
              (case tadd m now t s of Inl e \<Rightarrow> Some (Inl e) | Inr (_, s) \<Rightarrow> tloop fuel m now hz s)
            else tloop fuel m now hz s)"

definition timerintr :: "nat \<Rightarrow> nat \<Rightarrow> int \<Rightarrow> Clk \<Rightarrow> (bool, Clk) kres option" where
  "timerintr fuel m now s = tloop fuel m now False s"

text \<open>\<^verbatim>\<open>addclock0link\<close>, called on processor \<open>m\<close>; the new timer is \<open>n\<close>.\<close>

definition addclock0link :: "nat \<Rightarrow> int \<Rightarrow> nat \<Rightarrow> int \<Rightarrow> Clk \<Rightarrow> (unit, Clk) kres" where
  "addclock0link m now n ms s =
     (let ms = (if ms = 0 then 1000 div sint HZ else ms);
          s = s\<lparr>k_tm := (k_tm s)(n := \<lparr>tm_mode = Tperiodic, tm_tns = ms * 1000000, tm_twhen = 0, tm_tt = None, tm_tf = True\<rparr>)\<rparr>
      in kbind (tadd 0 now n s) (\<lambda>when s. Inr ((), if when \<noteq> 0 then timerset m when s else s)))"

definition tk2ms :: "ulong \<Rightarrow> ulong" where
  "tk2ms ticks = ucast (ucast ticks * 1000 div (ucast HZ :: uvlong))"

definition ms2tk :: "ulong \<Rightarrow> ulong" where
  "ms2tk ms = (if ms \<ge> 1000000000 div HZ then (ms div 1000) * HZ else (ms * HZ + 500) div 1000)"

section \<open>Alarms\<close>

text \<open>
  \<open>a_note\<close> records the notes posted; \<open>a_debug p\<close> says whether the debug lock of process \<open>p\<close> can be
  taken.
\<close>

record Alarms =
  a_head :: "nat list"
  a_alarm :: "nat \<Rightarrow> ulong"
  a_note :: "nat list"

definition procalarm :: "ulong \<Rightarrow> nat \<Rightarrow> ulong \<Rightarrow> Alarms \<Rightarrow> ulong \<times> Alarms" where
  "procalarm systicks up time s =
     (let old = (if a_alarm s up \<noteq> 0 then tk2ms (a_alarm s up - systicks) else 0) in
      if time = 0 then (old, s\<lparr>a_alarm := (a_alarm s)(up := 0)\<rparr>)
      else
        let when = ms2tk time + systicks;
            l = remove1 up (a_head s);
            l = insby (a_alarm s) when up l
        in (old, s\<lparr>a_head := l, a_alarm := (a_alarm s)(up := when)\<rparr>))"

text \<open>One turn of \<^verbatim>\<open>alarmkproc\<close>.\<close>

fun alarmloop :: "(nat \<Rightarrow> bool) \<Rightarrow> ulong \<Rightarrow> nat list \<Rightarrow> Alarms \<Rightarrow> Alarms" where
  "alarmloop debug now [] s = s\<lparr>a_head := []\<rparr>"
| "alarmloop debug now (rp # l) s =
     (if a_alarm s rp \<le> now then
        if a_alarm s rp \<noteq> 0 then
          if debug rp then alarmloop debug now l (s\<lparr>a_note := a_note s @ [rp], a_alarm := (a_alarm s)(rp := 0)\<rparr>)
          else s\<lparr>a_head := rp # l\<rparr>
        else alarmloop debug now l s
      else s\<lparr>a_head := rp # l\<rparr>)"

definition alarmkproc :: "(nat \<Rightarrow> bool) \<Rightarrow> ulong \<Rightarrow> Alarms \<Rightarrow> Alarms" where
  "alarmkproc debug now s = alarmloop debug now (a_head s) s"

definition checkalarms :: "ulong \<Rightarrow> Alarms \<Rightarrow> bool" where
  "checkalarms now s = (case a_head s of [] \<Rightarrow> False | p # _ \<Rightarrow> a_alarm s p \<le> now)"


section \<open>Ordered queues\<close>

lemma mset_insby [simp]: "mset (insby key k x xs) = add_mset x (mset xs)"
  by (induction xs) auto

lemma set_insby [simp]: "set (insby key k x xs) = insert x (set xs)"
  by (induction xs) auto

lemma distinct_insby [simp]: "distinct (insby key k x xs) \<longleftrightarrow> x \<notin> set xs \<and> distinct xs"
  by (induction xs) auto

lemma insby_cong: "\<forall>y \<in> set xs. key' y = key y \<Longrightarrow> insby key k x xs = insby key' k x xs"
  by (induction xs) auto

lemma insby_sorted1: "sorted (map key xs) \<Longrightarrow> sorted (map key (insby key (key x) x xs))"
  by (induction xs) (auto simp: less_imp_le order_trans)

lemma insby_sorted:
  assumes "sorted (map key xs)" "\<forall>y \<in> set xs. key' y = key y"
  shows "sorted (map key' (insby key (key' x) x xs))"
proof -
  have "map key' xs = map key xs" using assms(2) by simp
  then have "sorted (map key' xs)" using assms(1) by (simp only:)
  then show ?thesis unfolding insby_cong [OF assms(2)] by (rule insby_sorted1)
qed

lemma insby_hd: "hd (insby key k x xs) = x \<or> xs \<noteq> [] \<and> hd (insby key k x xs) = hd xs \<and> key (hd xs) \<le> k"
  by (cases xs) auto

lemma insby_nonempty [simp]: "insby key k x xs \<noteq> []"
  by (cases xs) auto

section \<open>The invariant of the timer queues\<close>

abbreviation due :: "Clk \<Rightarrow> nat \<Rightarrow> int" where "due s t \<equiv> tm_twhen (k_tm s t)"

definition okperiod :: "Clk \<Rightarrow> Timer \<Rightarrow> bool" where
  "okperiod s t \<longleftrightarrow> tm_mode t = Tperiodic \<and> 100000 \<le> tm_tns t \<and> 0 \<le> nsticks (k_tod s) (tm_tns t)"

definition okq :: "Clk \<Rightarrow> nat \<Rightarrow> bool" where
  "okq s m \<longleftrightarrow> sorted (map (due s) (k_timers s m)) \<and> distinct (k_timers s m) \<and>
     (\<forall>t \<in> set (k_timers s m). 0 < due s t \<and> (tm_mode (k_tm s t) = Trelative \<or> okperiod s (k_tm s t)))"

definition tinv :: "Clk \<Rightarrow> bool" where
  "tinv s \<longleftrightarrow> (\<forall>m. okq s m) \<and> (\<forall>m t. t \<in> set (k_timers s m) \<longleftrightarrow> tm_tt (k_tm s t) = Some m)"

text \<open>The clock of the processor is programmed for a time no later than its first timer.\<close>

definition armed :: "nat \<Rightarrow> Clk \<Rightarrow> bool" where
  "armed m s \<longleftrightarrow> k_timers s m = [] \<or> k_set s m \<le> due s (hd (k_timers s m))"

text \<open>A timer that may be added.\<close>

definition okt :: "Clk \<Rightarrow> Timer \<Rightarrow> bool" where
  "okt s t \<longleftrightarrow> tm_mode t = Trelative \<and> 0 \<le> nsticks (k_tod s) (max 1 (tm_tns t)) \<or> okperiod s t \<and> 0 \<le> tm_twhen t"

lemma tdue_ok:
  assumes "tinv s" "okt s nt" "0 < now"
  shows "\<exists>nt'. tdue m now nt s = Inr nt' \<and> 0 < tm_twhen nt' \<and> tm_tf nt' = tm_tf nt \<and>
    (tm_mode nt' = Trelative \<or> okperiod s nt' \<and> tm_twhen nt < tm_twhen nt') \<and> tm_mode nt' = tm_mode nt"
proof (cases "tm_mode nt")
  case Trelative
  then show ?thesis using assms by (auto simp: tdue_def Let_def okt_def okperiod_def max_def split: if_splits)
next
  case Tperiodic
  then have p: "okperiod s nt" "0 \<le> tm_twhen nt" using assms(2) by (auto simp: okt_def)
  define w where "w = (case find (\<lambda>t. tm_mode (k_tm s t) = Tperiodic \<and> tm_tns (k_tm s t) = tm_tns nt) (k_timers s m) of
      Some t \<Rightarrow> due s t | None \<Rightarrow> now)"
  have "0 < w"
  proof (cases "find (\<lambda>t. tm_mode (k_tm s t) = Tperiodic \<and> tm_tns (k_tm s t) = tm_tns nt) (k_timers s m)")
    case None
    then show ?thesis using assms(3) by (simp add: w_def)
  next
    case (Some t)
    then have "t \<in> set (k_timers s m)" by (auto simp: find_Some_iff)
    then show ?thesis using Some assms(1) by (auto simp: w_def tinv_def okq_def)
  qed
  then show ?thesis using p Tperiodic by (simp add: tdue_def Let_def w_def [symmetric] okperiod_def)
next
  case Tother
  then show ?thesis using assms by (auto simp: okt_def okperiod_def)
qed

lemma tadd_ok:
  assumes "tinv s" "okt s (k_tm s n)" "0 < now" "tm_tt (k_tm s n) = None"
  obtains w s' where "tadd m now n s = Inr (w, s')" "tinv s'" "k_set s' = k_set s" "k_fired s' = k_fired s" "k_tod s' = k_tod s"
    "set (k_timers s' m) = insert n (set (k_timers s m))" "\<And>j. j \<noteq> m \<Longrightarrow> k_timers s' j = k_timers s j"
    "\<And>t. t \<noteq> n \<Longrightarrow> k_tm s' t = k_tm s t" "w = (if hd (k_timers s' m) = n then due s' n else 0)"
    "hd (k_timers s' m) = n \<or> k_timers s m \<noteq> [] \<and> hd (k_timers s' m) = hd (k_timers s m)" "0 < due s' n"
    "tm_mode (k_tm s n) = Tperiodic \<Longrightarrow> due s n < due s' n" "mset (k_timers s' m) = add_mset n (mset (k_timers s m))"
proof -
  obtain nt where nt: "tdue m now (k_tm s n) s = Inr nt" "0 < tm_twhen nt" "tm_tf nt = tm_tf (k_tm s n)"
      "tm_mode nt = Trelative \<or> okperiod s nt \<and> due s n < tm_twhen nt" "tm_mode nt = tm_mode (k_tm s n)"
    using tdue_ok [OF assms(1-3)] by blast
  define q where "q = insby (due s) (tm_twhen nt) n (k_timers s m)"
  define s' where "s' = s\<lparr>k_timers := (k_timers s)(m := q), k_tm := (k_tm s)(n := nt\<lparr>tm_tt := Some m\<rparr>)\<rparr>"
  have e: "tadd m now n s = Inr (if hd q = n then tm_twhen nt else 0, s')"
    using assms(4) nt(1) by (simp add: tadd_def q_def s'_def Let_def)
  have notin: "n \<notin> set (k_timers s j)" for j using assms(1,4) by (auto simp: tinv_def)
  have same: "k_timers s' j = k_timers s j" if "j \<noteq> m" for j using that by (simp add: s'_def)
  have other: "k_tm s' t = k_tm s t" if "t \<noteq> n" for t using that by (simp add: s'_def)
  have qm: "k_timers s' m = q" "k_tm s' n = nt\<lparr>tm_tt := Some m\<rparr>" by (simp_all add: s'_def)
  have per: "okperiod s' t = okperiod s t" "okperiod s (t\<lparr>tm_tt := j\<rparr>) = okperiod s t" for t j by (simp_all add: okperiod_def s'_def)
  have old: "okq s j" for j using assms(1) by (simp add: tinv_def)
  have "okq s' j" for j
  proof (cases "j = m")
    case True
    have "sorted (map (due s') q)"
    proof -
      have "\<forall>t \<in> set (k_timers s m). due s' t = due s t" using notin [of m] other by metis
      then have "sorted (map (due s') (insby (due s) (due s' n) n (k_timers s m)))" using old [of m] by (intro insby_sorted) (auto simp: okq_def)
      then show ?thesis by (simp add: q_def qm(2))
    qed
    moreover have "distinct q" using old [of m] notin [of m] by (simp add: q_def okq_def)
    moreover have "0 < due s' t \<and> (tm_mode (k_tm s' t) = Trelative \<or> okperiod s' (k_tm s' t))" if "t \<in> set q" for t
      using that old [of m] nt(2,4) other qm(2) per by (cases "t = n") (auto simp: q_def okq_def)
    ultimately show ?thesis using True qm(1) by (simp add: okq_def)
  next
    case False
    have "due s' t = due s t \<and> k_tm s' t = k_tm s t" if "t \<in> set (k_timers s j)" for t using that notin [of j] other by metis
    then show ?thesis using old [of j] same [OF False] per(1) by (simp add: okq_def cong: map_cong)
  qed
  moreover have "t \<in> set (k_timers s' j) \<longleftrightarrow> tm_tt (k_tm s' t) = Some j" for t j
    using assms(1) notin [of j] by (cases "j = m"; cases "t = n") (auto simp: s'_def q_def tinv_def)
  ultimately have inv: "tinv s'" by (simp add: tinv_def)
  show ?thesis
  proof (rule that [OF e inv])
    show "k_set s' = k_set s" "k_fired s' = k_fired s" "k_tod s' = k_tod s" by (simp_all add: s'_def)
    show "set (k_timers s' m) = insert n (set (k_timers s m))" "mset (k_timers s' m) = add_mset n (mset (k_timers s m))" by (simp_all add: qm q_def)
    show "(if hd q = n then tm_twhen nt else 0) = (if hd (k_timers s' m) = n then due s' n else 0)" "0 < due s' n" using nt(2) by (simp_all add: qm)
    show "hd (k_timers s' m) = n \<or> k_timers s m \<noteq> [] \<and> hd (k_timers s' m) = hd (k_timers s m)"
      using insby_hd [of "due s" "tm_twhen nt" n "k_timers s m"] by (auto simp: qm q_def)
    show "due s n < due s' n" if "tm_mode (k_tm s n) = Tperiodic" using that nt(4,5) by (simp add: qm)
  qed (use same other in auto)
qed

lemma tdel_ok:
  assumes "tinv s" "tm_tt (k_tm s d) = Some m"
  obtains w s' where "tdel d s = (w, s')" "tinv s'" "k_set s' = k_set s" "k_tod s' = k_tod s" "tm_tt (k_tm s' d) = None"
    "k_timers s' m = remove1 d (k_timers s m)" "\<And>j. j \<noteq> m \<Longrightarrow> k_timers s' j = k_timers s j"
    "\<And>t. due s' t = due s t" "\<And>t. t \<noteq> d \<Longrightarrow> k_tm s' t = k_tm s t" "k_tm s' d = (k_tm s d)\<lparr>tm_tt := None\<rparr>"
    "w = (if hd (k_timers s m) = d \<and> remove1 d (k_timers s m) \<noteq> [] then due s (hd (remove1 d (k_timers s m))) else 0)"
proof -
  define q where "q = remove1 d (k_timers s m)"
  define s' where "s' = s\<lparr>k_timers := (k_timers s)(m := q), k_tm := (k_tm s)(d := (k_tm s d)\<lparr>tm_tt := None\<rparr>)\<rparr>"
  have mem: "\<And>t j. t \<in> set (k_timers s j) \<longleftrightarrow> tm_tt (k_tm s t) = Some j" using assms(1) by (simp add: tinv_def)
  have old: "okq s j" for j using assms(1) by (simp add: tinv_def)
  then have dist: "distinct (k_timers s j)" for j by (simp add: okq_def)
  have due: "due s' t = due s t" for t by (simp add: s'_def)
  have e: "tdel d s = (if hd (k_timers s m) = d \<and> q \<noteq> [] then due s (hd q) else 0, s')"
    using assms(2) mem by (simp add: tdel_def Let_def q_def s'_def)
  have "okq s' j" for j
  proof (cases "j = m")
    case True
    have "sorted (map (due s) q)" using old [of m] by (auto simp: okq_def q_def intro: sorted_map_remove1)
    then have "sorted (map (due s') q)" by (simp only: due)
    moreover have "k_timers s' m = q" "distinct q" using dist [of m] by (simp_all add: s'_def q_def)
    moreover have "0 < due s' t \<and> (tm_mode (k_tm s' t) = Trelative \<or> okperiod s' (k_tm s' t))" if "t \<in> set q" for t
      using old [of m] that set_remove1_subset [of d "k_timers s m"] by (auto simp: okq_def s'_def q_def okperiod_def)
    ultimately show ?thesis using True by (simp add: okq_def)
  next
    case False
    then have "d \<notin> set (k_timers s j)" using assms(2) mem by auto
    then have "okq s' j \<longleftrightarrow> okq s j" using False unfolding okq_def due by (auto simp: s'_def okperiod_def)
    then show ?thesis using old by simp
  qed
  moreover have "t \<in> set (k_timers s' j) \<longleftrightarrow> tm_tt (k_tm s' t) = Some j" for t j
    using mem assms(2) dist by (cases "j = m"; cases "t = d") (auto simp: s'_def q_def)
  ultimately have "tinv s'" by (simp add: tinv_def)
  then show ?thesis by (rule that [OF e]) (simp_all add: s'_def q_def)
qed


lemma hd_due_le:
  assumes "tinv s" "t \<in> set (k_timers s m)"
  shows "due s (hd (k_timers s m)) \<le> due s t"
proof -
  have "sorted (map (due s) (k_timers s m))" using assms(1) by (simp add: tinv_def okq_def)
  then show ?thesis using assms(2) by (cases "k_timers s m") auto
qed

lemma tdel_armed:
  assumes "tinv s" "tm_tt (k_tm s d) = Some m" "armed j s"
  shows "armed j (snd (tdel d s))"
proof -
  obtain w s' where d: "tdel d s = (w, s')" "k_set s' = k_set s" "k_timers s' m = remove1 d (k_timers s m)"
      "\<And>j. j \<noteq> m \<Longrightarrow> k_timers s' j = k_timers s j" "\<And>t. due s' t = due s t" using tdel_ok [OF assms(1,2)] by metis
  show ?thesis
  proof (cases "j = m")
    case True
    show ?thesis
    proof (cases "k_timers s' m = []")
      case False
      then have "hd (k_timers s' m) \<in> set (k_timers s m)" using hd_in_set [OF False] d(3) set_remove1_subset [of d "k_timers s m"] by auto
      then have "due s (hd (k_timers s m)) \<le> due s (hd (k_timers s' m))" "k_timers s m \<noteq> []" using hd_due_le [OF assms(1)] by auto
      then show ?thesis using assms(3) True d by (simp add: armed_def)
    qed (simp add: armed_def True d(1))
  qed (use assms(3) d in \<open>simp add: armed_def\<close>)
qed

lemma tadd_armed:
  assumes "tinv s" "okt s (k_tm s n)" "0 < now" "tm_tt (k_tm s n) = None"
  shows "\<exists>w s'. tadd m now n s = Inr (w, s') \<and> tinv s' \<and> n \<in> set (k_timers s' m) \<and>
    (\<forall>j. armed j s \<longrightarrow> armed j (if w \<noteq> 0 then timerset m w s' else s'))"
proof -
  from tadd_ok [OF assms, of m] obtain w s' where a: "tadd m now n s = Inr (w, s')" "tinv s'" "k_set s' = k_set s"
    "set (k_timers s' m) = insert n (set (k_timers s m))" "\<And>j. j \<noteq> m \<Longrightarrow> k_timers s' j = k_timers s j"
    "\<And>t. t \<noteq> n \<Longrightarrow> k_tm s' t = k_tm s t" "w = (if hd (k_timers s' m) = n then due s' n else 0)"
    "hd (k_timers s' m) = n \<or> k_timers s m \<noteq> [] \<and> hd (k_timers s' m) = hd (k_timers s m)" "0 < due s' n"
    by metis
  have "armed j (if w \<noteq> 0 then timerset m w s' else s')" if "armed j s" for j
  proof (cases "j = m")
    case True
    show ?thesis
    proof (cases "hd (k_timers s' m) = n")
      case True
      then show ?thesis using \<open>j = m\<close> a(7,9) by (simp add: armed_def timerset_def)
    next
      case False
      then have "hd (k_timers s' m) = hd (k_timers s m)" "hd (k_timers s m) \<noteq> n" "k_timers s m \<noteq> []" using a(8) by auto
      then show ?thesis using that \<open>j = m\<close> a(3,6,7) False by (simp add: armed_def)
    qed
  next
    case False
    have "n \<notin> set (k_timers s j)" using assms(1,4) by (auto simp: tinv_def)
    then have "k_timers s j = [] \<or> hd (k_timers s j) \<noteq> n" using hd_in_set by metis
    then show ?thesis using that False a(3,5,6) by (auto simp: armed_def timerset_def)
  qed
  then show ?thesis using a by auto
qed

lemma timeradd_ok:
  assumes "tinv s" "okt s (k_tm s n)" "0 < now"
  shows "\<exists>s'. timeradd m now n s = Inr ((), s') \<and> tinv s' \<and> n \<in> set (k_timers s' m) \<and> (\<forall>j. armed j s \<longrightarrow> armed j s')"
proof -
  define t where "t = (if tm_tt (k_tm s n) \<noteq> None then snd (tdel n s) else s)"
  have t: "tinv t \<and> tm_tt (k_tm t n) = None \<and> okt t (k_tm t n) \<and> (\<forall>j. armed j s \<longrightarrow> armed j t)"
  proof (cases "tm_tt (k_tm s n)")
    case None
    then show ?thesis using assms by (simp add: t_def)
  next
    case (Some m')
    obtain w s' where d: "tdel n s = (w, s')" "tinv s'" "k_tod s' = k_tod s" "tm_tt (k_tm s' n) = None" "k_tm s' n = (k_tm s n)\<lparr>tm_tt := None\<rparr>"
      using tdel_ok [OF assms(1) Some] by metis
    have "okt s' (k_tm s' n)" using assms(2) d(3,5) by (simp add: okt_def okperiod_def)
    then show ?thesis using d Some tdel_armed [OF assms(1) Some] by (simp add: t_def)
  qed
  then have t1: "tinv t" "okt t (k_tm t n)" "tm_tt (k_tm t n) = None" by blast+
  from tadd_armed [OF t1(1,2) assms(3) t1(3), of m] obtain w s' where
    a: "tadd m now n t = Inr (w, s')" "tinv s'" "n \<in> set (k_timers s' m)"
      "\<forall>j. armed j t \<longrightarrow> armed j (if w \<noteq> 0 then timerset m w s' else s')"
    by (elim exE conjE) (rule that)
  have ti: "tinv (timerset m w s') = tinv s'" "k_timers (timerset m w s') = k_timers s'"
    by (simp_all add: tinv_def okq_def okperiod_def timerset_def)
  have "timeradd m now n s = Inr ((), if w \<noteq> 0 then timerset m w s' else s')"
    unfolding timeradd_def Let_def t_def [symmetric] by (simp add: a(1))
  then show ?thesis using a t ti by (intro exI [of _ "if w \<noteq> 0 then timerset m w s' else s'"]) auto
qed

lemma timerdel_ok:
  assumes "tinv s"
  shows "tinv (timerdel m d s) \<and> (\<forall>j. d \<notin> set (k_timers (timerdel m d s) j)) \<and> (\<forall>j. armed j s \<longrightarrow> armed j (timerdel m d s))"
proof (cases "tm_tt (k_tm s d)")
  case None
  then show ?thesis using assms by (auto simp: timerdel_def tinv_def)
next
  case (Some m')
  obtain w s' where t: "tdel d s = (w, s')" "tinv s'" "tm_tt (k_tm s' d) = None" using tdel_ok [OF assms Some] by metis
  have ti: "tinv (timerset m x s') = tinv s'" "k_timers (timerset m x s') = k_timers s'" for x
    by (simp_all add: tinv_def okq_def okperiod_def timerset_def)
  have e: "timerdel m d s = (if w \<noteq> 0 \<and> m' = m then timerset m (due s' (hd (k_timers s' m'))) s' else s')"
    using Some t(1) by (simp add: timerdel_def)
  have "d \<notin> set (k_timers s' j)" for j using t(2,3) by (auto simp: tinv_def)
  moreover have "armed j (timerdel m d s)" if "armed j s" for j
    using tdel_armed [OF assms Some that] t(1) by (auto simp: e armed_def timerset_def)
  ultimately show ?thesis using t ti by (auto simp: e)
qed


section \<open>The clock interrupt\<close>

definition popped :: "nat \<Rightarrow> nat \<Rightarrow> nat list \<Rightarrow> Clk \<Rightarrow> Clk" where
  "popped m t q s = s\<lparr>k_timers := (k_timers s)(m := q), k_tm := (k_tm s)(t := (k_tm s t)\<lparr>tm_tt := None\<rparr>),
     k_fired := k_fired s @ [(t, due s t)]\<rparr>"

lemma popped_ok:
  assumes "tinv s" "k_timers s m = t # q"
  shows "tinv (popped m t q s)" "k_timers (popped m t q s) m = q" "\<And>u. due (popped m t q s) u = due s u" "tm_tt (k_tm s t) = Some m"
    "tm_tt (k_tm (popped m t q s) t) = None" "tm_mode (k_tm (popped m t q s) t) = tm_mode (k_tm s t)"
    "tm_mode (k_tm s t) = Tperiodic \<Longrightarrow> okt (popped m t q s) (k_tm (popped m t q s) t)" "t \<notin> set q"
proof -
  have tt: "tm_tt (k_tm s t) = Some m" using assms by (metis list.set_intros(1) tinv_def)
  then show "tm_tt (k_tm s t) = Some m" .
  from tdel_ok [OF assms(1) tt] obtain w s' where s': "tdel t s = (w, s')" "tinv s'" by metis
  have "s' = s\<lparr>k_timers := (k_timers s)(m := q), k_tm := (k_tm s)(t := (k_tm s t)\<lparr>tm_tt := None\<rparr>)\<rparr>"
    using s'(1) tt assms(2) by (simp add: tdel_def Let_def)
  then have "popped m t q s = s'\<lparr>k_fired := k_fired s @ [(t, due s t)]\<rparr>" by (simp add: popped_def)
  then show "tinv (popped m t q s)" using s'(2) by (simp add: tinv_def okq_def okperiod_def)
  have "okq s m" using assms(1) by (simp add: tinv_def)
  then show "tm_mode (k_tm s t) = Tperiodic \<Longrightarrow> okt (popped m t q s) (k_tm (popped m t q s) t)" "t \<notin> set q"
    using assms(2) by (auto simp: okq_def okt_def okperiod_def popped_def)
qed (simp_all add: popped_def)

definition late :: "nat \<Rightarrow> int \<Rightarrow> Clk \<Rightarrow> nat" where
  "late m now s = (\<Sum>t \<in># mset (k_timers s m). nat (now - due s t + 1))"

text \<open>
  One turn of the loop on a timer that is due: what the next turn starts from, with the queue's other timers as they were
  and this one gone, or due later.
\<close>

lemma turn_ok:
  assumes "tinv s" "0 < now" "k_timers s m = t # q" "due s t \<le> now"
  obtains s2 where "\<And>fuel hz. tloop (Suc fuel) m now hz s = tloop fuel m now (hz \<or> \<not> tm_tf (k_tm s t)) s2" "tinv s2"
    "k_fired s2 = k_fired s @ [(t, due s t)]" "late m now s2 < late m now s" "\<And>u. u \<noteq> t \<Longrightarrow> k_tm s2 u = k_tm s u"
    "set q \<subseteq> set (k_timers s2 m)" "set (k_timers s2 m) \<subseteq> insert t (set q)" "t \<in> set (k_timers s2 m) \<Longrightarrow> due s t < due s2 t"
    "\<And>j. j \<noteq> m \<Longrightarrow> k_timers s2 j = k_timers s j" "k_set s2 = k_set s"
proof -
  define s1 where "s1 = popped m t q s"
  note p = popped_ok [OF assms(1,3), folded s1_def]
  have same: "\<And>j. j \<noteq> m \<Longrightarrow> k_timers s1 j = k_timers s j" "k_set s1 = k_set s" "k_fired s1 = k_fired s @ [(t, due s t)]"
    "tm_tf (k_tm s1 t) = tm_tf (k_tm s t)" "\<And>u. u \<noteq> t \<Longrightarrow> k_tm s1 u = k_tm s u" by (simp_all add: s1_def popped_def)
  have l1: "late m now s = nat (now - due s t + 1) + late m now s1" by (simp add: late_def assms(3) p(2,3))
  have e: "tloop (Suc fuel) m now hz s =
      (if tm_mode (k_tm s t) = Tperiodic then
         (case tadd m now t s1 of Inl e \<Rightarrow> Some (Inl e) | Inr (_, u) \<Rightarrow> tloop fuel m now (hz \<or> \<not> tm_tf (k_tm s1 t)) u)
       else tloop fuel m now (hz \<or> \<not> tm_tf (k_tm s1 t)) s1)" for fuel hz
    using assms(3,4) p(4) unfolding s1_def popped_def by (simp add: Let_def)
  show ?thesis
  proof (cases "tm_mode (k_tm s t) = Tperiodic")
    case False
    have "\<And>fuel hz. tloop (Suc fuel) m now hz s = tloop fuel m now (hz \<or> \<not> tm_tf (k_tm s t)) s1" using e False same(4) by simp
    then show ?thesis using p(1) by (rule that) (use l1 p same assms(4) in auto)
  next
    case True
    from tadd_ok [OF p(1) p(7) [OF True] assms(2) p(5), of m] obtain w s2 where
      a: "tadd m now t s1 = Inr (w, s2)" "tinv s2" "k_set s2 = k_set s1" "k_fired s2 = k_fired s1"
      "set (k_timers s2 m) = insert t (set (k_timers s1 m))" "\<And>j. j \<noteq> m \<Longrightarrow> k_timers s2 j = k_timers s1 j"
      "\<And>u. u \<noteq> t \<Longrightarrow> k_tm s2 u = k_tm s1 u" "tm_mode (k_tm s1 t) = Tperiodic \<Longrightarrow> due s1 t < due s2 t"
      "mset (k_timers s2 m) = add_mset t (mset (k_timers s1 m))" by metis
    have later: "due s t < due s2 t" using a(8) p(3,6) True by simp
    have "(\<Sum>u \<in># mset q. nat (now - due s2 u + 1)) = (\<Sum>u \<in># mset q. nat (now - due s1 u + 1))"
    proof -
      have "k_tm s2 u = k_tm s1 u" if "u \<in> set q" for u using a(7) p(8) that by metis
      then show ?thesis by (intro arg_cong [of _ _ sum_mset] image_mset_cong) simp
    qed
    then have "late m now s2 = nat (now - due s2 t + 1) + late m now s1" by (simp add: late_def a(9) p(2))
    then have less: "late m now s2 < late m now s" using l1 later assms(4) by simp
    have step: "\<And>fuel hz. tloop (Suc fuel) m now hz s = tloop fuel m now (hz \<or> \<not> tm_tf (k_tm s t)) s2" using e True a(1) same(4) by simp
    show ?thesis
    proof (rule that [of s2])
      show "\<And>fuel hz. tloop (Suc fuel) m now hz s = tloop fuel m now (hz \<or> \<not> tm_tf (k_tm s t)) s2" by (rule step)
      show "late m now s2 < late m now s" by (rule less)
      show "tinv s2" "k_fired s2 = k_fired s @ [(t, due s t)]" "k_set s2 = k_set s" using a same by simp_all
      show "k_tm s2 u = k_tm s u" if "u \<noteq> t" for u using a(7) [OF that] same(5) [OF that] by simp
      show "k_timers s2 j = k_timers s j" if "j \<noteq> m" for j using a(6) [OF that] same(1) [OF that] by simp
      show "set q \<subseteq> set (k_timers s2 m)" "set (k_timers s2 m) \<subseteq> insert t (set q)" using a(5) p(2) by auto
      show "due s t < due s2 t" by (rule later)
    qed
  qed
qed

lemma tloop_ok:
  assumes "tinv s" "0 < now" "late m now s < fuel"
  shows "\<exists>b s' log. tloop fuel m now hz s = Some (Inr (b, s')) \<and> tinv s' \<and> armed m s' \<and> (\<forall>t \<in> set (k_timers s' m). now < due s' t) \<and>
    (\<forall>j. j \<noteq> m \<longrightarrow> k_timers s' j = k_timers s j \<and> k_set s' j = k_set s j) \<and>
    (\<forall>u. u \<notin> set (k_timers s m) \<longrightarrow> k_tm s' u = k_tm s u) \<and> k_fired s' = k_fired s @ log \<and> sorted (map snd log) \<and> distinct log \<and>
    (\<forall>(t, w) \<in> set log. t \<in> set (k_timers s m) \<and> due s t \<le> w \<and> w \<le> now) \<and>
    (\<forall>t \<in> set (k_timers s m). due s t \<le> now \<longrightarrow> (t, due s t) \<in> set log)"
  using assms
proof (induction fuel arbitrary: s hz)
  case (Suc fuel)
  have later: "now < due s t" if "k_timers s m = u # q" "now < due s u" "t \<in> set (k_timers s m)" for t u q
    using hd_due_le [OF Suc.prems(1) that(3)] that(1,2) by simp
  show ?case
  proof (cases "k_timers s m")
    case Nil
    then show ?thesis using Suc.prems(1) by (auto simp: armed_def)
  next
    case (Cons t q)
    show ?thesis
    proof (cases "now < due s t")
      case True
      have ti: "tinv (timerset m (due s t) s)" using Suc.prems(1) by (simp add: tinv_def okq_def okperiod_def timerset_def)
      have "tloop (Suc fuel) m now hz s = Some (Inr (hz, timerset m (due s t) s))" using Cons True by simp
      moreover have "\<forall>u \<in> set (k_timers s m). now < due s u \<and> \<not> due s u \<le> now" using later [OF Cons True] by fastforce
      ultimately show ?thesis using ti Cons by (auto simp: timerset_def armed_def)
    next
      case False
      then have d: "due s t \<le> now" by simp
      obtain s2 where s2: "\<And>fuel hz. tloop (Suc fuel) m now hz s = tloop fuel m now (hz \<or> \<not> tm_tf (k_tm s t)) s2" "tinv s2"
        "k_fired s2 = k_fired s @ [(t, due s t)]" "late m now s2 < late m now s" "\<And>u. u \<noteq> t \<Longrightarrow> k_tm s2 u = k_tm s u"
        "set q \<subseteq> set (k_timers s2 m)" "set (k_timers s2 m) \<subseteq> insert t (set q)" "t \<in> set (k_timers s2 m) \<Longrightarrow> due s t < due s2 t"
        "\<And>j. j \<noteq> m \<Longrightarrow> k_timers s2 j = k_timers s j" "k_set s2 = k_set s"
        by (rule turn_ok [OF Suc.prems(1,2) Cons d]) (rule that)
      have "late m now s2 < fuel" using s2(4) Suc.prems(3) by simp
      from Suc.IH [OF s2(2) Suc.prems(2) this, of "hz \<or> \<not> tm_tf (k_tm s t)"] obtain b s' log where
        l: "tloop fuel m now (hz \<or> \<not> tm_tf (k_tm s t)) s2 = Some (Inr (b, s'))" "tinv s'" "armed m s'" "\<forall>t \<in> set (k_timers s' m). now < due s' t"
          "\<forall>j. j \<noteq> m \<longrightarrow> k_timers s' j = k_timers s2 j \<and> k_set s' j = k_set s2 j"
          "\<forall>u. u \<notin> set (k_timers s2 m) \<longrightarrow> k_tm s' u = k_tm s2 u" "k_fired s' = k_fired s2 @ log" "sorted (map snd log)" "distinct log"
          "\<forall>(t, w) \<in> set log. t \<in> set (k_timers s2 m) \<and> due s2 t \<le> w \<and> w \<le> now"
          "\<forall>t \<in> set (k_timers s2 m). due s2 t \<le> now \<longrightarrow> (t, due s2 t) \<in> set log"
        by (elim exE conjE) (rule that)
      have low: "due s t \<le> due s u" if "u \<in> set (k_timers s m)" for u using hd_due_le [OF Suc.prems(1) that] Cons by simp
      have entry: "u \<in> set (k_timers s m) \<and> due s u \<le> w \<and> w \<le> now \<and> due s t \<le> w \<and> (u = t \<longrightarrow> due s t < w)" if "(u, w) \<in> set log" for u w
      proof -
        have e: "u \<in> set (k_timers s2 m)" "due s2 u \<le> w" "w \<le> now" using bspec [OF l(10) that] by simp_all
        show ?thesis
        proof (cases "u = t")
          case True
          then show ?thesis using e s2(8) Cons by simp
        next
          case False
          then have "u \<in> set (k_timers s m)" "due s2 u = due s u" using e(1) s2(5,7) Cons by auto
          then show ?thesis using e low [of u] False by simp
        qed
      qed
      define log' where "log' = (t, due s t) # log"
      have a: "sorted (map snd log')" using l(8) entry by (auto simp: log'_def)
      have b: "distinct log'" using l(9) entry by (auto simp: log'_def)
      have c: "\<forall>(t, w) \<in> set log'. t \<in> set (k_timers s m) \<and> due s t \<le> w \<and> w \<le> now" using entry d Cons by (auto simp: log'_def)
      have e1: "(u, due s u) \<in> set log'" if "u \<in> set (k_timers s m)" "due s u \<le> now" for u
      proof (cases "u = t")
        case False
        then have "u \<in> set (k_timers s2 m)" "due s2 u = due s u" using that(1) s2(5,6) Cons by auto
        then show ?thesis using bspec [OF l(11), of u] that(2) by (simp add: log'_def)
      qed (simp add: log'_def)
      have e: "\<forall>u \<in> set (k_timers s m). due s u \<le> now \<longrightarrow> (u, due s u) \<in> set log'" using e1 by blast
      have f: "k_fired s' = k_fired s @ log'" using l(7) s2(3) by (simp add: log'_def)
      have g: "\<forall>j. j \<noteq> m \<longrightarrow> k_timers s' j = k_timers s j \<and> k_set s' j = k_set s j" using l(5) s2(9,10) by simp
      have h: "\<forall>u. u \<notin> set (k_timers s m) \<longrightarrow> k_tm s' u = k_tm s u" using l(6) s2(5,7) Cons by auto
      show ?thesis unfolding s2(1) using l(1-4) a b c e f g h by (intro exI conjI) assumption+
    qed
  qed
qed simp


section \<open>The alarm list\<close>

text \<open>
  The alarms that are set are in the list, in order; a process whose alarm was cancelled (zero) may still be linked
  anywhere.
\<close>

definition alist :: "nat list \<Rightarrow> (nat \<Rightarrow> ulong) \<Rightarrow> bool" where
  "alist l al \<longleftrightarrow> distinct l \<and> sorted (filter (\<lambda>x. x \<noteq> 0) (map al l)) \<and> (\<forall>p. al p \<noteq> 0 \<longrightarrow> p \<in> set l)"

definition ainv :: "Alarms \<Rightarrow> bool" where "ainv s \<longleftrightarrow> alist (a_head s) (a_alarm s)"

lemma filter_remove1_sorted:
  fixes key :: "'a \<Rightarrow> 'k::linorder"
  shows "sorted (filter P (map key l)) \<Longrightarrow> sorted (filter P (map key (remove1 x l)))"
proof (induction l)
  case (Cons a l)
  have "sorted (filter P (map key l))" using Cons.prems by (auto split: if_splits)
  then show ?case using Cons set_remove1_subset [of x l] by (cases "x = a") auto
qed simp

lemma insby_alarm:
  fixes al :: "nat \<Rightarrow> ulong"
  assumes "sorted (filter (\<lambda>x. x \<noteq> 0) (map al l))" "up \<notin> set l"
  shows "sorted (filter (\<lambda>x. x \<noteq> 0) (map (al(up := k)) (insby al k up l)))"
  using assms
proof (induction l)
  case (Cons y ys)
  show ?case
  proof (cases "al y > k")
    case True
    then have "al y \<noteq> 0" by auto
    have m: "map (al(up := k)) (insby al k up (y # ys)) = k # map al (y # ys)" using True Cons.prems(2) by auto
    show ?thesis unfolding m using True \<open>al y \<noteq> 0\<close> Cons.prems(1) by (auto simp: less_imp_le order_trans)
  next
    case False
    define al' where "al' = al(up := k)"
    have "sorted (filter (\<lambda>x. x \<noteq> 0) (map al ys))" "up \<notin> set ys" using Cons.prems by (auto split: if_splits)
    then have "sorted (filter (\<lambda>x. x \<noteq> 0) (map al' (insby al k up ys)))" using Cons.IH unfolding al'_def by blast
    moreover have "al' y \<le> al' z" if "al' y \<noteq> 0" "z \<in> set (insby al k up ys)" "al' z \<noteq> 0" for z
      using that False Cons.prems by (auto simp: al'_def split: if_splits)
    ultimately show ?thesis unfolding al'_def [symmetric] using False by auto
  qed
qed simp

lemma procalarm_ok:
  assumes "ainv s"
  shows "ainv (snd (procalarm systicks up time s))" "a_note (snd (procalarm systicks up time s)) = a_note s"
    "a_alarm (snd (procalarm systicks up time s)) = (a_alarm s)(up := if time = 0 then 0 else ms2tk time + systicks)"
proof -
  have a: "distinct (a_head s)" "sorted (filter (\<lambda>x. x \<noteq> 0) (map (a_alarm s) (a_head s)))" "\<And>p. a_alarm s p \<noteq> 0 \<Longrightarrow> p \<in> set (a_head s)"
    using assms by (auto simp: ainv_def alist_def)
  show "ainv (snd (procalarm systicks up time s))"
  proof (cases "time = 0")
    case True
    have "sorted (filter (\<lambda>x. x \<noteq> 0) (map ((a_alarm s)(up := 0)) l))" if "sorted (filter (\<lambda>x. x \<noteq> 0) (map (a_alarm s) l))" for l
      using that by (induction l) (auto split: if_splits)
    then show ?thesis using True a by (auto simp: procalarm_def Let_def ainv_def alist_def)
  next
    case False
    let ?l = "remove1 up (a_head s)"
    have "up \<notin> set ?l" "distinct ?l" using a(1) by simp_all
    moreover have "sorted (filter (\<lambda>x. x \<noteq> 0) (map (a_alarm s) ?l))" by (rule filter_remove1_sorted [OF a(2)])
    ultimately show ?thesis using False insby_alarm [of "a_alarm s" ?l up "ms2tk time + systicks"] a(1,3)
      by (auto simp: procalarm_def Let_def ainv_def alist_def)
  qed
qed (simp_all add: procalarm_def Let_def)

lemma alarmloop_ok:
  assumes "alist l (a_alarm s)"
  shows "\<exists>log. ainv (alarmloop debug now l s) \<and> a_note (alarmloop debug now l s) = a_note s @ log \<and> distinct log \<and>
    (\<forall>p \<in> set log. 0 < a_alarm s p \<and> a_alarm s p \<le> now) \<and>
    (\<forall>p. a_alarm (alarmloop debug now l s) p = (if p \<in> set log then 0 else a_alarm s p)) \<and>
    ((\<forall>p. debug p) \<longrightarrow> (\<forall>p. 0 < a_alarm s p \<and> a_alarm s p \<le> now \<longrightarrow> p \<in> set log))"
  using assms
proof (induction l arbitrary: s)
  case Nil
  then show ?case by (auto simp: ainv_def alist_def)
next
  case (Cons rp l)
  have nz: "0 < x \<longleftrightarrow> x \<noteq> 0" for x :: ulong by (simp add: word_gt_0)
  have tl: "distinct l" "rp \<notin> set l" "sorted (filter (\<lambda>x. x \<noteq> 0) (map (a_alarm s) l))" "\<And>p. a_alarm s p \<noteq> 0 \<Longrightarrow> p = rp \<or> p \<in> set l"
    using Cons.prems by (auto simp: alist_def split: if_splits)
  have ge: "a_alarm s rp \<le> a_alarm s p" if "a_alarm s rp \<noteq> 0" "a_alarm s p \<noteq> 0" for p
    using Cons.prems that tl(4) [OF that(2)] by (auto simp: alist_def)
  consider "now < a_alarm s rp" | "a_alarm s rp = 0" | "a_alarm s rp \<noteq> 0" "a_alarm s rp \<le> now" "\<not> debug rp"
    | "a_alarm s rp \<noteq> 0" "a_alarm s rp \<le> now" "debug rp" by fastforce
  then show ?case
  proof cases
    case 1
    then have "a_alarm s rp \<noteq> 0" by auto
    then have "\<not> (0 < a_alarm s p \<and> a_alarm s p \<le> now)" for p using ge [of p] 1 by (auto simp: nz)
    then show ?thesis using 1 Cons.prems by (intro exI [of _ "[]"]) (auto simp: ainv_def)
  next
    case 2
    have "alist l (a_alarm s)" using tl 2 by (auto simp: alist_def)
    then show ?thesis using Cons.IH [of s] 2 by simp
  next
    case 3
    then show ?thesis using Cons.prems by (intro exI [of _ "[]"]) (auto simp: ainv_def)
  next
    case 4
    define t where "t = s\<lparr>a_note := a_note s @ [rp], a_alarm := (a_alarm s)(rp := 0)\<rparr>"
    have "map (a_alarm t) l = map (a_alarm s) l" using tl(2) by (auto simp: t_def)
    then have "alist l (a_alarm t)" using tl by (auto simp: alist_def t_def)
    from Cons.IH [OF this] obtain log where i: "ainv (alarmloop debug now l t)" "a_note (alarmloop debug now l t) = a_note t @ log"
      "distinct log" "\<forall>p \<in> set log. 0 < a_alarm t p \<and> a_alarm t p \<le> now"
      "\<forall>p. a_alarm (alarmloop debug now l t) p = (if p \<in> set log then 0 else a_alarm t p)"
      "(\<forall>p. debug p) \<longrightarrow> (\<forall>p. 0 < a_alarm t p \<and> a_alarm t p \<le> now \<longrightarrow> p \<in> set log)"
      by (elim exE conjE) (rule that)
    have e: "alarmloop debug now (rp # l) s = alarmloop debug now l t" using 4 by (simp add: t_def)
    have rp: "a_alarm t rp = 0" "\<And>p. p \<noteq> rp \<Longrightarrow> a_alarm t p = a_alarm s p" by (simp_all add: t_def)
    show ?thesis unfolding e
    proof (intro exI conjI ballI allI impI)
      show "ainv (alarmloop debug now l t)" by (rule i(1))
      show "a_note (alarmloop debug now l t) = a_note s @ (rp # log)" using i(2) by (simp add: t_def)
      show "distinct (rp # log)" using i(3,4) rp(1) by auto
      show "0 < a_alarm s p" "a_alarm s p \<le> now" if "p \<in> set (rp # log)" for p
        using that 4 i(4) rp by (auto simp: nz) metis+
      show "a_alarm (alarmloop debug now l t) p = (if p \<in> set (rp # log) then 0 else a_alarm s p)" for p
        using i(5) rp by auto
      show "p \<in> set (rp # log)" if "\<forall>p. debug p" "0 < a_alarm s p \<and> a_alarm s p \<le> now" for p
        using i(6) that rp(2) [of p] by (cases "p = rp") auto
    qed
  qed
qed


text \<open>
  Which processes a turn notifies: in the order of the list, those whose alarm is due, up to the first that is not due or
  whose process is locked.
\<close>

definition turned :: "(nat \<Rightarrow> bool) \<Rightarrow> ulong \<Rightarrow> nat list \<Rightarrow> (nat \<Rightarrow> ulong) \<Rightarrow> nat list" where
  "turned debug now l al = takeWhile (\<lambda>p. al p \<le> now \<and> debug p) (filter (\<lambda>p. al p \<noteq> 0) l)"

lemma turned_cong: "\<forall>p \<in> set l. al' p = al p \<Longrightarrow> turned debug now l al' = turned debug now l al"
  by (induction l) (auto simp: turned_def)

lemma turned_sub: "set (turned debug now l al) \<subseteq> set l"
  by (auto simp: turned_def dest: set_takeWhileD)

lemma alarmloop_turn:
  assumes "distinct l"
  shows "a_note (alarmloop debug now l s) = a_note s @ turned debug now l (a_alarm s) \<and>
    a_alarm (alarmloop debug now l s) = (\<lambda>p. if p \<in> set (turned debug now l (a_alarm s)) then 0 else a_alarm s p)"
  using assms
proof (induction l arbitrary: s)
  case Nil
  then show ?case by (simp add: turned_def)
next
  case (Cons rp l)
  consider (skip) "a_alarm s rp = 0" | (stop) "a_alarm s rp \<noteq> 0" "\<not> (a_alarm s rp \<le> now \<and> debug rp)"
    | (go) "a_alarm s rp \<noteq> 0" "a_alarm s rp \<le> now" "debug rp" by blast
  then show ?case
  proof cases
    case skip
    then show ?thesis using Cons by (simp add: turned_def)
  next
    case stop
    then show ?thesis by (auto simp: turned_def)
  next
    case go
    define t where "t = s\<lparr>a_note := a_note s @ [rp], a_alarm := (a_alarm s)(rp := 0)\<rparr>"
    have "rp \<notin> set l" using Cons.prems by simp
    then have e: "turned debug now l (a_alarm t) = turned debug now l (a_alarm s)" by (intro turned_cong) (auto simp: t_def)
    have l: "alarmloop debug now (rp # l) s = alarmloop debug now l t" using go by (simp add: t_def)
    have c: "turned debug now (rp # l) (a_alarm s) = rp # turned debug now l (a_alarm s)" using go by (simp add: turned_def)
    have n: "a_note t = a_note s @ [rp]" and al: "\<And>p. a_alarm t p = (if p = rp then 0 else a_alarm s p)" by (simp_all add: t_def)
    have "distinct l" using Cons.prems by simp
    from Cons.IH [OF this, of t, unfolded e] show ?thesis
      unfolding l c by (auto simp: n al fun_eq_iff)
  qed
qed

section \<open>Reachable states\<close>

text \<open>
  What the processors do with the timers: add, delete, the clock interrupt, a link to clock 0, a change of the
  frequency by \<^verbatim>\<open>todsetfreq\<close> under which the periods still have a tick count, and the owner of an idle timer
  setting it up. \<open>far\<close> admits links to clock 0 that are made on another processor. All queues are empty at the start.
\<close>

inductive treach :: "bool \<Rightarrow> Clk \<Rightarrow> bool" for far where
  TInit: "(\<And>m. k_timers s m = []) \<Longrightarrow> (\<And>t. tm_tt (k_tm s t) = None) \<Longrightarrow> treach far s"
| TAdd: "treach far s \<Longrightarrow> okt s (k_tm s n) \<Longrightarrow> 0 < now \<Longrightarrow> timeradd m now n s = Inr ((), s') \<Longrightarrow> treach far s'"
| TDel: "treach far s \<Longrightarrow> treach far (timerdel m d s)"
| TIntr: "treach far s \<Longrightarrow> 0 < now \<Longrightarrow> timerintr fuel m now s = Some (Inr (b, s')) \<Longrightarrow> treach far s'"
| TLink: "treach far s \<Longrightarrow> tm_tt (k_tm s n) = None \<Longrightarrow> 0 \<le> ms \<Longrightarrow>
    0 \<le> nsticks (k_tod s) ((if ms = 0 then 10 else ms) * 1000000) \<Longrightarrow> 0 < now \<Longrightarrow> m = 0 \<or> far \<Longrightarrow>
    addclock0link m now n ms s = Inr ((), s') \<Longrightarrow> treach far s'"
| TFreq: "treach far s \<Longrightarrow> todsetfreq f (k_tod s) = Inr ((), tod) \<Longrightarrow>
    (\<And>m t. t \<in> set (k_timers s m) \<Longrightarrow> tm_mode (k_tm s t) = Tperiodic \<Longrightarrow> 0 \<le> nsticks tod (tm_tns (k_tm s t))) \<Longrightarrow>
    treach far (s\<lparr>k_tod := tod\<rparr>)"
| TSet: "treach far s \<Longrightarrow> tm_tt (k_tm s n) = None \<Longrightarrow> tm_tt t = None \<Longrightarrow> treach far (s\<lparr>k_tm := (k_tm s)(n := t)\<rparr>)"

lemma tset_ok:
  assumes "tinv s" "tm_tt (k_tm s n) = None" "tm_tt t = None"
  shows "tinv (s\<lparr>k_tm := (k_tm s)(n := t)\<rparr>)" "armed m (s\<lparr>k_tm := (k_tm s)(n := t)\<rparr>) = armed m s"
proof -
  have notin: "n \<notin> set (k_timers s j)" for j using assms(1,2) by (auto simp: tinv_def)
  let ?s = "s\<lparr>k_tm := (k_tm s)(n := t)\<rparr>"
  have same: "k_tm ?s u = k_tm s u" if "u \<in> set (k_timers s j)" for u j using that notin [of j] by auto
  have "okq ?s j = okq s j" for j
    using same [of _ j] by (simp add: okq_def okperiod_def cong: map_cong)
  then show "tinv ?s" using assms by (auto simp: tinv_def)
  have "n \<noteq> hd (k_timers s m)" if "k_timers s m \<noteq> []" using that notin [of m] hd_in_set by metis
  then show "armed m ?s = armed m s" by (auto simp: armed_def)
qed

lemma addclock0link_ok:
  assumes "tinv s" "tm_tt (k_tm s n) = None" "0 \<le> ms" "0 \<le> nsticks (k_tod s) ((if ms = 0 then 10 else ms) * 1000000)" "0 < now"
  shows "\<exists>s'. addclock0link m now n ms s = Inr ((), s') \<and> tinv s' \<and> n \<in> set (k_timers s' 0) \<and>
    (m = 0 \<longrightarrow> (\<forall>j. armed j s \<longrightarrow> armed j s'))"
proof -
  define ms1 where "ms1 = (if ms = 0 then 10 else ms)"
  have ms1: "0 < ms1" "0 \<le> nsticks (k_tod s) (ms1 * 1000000)" using assms(3,4) by (simp_all add: ms1_def)
  define nt where "nt = \<lparr>tm_mode = Tperiodic, tm_tns = ms1 * 1000000, tm_twhen = 0, tm_tt = None, tm_tf = True\<rparr>"
  define t where "t = s\<lparr>k_tm := (k_tm s)(n := nt)\<rparr>"
  have ok: "tinv t" "\<And>j. armed j t = armed j s" unfolding t_def using tset_ok [OF assms(1,2), of nt] by (simp_all add: nt_def)
  have o: "okt t (k_tm t n)" "tm_tt (k_tm t n) = None" using ms1 by (simp_all add: t_def nt_def okt_def okperiod_def)
  from tadd_armed [OF ok(1) o(1) assms(5) o(2), of 0] obtain w s' where
    a: "tadd 0 now n t = Inr (w, s')" "tinv s'" "n \<in> set (k_timers s' 0)" "\<forall>j. armed j t \<longrightarrow> armed j (if w \<noteq> 0 then timerset 0 w s' else s')"
    by (elim exE conjE) (rule that)
  have "(if ms = 0 then 1000 div sint HZ else ms) = ms1" by (simp add: ms1_def HZ_def)
  then have "addclock0link m now n ms s = Inr ((), if w \<noteq> 0 then timerset m w s' else s')"
    using a(1) unfolding addclock0link_def Let_def by (simp only: nt_def [symmetric] t_def [symmetric]) simp
  moreover have "tinv (timerset m w s') = tinv s'" "k_timers (timerset m w s') = k_timers s'" for m
    by (simp_all add: tinv_def okq_def okperiod_def timerset_def)
  ultimately show ?thesis using a ok(2) by (intro exI [of _ "if w \<noteq> 0 then timerset m w s' else s'"]) auto
qed

lemma tfreq_ok:
  assumes "tinv s" "\<And>m t. t \<in> set (k_timers s m) \<Longrightarrow> tm_mode (k_tm s t) = Tperiodic \<Longrightarrow> 0 \<le> nsticks tod (tm_tns (k_tm s t))"
  shows "tinv (s\<lparr>k_tod := tod\<rparr>)" "armed m (s\<lparr>k_tod := tod\<rparr>) = armed m s"
proof -
  have per: "okperiod (s\<lparr>k_tod := tod\<rparr>) (k_tm s t)" if "t \<in> set (k_timers s j)" "okperiod s (k_tm s t)" for t j
    using assms(2) [OF that(1)] that(2) by (auto simp: okperiod_def)
  have "okq (s\<lparr>k_tod := tod\<rparr>) j" for j
  proof -
    have "okq s j" using assms(1) by (simp add: tinv_def)
    then show ?thesis using per [of _ j] unfolding okq_def by auto
  qed
  then show "tinv (s\<lparr>k_tod := tod\<rparr>)" using assms(1) by (simp add: tinv_def)
qed (simp add: armed_def)

lemma tloop_more: "tloop fuel m now hz s = Some r \<Longrightarrow> fuel \<le> fuel' \<Longrightarrow> tloop fuel' m now hz s = Some r"
proof (induction fuel arbitrary: fuel' hz s)
  case (Suc fuel)
  then obtain k where k: "fuel' = Suc k" "fuel \<le> k" by (cases fuel') auto
  show ?case using Suc.prems(1) Suc.IH [OF _ k(2)] unfolding k(1)
    by (auto simp: Let_def split: list.splits if_splits sum.splits)
qed simp

lemma timerintr_ok:
  assumes "tinv s" "0 < now" "timerintr fuel m now s = Some (Inr (b, s'))"
  shows "tinv s' \<and> (\<forall>j. armed j s \<longrightarrow> armed j s')"
proof -
  let ?f = "max fuel (Suc (late m now s))"
  have e: "tloop ?f m now False s = Some (Inr (b, s'))"
    using tloop_more [of fuel m now False s _ ?f] assms(3) by (simp add: timerintr_def)
  have "late m now s < ?f" by simp
  from tloop_ok [OF assms(1,2) this, of False] e have l: "tinv s'" "armed m s'"
      "\<And>j. j \<noteq> m \<Longrightarrow> k_timers s' j = k_timers s j" "\<And>j. j \<noteq> m \<Longrightarrow> k_set s' j = k_set s j"
      "\<And>u. u \<notin> set (k_timers s m) \<Longrightarrow> k_tm s' u = k_tm s u" by auto
  have "armed j s'" if "armed j s" for j
  proof (cases "j = m \<or> k_timers s j = []")
    case True
    then show ?thesis using l(2,3) by (cases "j = m") (auto simp: armed_def)
  next
    case False
    have mem: "\<And>t j. t \<in> set (k_timers s j) \<longleftrightarrow> tm_tt (k_tm s t) = Some j" using assms(1) by (simp add: tinv_def)
    have "hd (k_timers s j) \<in> set (k_timers s j)" using False by simp
    then have "hd (k_timers s j) \<notin> set (k_timers s m)" using False mem by auto
    then show ?thesis using that False l(3) [of j] l(4) [of j] l(5) [of "hd (k_timers s j)"] by (simp add: armed_def)
  qed
  then show ?thesis using l(1) by blast
qed

lemma treach_ok: "treach far s \<Longrightarrow> tinv s \<and> (\<not> far \<longrightarrow> (\<forall>m. armed m s))"
proof (induction rule: treach.induct)
  case (TInit s)
  then show ?case by (simp add: tinv_def okq_def armed_def)
next
  case (TAdd s n now m s')
  then show ?case using timeradd_ok [of s n now m] by auto
next
  case (TDel s m d)
  then show ?case using timerdel_ok [of s m d] by auto
next
  case (TIntr s now fuel m b s')
  then show ?case using timerintr_ok [of s now fuel m b s'] by auto
next
  case (TLink s n ms now m s')
  then show ?case using addclock0link_ok [of s n ms now m] by auto
next
  case (TFreq s f tod)
  then show ?case using tfreq_ok [of s tod] by auto
next
  case (TSet s n t)
  then show ?case using tset_ok [of s n t] by auto
qed

text \<open>Calls on the alarm list, from the empty list.\<close>

datatype acall = PAlarm ulong nat ulong | AKproc "nat \<Rightarrow> bool" ulong

fun arun :: "acall list \<Rightarrow> Alarms \<Rightarrow> Alarms" where
  "arun [] s = s"
| "arun (PAlarm systicks up time # ops) s = arun ops (snd (procalarm systicks up time s))"
| "arun (AKproc debug now # ops) s = arun ops (alarmkproc debug now s)"

definition noalarms :: Alarms where "noalarms = \<lparr>a_head = [], a_alarm = (\<lambda>_. 0), a_note = []\<rparr>"

lemma arun_ok: "ainv s \<Longrightarrow> ainv (arun ops s)"
proof (induction ops s rule: arun.induct)
  case (3 debug now ops s)
  have "ainv (alarmkproc debug now s)" using alarmloop_ok [of "a_head s" s debug now] 3(2) by (auto simp: alarmkproc_def ainv_def)
  then show ?case using 3 by simp
qed (simp_all add: procalarm_ok)


text \<open>A link made on another processor does not program the clock of processor 0, on which the timer runs.\<close>

lemma addclock0link_other:
  assumes "m \<noteq> 0" "addclock0link m now n ms s = Inr ((), s')"
  shows "k_set s' 0 = k_set s 0"
  using assms by (auto simp: addclock0link_def tadd_def timerset_def Let_def kbind_def split: sum.splits if_splits)

section \<open>Properties\<close>

text \<open>
  C28: in every reachable state each processor's queue is in order of time without repetition, a timer points to
  the queue it is on, and adding a timer that is set up correctly does not panic. The clock of each processor is
  programmed for a time no later than its first timer as long as links to clock 0 are made only on processor 0
  (\<^verbatim>\<open>addclock0link\<close> programs the clock of the processor it runs on).
\<close>

theorem timer_queues:
  assumes "treach far s"
  shows "sorted (map (due s) (k_timers s m)) \<and> distinct (k_timers s m) \<and>
    (t \<in> set (k_timers s m) \<longleftrightarrow> tm_tt (k_tm s t) = Some m) \<and>
    (\<not> far \<longrightarrow> k_timers s m = [] \<or> k_set s m \<le> due s (hd (k_timers s m))) \<and>
    (okt s (k_tm s t) \<and> 0 < now \<longrightarrow> (\<exists>s'. timeradd m now t s = Inr ((), s')))"
proof -
  have i: "tinv s" "\<not> far \<longrightarrow> armed m s" using treach_ok [OF assms] by auto
  show ?thesis using i(1) i(2) [unfolded armed_def] timeradd_ok [OF i(1), of t now m] by (auto simp: tinv_def okq_def)
qed

definition clksample :: Clk where
  "clksample = \<lparr>k_timers = (\<lambda>_. []),
     k_tm = (\<lambda>n. \<lparr>tm_mode = if n = 0 then Tperiodic else Trelative, tm_tns = 10000000, tm_twhen = 0, tm_tt = None, tm_tf = n \<noteq> 0\<rparr>),
     k_set = (\<lambda>_. 0), k_fired = [], k_tod = todsample\<lparr>t_divider := 0x300000001\<rparr>\<rparr>"

lemma clksample_ticks: "nsticks (k_tod clksample) 10000000 = 30000000"
proof -
  have "unat (mul64fract 10000000 0x300000001) = 30000000" by (simp add: mul64fract_exact)
  moreover have "mul64fract 10000000 0x300000001 = of_nat (unat (mul64fract 10000000 0x300000001))" by simp
  ultimately have "mul64fract 10000000 0x300000001 = of_nat 30000000" by simp
  then show ?thesis by (simp add: nsticks_def ns2fastticks_def clksample_def)
qed

lemma clksample_okt: "okt clksample (k_tm clksample n)"
  using clksample_ticks by (simp add: okt_def okperiod_def) (simp add: clksample_def)

lemma clksample_reach: "treach far clksample"
  by (rule TInit) (simp_all add: clksample_def)

lemma clksample_two: "\<exists>s. treach far s \<and> 0 \<in> set (k_timers s 3)"
proof -
  obtain s where s: "timeradd 3 5 0 clksample = Inr ((), s)" "0 \<in> set (k_timers s 3)"
    using timeradd_ok [of clksample 0 5 3] treach_ok [OF clksample_reach] clksample_okt by auto
  then show ?thesis using TAdd [OF clksample_reach clksample_okt, of 5 3 0 s] by auto
qed

theorem timer_queues_witness:
  "\<exists>s. treach False s \<and> 0 \<in> set (k_timers s 3) \<and> sorted (map (due s) (k_timers s 3)) \<and> k_set s 3 \<le> due s (hd (k_timers s 3))"
proof -
  obtain s where s: "treach False s" "0 \<in> set (k_timers s 3)" using clksample_two by blast
  then show ?thesis using timer_queues [OF s(1), of 3] by force
qed

text \<open>
  C27: the clock interrupt always ends; it calls the functions of the timers in order of the times they were due, each
  timer that was due at its time, none before its time and none twice for the same time, and leaves
  only timers that are due later.
\<close>

theorem timerintr_fires:
  assumes "treach far s" "0 < now" "late m now s < fuel"
  shows "\<exists>b s' log. timerintr fuel m now s = Some (Inr (b, s')) \<and> k_fired s' = k_fired s @ log \<and>
    sorted (map snd log) \<and> distinct log \<and>
    (\<forall>(t, w) \<in> set log. t \<in> set (k_timers s m) \<and> due s t \<le> w \<and> w \<le> now) \<and>
    (\<forall>t \<in> set (k_timers s m). due s t \<le> now \<longrightarrow> (t, due s t) \<in> set log) \<and>
    (\<forall>t \<in> set (k_timers s' m). now < due s' t)"
proof -
  have "tinv s" using treach_ok [OF assms(1)] by blast
  from tloop_ok [OF this assms(2,3), of False] show ?thesis unfolding timerintr_def
    by (elim exE conjE) (intro exI conjI, assumption+)
qed

theorem timerintr_fires_witness:
  "\<exists>s b s' log. treach True s \<and> 0 \<in> set (k_timers s 3) \<and>
     timerintr (Suc (late 3 (due s 0) s)) 3 (due s 0) s = Some (Inr (b, s')) \<and> k_fired s' = k_fired s @ log \<and> (0, due s 0) \<in> set log"
proof -
  obtain s where s: "treach True s" "0 \<in> set (k_timers s 3)" using clksample_two by blast
  have pos: "0 < due s 0" using treach_ok [OF s(1)] s(2) by (auto simp: tinv_def okq_def)
  from timerintr_fires [OF s(1) pos lessI, of 3] show ?thesis
    by (elim exE conjE) (intro exI conjI, use s in auto)
qed

text \<open>
  C29: whatever alarms were set, changed and cancelled before, and whichever turns of \<^verbatim>\<open>alarmkproc\<close> found a process
  locked, the processes with an alarm set are in the list once each in order of time, and the next turn posts the note, in
  that order, to exactly those before the first whose alarm is not due or whose process is locked; it clears their alarms
  and no others. A locked process that is due thus delays the due processes behind it to a later turn.
\<close>

theorem alarm_turn:
  fixes ops debug now
  defines "s \<equiv> arun ops noalarms"
  defines "waiting \<equiv> filter (\<lambda>p. a_alarm s p \<noteq> 0) (a_head s)"
  defines "log \<equiv> takeWhile (\<lambda>p. a_alarm s p \<le> now \<and> debug p) waiting"
  shows "set waiting = {p. a_alarm s p \<noteq> 0} \<and> distinct waiting \<and> sorted (map (a_alarm s) waiting) \<and>
    a_note (alarmkproc debug now s) = a_note s @ log \<and>
    a_alarm (alarmkproc debug now s) = (\<lambda>p. if p \<in> set log then 0 else a_alarm s p)"
proof -
  have "ainv noalarms" by (simp add: ainv_def alist_def noalarms_def)
  then have "alist (a_head s) (a_alarm s)" using arun_ok [of noalarms ops] by (simp add: s_def ainv_def)
  then have "distinct (a_head s)" "sorted (map (a_alarm s) waiting)" "\<forall>p. a_alarm s p \<noteq> 0 \<longrightarrow> p \<in> set (a_head s)"
    by (simp_all add: alist_def waiting_def filter_map comp_def)
  then show ?thesis
    using alarmloop_turn [of "a_head s" debug now s]
    by (auto simp: alarmkproc_def turned_def waiting_def log_def)
qed

end
