(* ===== verification/Spec2Isabelle.thy ===== *)
theory Spec2Isabelle
  imports Qio_Properties Qlock Route_Properties Ip_Properties Checksum Iphash Fgrp Timers
begin

text \<open>
  A verification development for the NIX Mark IV kernel, the amd64 Plan 9 kernel whose sources are under
  \<^verbatim>\<open>src/\<close>: the portable kernel \<^verbatim>\<open>port/\<close>, the Internet protocols \<^verbatim>\<open>ip/\<close>, the amd64 port
  \<^verbatim>\<open>k10/\<close>, the drivers \<^verbatim>\<open>386/\<close> and the user programs of the root file system. It models core
  parts of the first two, routine by routine from the C source, and proves what makes each of them correct.

  THE PARTS AND HOW THEY INTERACT. Data move through the kernel in blocks (\<^verbatim>\<open>port/allocb.c\<close>), which
  the I/O queues (\<^verbatim>\<open>port/qio.c\<close>) pass between a producer and a consumer: the protocols put what they receive on a
  queue, a process reads it, and the limits of a queue put the writer to sleep. Conversations are found from the
  addresses of a packet by the tables of \<^verbatim>\<open>ip/ipaux.c\<close>, packets are checked with the checksum of
  \<^verbatim>\<open>ip/ptclbsum.c\<close> over chains of blocks, and cut, sent and put together again by \<^verbatim>\<open>ip/ip.c\<close> along the routes of
  \<^verbatim>\<open>ip/iproute.c\<close>. Processes
  reach all this through descriptors (\<^verbatim>\<open>port/sysfile.c\<close>), which hold counted references to channels; sleeping locks
  (\<^verbatim>\<open>port/qlock.c\<close>) protect the shared state, and timers (\<^verbatim>\<open>port/portclock.c\<close>, over the clock of
  \<^verbatim>\<open>port/tod.c\<close>) and alarms (\<^verbatim>\<open>port/alarm.c\<close>) drive what has to happen later.

  THEORIES.
  \<^item> \<open>Prelude\<close>: machine types, the result type \<open>kres\<close> of a routine that can panic, fault or return, its
    sequencing, flag words, generic lemmas.
  \<^item> \<open>Block\<close>, \<open>Blocklist\<close>: \<^verbatim>\<open>struct Block\<close> with its buffer and pointers, the allocator with
    its budget, and the routines that cut, join, copy and pad chains of blocks (first part of \<^verbatim>\<open>qio.c\<close>).
    Lemmas: the well-formedness of a block is kept, and each routine acts on the bytes of a chain as its
    comment says, whatever the division in blocks, without a fault and without losing a block.
  \<^item> \<open>Queue\<close>, \<open>Qstream\<close>, \<open>Qsched\<close>, \<open>Qio_Properties\<close>: \<^verbatim>\<open>struct Queue\<close> and its operations;
    the stream and the message behaviour of reads and writes; a step relation of one reader and
    one writer with their sleeps and wakeups; the properties. The queue contract is a locale, interpreted on the
    operations of the model.
  \<^item> \<open>Qlock\<close>: QLock and RWlock with their lists of waiting processes, a step relation of the calls of all processes,
    exclusion, order of service, unreachable panics.
  \<^item> \<open>Route\<close>, \<open>Route_Table\<close>, \<open>Forest\<close>, \<open>Flush\<close>, \<open>Route_Properties\<close>: the three-way trees of
    \<^verbatim>\<open>iproute.c\<close>, insertion with rebalancing and the queue of displaced subtrees, deletion, the hashed forests for
    both address lengths as a refinement of a set of prefixes (locale \<open>route_table\<close>, interpretations for IPv4 and
    IPv6), lookup with the cache of a conversation, printing of a route, the control file and its flush
    (locale \<open>flushing\<close>).
  \<^item> \<open>Ipv4\<close>, \<open>Reasm\<close>, \<open>Ipsum\<close>, \<open>Ipfrag\<close>, \<open>Ipround\<close>, \<open>Ip_Properties\<close>: \<^verbatim>\<open>ip/ip.c\<close>. \<open>Ipv4\<close> has the operations:
    output with routing and fragmentation, input with delivery and forwarding, reassembly with its queues and
    descriptors, the header checksum. \<open>Reasm\<close> refines a queue of fragments to the set of the bytes received, \<open>Ipsum\<close> is the header
    checksum, \<open>Ipfrag\<close> gives the fragments of a packet, and \<open>Ipround\<close> carries them from one host to the other.
  \<^item> \<open>Checksum\<close>: \<^verbatim>\<open>ptclbsum\<close> and \<^verbatim>\<open>ptclcsum\<close> against the one's complement sum of the bytes in network
    order.
  \<^item> \<open>Iphash\<close>: the conversation tables as a set of conversations, MAC addresses.
  \<^item> \<open>Fgrp\<close>: descriptor tables as a map with counted references (predicate \<open>fdrel\<close>), the calls open, close, dup,
    the copy and the closing of a whole group. Locale \<open>fd_table\<close> is the contract of one call and proves it for
    sequences; locale \<open>closing\<close> is the contract of the two ways of dropping a channel; both are
    interpreted on the model.
  \<^item> \<open>Tod\<close>, \<open>Timers\<close>: fixed-point clock arithmetic on 64-bit words, the time of day, the timer queues of
    the processors with the clock interrupt, the alarm list.

  CONVENTIONS. An operation is named as in the source; a loop is a function of its own. A structure is a record,
  a linked list the list of its elements, shared objects are numbered and kept in a store. Integers whose overflow
  matters are words of their width (flags, checksums, addresses, ports, ticks, clock products); lengths and offsets of blocks are
  \<open>int\<close>, as C computes them before any truncation. An error raised with \<^verbatim>\<open>error()\<close> is a value of the result; a
  panic, a failed assertion, a nil or out-of-range access and a division by zero are faults, which the properties
  exclude. What the kernel gets from outside its sources (results of \<^verbatim>\<open>malloc\<close>, clock readings, the order in which
  processes run) is an argument, a tape in the state or a choice of the step relation.

  BOUNDS AND FUEL. \<open>ptclbsum\<close> assumes less than 2 to the 16 bytes, the size of an IP packet, for which its 32-bit sums
  do not wrap. The clock interrupt takes fuel, and None means it ran out: the sum over the queue of the ticks each
  timer is late, plus one, is enough. The flush of the route file is a \<^theory_text>\<open>partial_function\<close>, None if it
  never ends: it is proved that it ends whenever the tables are well formed. The other loops are structural or have a
  termination proof.

  WHAT THE PROPERTIES ASK. Reassembly: a fragment's block holds the bytes its header claims, with the four bytes of
  headroom of the interfaces, and no fragment runs over the end of a first fragment that arrived before it; the code
  checks none of these. Routes: the masks are prefixes of ones; what the tree does with other masks, which
  \<^verbatim>\<open>parseipmask\<close> accepts, is not shown. Queues: the wakeup protocol of \<open>Qsched\<close> has one reader (\<^verbatim>\<open>qread\<close>)
  and one writer (\<^verbatim>\<open>qbwrite\<close>), and every other operation that changes a queue as a step of somebody else:
  \<^verbatim>\<open>qpass\<close>, \<^verbatim>\<open>qpassnolim\<close>, \<^verbatim>\<open>qproduce\<close>, \<^verbatim>\<open>qiwrite\<close>, \<^verbatim>\<open>qreopen\<close>, \<^verbatim>\<open>qsetlimit\<close> and \<^verbatim>\<open>qnoblock\<close> under one
  switch, \<^verbatim>\<open>qflush\<close>, \<^verbatim>\<open>qget\<close>, \<^verbatim>\<open>qdiscard\<close> and \<^verbatim>\<open>qconsume\<close> under another; a theorem says which of
  them it admits. Timers: a link to clock 0 made on another processor programs the wrong clock, so that the theorem on
  the clocks excludes it; the one on the queues does not.

  NOT MODELLED. Errors raised by the output routine of a medium, and version 6 of IP. Spin locks are held around whole operations, so an operation under a lock is one step; what happens between
  two locked regions of one routine is a step boundary in \<open>Qsched\<close> and \<open>Qlock\<close>. Functions called
  by a timer are recorded, not run. The name space behind a channel, the protocols above IP, virtual memory,
  the scheduler, the allocators of memory and the drivers are left out; drivers and machine dependent code rest on hardware whose behaviour
  is not in the sources. Statistics are kept where they are part of the state a routine returns, tracing and printing
  are left out.
\<close>

end
